(* ===== verification/Prelude.thy ===== *)
theory Prelude
  imports Main "HOL-Library.Word" "HOL-Library.Signed_Division" "HOL-Library.Multiset"
begin

text \<open>
  Shared vocabulary of the development.

  \<^item> Go's numbers: \<open>byte\<close> is a Go \<open>byte\<close>; \<open>int64\<close> values are \<open>int\<close>, with
    \<open>wrap64\<close> written where an \<open>int64\<close> operation can leave its range; Go's truncating
    division is \<open>sdiv\<close> of \<open>HOL-Library.Signed_Division\<close>.
  \<^item> Time: a \<open>time.Time\<close> is its number of nanoseconds since the epoch, a
    \<open>time.Duration\<close> a number of nanoseconds; \<open>time_Sub\<close> saturates as Go's \<open>Sub\<close> does.
  \<^item> Byte slices: Go's \<open>copy\<close>, slicing and the big-endian codecs of \<open>encoding/binary\<close>.
  \<^item> Buffered channels: the non-blocking send of \<open>select { case ch <- x: default: }\<close>
    and the contract every bounded queue of the program relies on, as a locale.
  \<^item> Hexadecimal strings of byte slices, as \<open>fmt\<close> and \<open>encoding/hex\<close> print them.
  \<^item> Reachability for step relations, used by the state machines.
\<close>

type_synonym byte = "8 word"
type_synonym bytes = "byte list"
type_synonym TraceID = bytes
type_synonym time = int
type_synonym duration = int

section \<open>Machine integers\<close>

definition wrap64 :: "int \<Rightarrow> int" where
  "wrap64 x = (x + 2 ^ 63) mod 2 ^ 64 - 2 ^ 63"

lemma wrap64_id: "- (2 ^ 63) \<le> x \<Longrightarrow> x < 2 ^ 63 \<Longrightarrow> wrap64 x = x"
  by (simp add: wrap64_def)

lemma wrap64_range: "- (2 ^ 63) \<le> wrap64 x \<and> wrap64 x < 2 ^ 63"
proof -
  have "0 \<le> (x + 2 ^ 63) mod 2 ^ 64" and "(x + 2 ^ 63) mod 2 ^ 64 < (2 ^ 64 :: int)"
    by simp_all
  then show ?thesis unfolding wrap64_def by simp
qed

lemma mod_shift: "(a mod m + b + c) mod m = (a + b + c) mod (m :: int)"
  by (simp add: mod_add_left_eq add.assoc)

definition minDuration :: duration where "minDuration = - (2 ^ 63)"
definition maxDuration :: duration where "maxDuration = 2 ^ 63 - 1"

text \<open>\<open>time.Time.Sub\<close>: the difference, saturated to the range of \<open>time.Duration\<close>.\<close>

definition time_Sub :: "time \<Rightarrow> time \<Rightarrow> duration" where
  "time_Sub t u = max minDuration (min maxDuration (t - u))"

lemma time_Sub_exact:
  "minDuration \<le> t - u \<Longrightarrow> t - u \<le> maxDuration \<Longrightarrow> time_Sub t u = t - u"
  by (simp add: time_Sub_def)

lemma time_Sub_less_iff:
  "minDuration < d \<Longrightarrow> d \<le> maxDuration \<Longrightarrow> time_Sub t u < d \<longleftrightarrow> t - u < d"
  by (auto simp: time_Sub_def)

lemma time_Sub_mono: "t \<le> t' \<Longrightarrow> time_Sub t u \<le> time_Sub t' u"
  by (auto simp: time_Sub_def)

lemma time_Sub_antimono: "u \<le> u' \<Longrightarrow> time_Sub t u' \<le> time_Sub t u"
  by (auto simp: time_Sub_def)

section \<open>Byte slices\<close>

text \<open>\<open>xs[a:b]\<close>, and \<open>copy(dst[off:], src)\<close>, which stops at the end of \<open>dst\<close>.\<close>

definition slice :: "'a list \<Rightarrow> nat \<Rightarrow> nat \<Rightarrow> 'a list" where
  "slice xs a b = take (b - a) (drop a xs)"

definition copy_at :: "'a list \<Rightarrow> nat \<Rightarrow> 'a list \<Rightarrow> 'a list" where
  "copy_at dst off src = take off dst @ take (length dst - off) src @ drop (off + length src) dst"

text \<open>\<open>clear(xs[off:])\<close>\<close>

definition clear_from :: "bytes \<Rightarrow> nat \<Rightarrow> bytes" where
  "clear_from xs off = take off xs @ replicate (length xs - off) 0"

lemma length_slice [simp]: "length (slice xs a b) = min (b - a) (length xs - a)"
  by (simp add: slice_def min.commute)

lemma length_copy_at [simp]: "off \<le> length dst \<Longrightarrow> length (copy_at dst off src) = length dst"
  by (simp add: copy_at_def)

lemma length_clear_from [simp]: "off \<le> length xs \<Longrightarrow> length (clear_from xs off) = length xs"
  by (simp add: clear_from_def)

lemma slice_append_left [simp]:
  "b \<le> length xs \<Longrightarrow> slice (xs @ ys) a b = slice xs a b"
  by (simp add: slice_def)

lemma slice_append_right [simp]:
  "length xs \<le> a \<Longrightarrow> slice (xs @ ys) a b = slice ys (a - length xs) (b - length xs)"
  by (simp add: slice_def)

lemma slice_full: "n = length xs \<Longrightarrow> slice xs 0 n = xs"
  by (simp add: slice_def)

lemma copy_at_append:
  "off = length xs \<Longrightarrow> length src = length ys \<Longrightarrow>
   copy_at (xs @ ys @ zs) off src = xs @ src @ zs"
  by (simp add: copy_at_def)

lemma copy_at_prefix:
  "off + length src \<le> length dst \<Longrightarrow> take (off + length src) (copy_at dst off src) = take off dst @ src"
  by (simp add: copy_at_def)

lemma take_drop_join: "m = a + n \<Longrightarrow> take n (drop a xs) @ drop m xs = drop a xs"
  by (metis add.commute append_take_drop_id drop_drop)

lemma sorted_hd_le_last: "sorted (t # ts) \<Longrightarrow> t \<le> last (t # ts)"
  by auto

section \<open>Big-endian integers\<close>

text \<open>\<open>binary.BigEndian.PutUint64\<close>/\<open>PutUint32\<close> and \<open>Uint64\<close>/\<open>Uint32\<close>, at a width of \<open>n\<close> bytes.\<close>

fun be_put :: "nat \<Rightarrow> nat \<Rightarrow> bytes" where
  "be_put 0 v = []"
| "be_put (Suc n) v = be_put n (v div 256) @ [word_of_nat (v mod 256)]"

definition be_get :: "bytes \<Rightarrow> nat" where
  "be_get bs = foldl (\<lambda>a b. a * 256 + unat b) 0 bs"

lemma length_be_put [simp]: "length (be_put n v) = n"
  by (induction n arbitrary: v) auto

lemma be_get_append1: "be_get (bs @ [b]) = be_get bs * 256 + unat b"
  by (simp add: be_get_def)

lemma unat_byte_mod: "unat (word_of_nat (v mod 256) :: byte) = v mod 256"
  by (simp add: unat_of_nat)

lemma be_get_put: "be_get (be_put n v) = v mod 256 ^ n"
proof (induction n arbitrary: v)
  case 0
  show ?case by (simp add: be_get_def)
next
  case (Suc n)
  have "be_get (be_put (Suc n) v) = (v div 256 mod 256 ^ n) * 256 + v mod 256"
    using Suc.IH by (simp add: be_get_append1 unat_byte_mod)
  also have "\<dots> = v mod 256 ^ Suc n"
    by (metis mod_mult2_eq mult.commute power_Suc)
  finally show ?case .
qed

text \<open>An \<open>int64\<close> stored as \<open>uint64\<close> and read back.\<close>

definition int64_of_uint64 :: "nat \<Rightarrow> int" where
  "int64_of_uint64 u = wrap64 (int u)"

lemma int64_uint64_roundtrip:
  assumes "- (2 ^ 63) \<le> x" and "x < 2 ^ 63"
  shows "int64_of_uint64 (nat (x mod 2 ^ 64) mod 256 ^ 8) = x"
proof -
  have "nat (x mod 2 ^ 64) mod 256 ^ 8 = nat (x mod 2 ^ 64)"
    by (simp add: nat_less_iff)
  moreover have "wrap64 (x mod 2 ^ 64) = wrap64 x"
    by (simp add: wrap64_def mod_add_left_eq)
  ultimately show ?thesis
    using assms by (simp add: int64_of_uint64_def wrap64_id)
qed

section \<open>Buffered channels\<close>

text \<open>
  \<open>select { case ch <- x: ... default: ... }\<close> on a channel of capacity \<open>cap\<close>:
  \<open>None\<close> is the \<open>default\<close> branch. A receive takes the oldest element.
\<close>

definition try_send :: "nat \<Rightarrow> 'a \<Rightarrow> 'a list \<Rightarrow> 'a list option" where
  "try_send cap x ch = (if length ch < cap then Some (ch @ [x]) else None)"

definition chan_recv :: "'a list \<Rightarrow> ('a \<times> 'a list) option" where
  "chan_recv ch = (case ch of [] \<Rightarrow> None | x # xs \<Rightarrow> Some (x, xs))"

text \<open>The contract of a bounded FIFO queue with a non-blocking send.\<close>

locale bounded_queue =
  fixes send :: "'a \<Rightarrow> 'q \<Rightarrow> 'q option"
    and recv :: "'q \<Rightarrow> ('a \<times> 'q) option"
    and elems :: "'q \<Rightarrow> 'a list"
    and capacity :: nat
  assumes send_Some: "send x q = Some q' \<Longrightarrow> elems q' = elems q @ [x]"
    and send_None_iff: "send x q = None \<longleftrightarrow> capacity \<le> length (elems q)"
    and recv_Some: "recv q = Some (x, q') \<Longrightarrow> elems q = x # elems q'"
    and recv_None_iff: "recv q = None \<longleftrightarrow> elems q = []"
begin

lemma send_within_capacity: "send x q = Some q' \<Longrightarrow> length (elems q') \<le> capacity"
  using send_Some [of x q q'] send_None_iff [of x q] by (cases "send x q") auto

lemma recv_within_capacity:
  "recv q = Some (x, q') \<Longrightarrow> length (elems q) \<le> capacity \<Longrightarrow> length (elems q') \<le> capacity"
  using recv_Some [of q x q'] by simp

lemma send_recv_fifo:
  "send x q = Some q' \<Longrightarrow> recv q' = Some (y, q'') \<Longrightarrow>
   (if elems q = [] then y = x \<and> elems q'' = [] else elems q = y # butlast (elems q'') \<and> last (elems q'') = x)"
  using send_Some [of x q q'] recv_Some [of q' y q''] by (cases "elems q") auto

end

interpretation chan: bounded_queue "try_send cap" chan_recv "\<lambda>q. q" cap for cap :: nat
  by unfold_locales (auto simp: try_send_def chan_recv_def split: if_splits list.splits)

section \<open>Hexadecimal\<close>

definition hexdigit :: "nat \<Rightarrow> char" where
  "hexdigit n = ''0123456789abcdef'' ! n"

definition hex_byte :: "byte \<Rightarrow> string" where
  "hex_byte b = [hexdigit (unat b div 16), hexdigit (unat b mod 16)]"

text \<open>\<open>%x\<close> of a byte slice, and \<open>hex.EncodeToString\<close>.\<close>

definition hex :: "bytes \<Rightarrow> string" where
  "hex bs = concat (map hex_byte bs)"

lemma hexdigit_inj: "m < 16 \<Longrightarrow> n < 16 \<Longrightarrow> hexdigit m = hexdigit n \<Longrightarrow> m = n"
proof -
  assume "m < 16" "n < 16" "hexdigit m = hexdigit n"
  moreover have "distinct ''0123456789abcdef''" "length ''0123456789abcdef'' = 16" by simp_all
  ultimately show ?thesis using nth_eq_iff_index_eq [of "''0123456789abcdef''" m n] by (simp add: hexdigit_def)
qed

lemma hex_byte_inj: "hex_byte a = hex_byte b \<Longrightarrow> a = b"
proof -
  assume eq: "hex_byte a = hex_byte b"
  have "unat c < 256" for c :: byte using unsigned_less [of c] by simp
  then have r: "unat c div 16 < 16" "unat c mod 16 < 16" for c :: byte
    by (simp_all add: less_mult_imp_div_less)
  have "unat a div 16 = unat b div 16" "unat a mod 16 = unat b mod 16"
    using eq hexdigit_inj r by (simp_all add: hex_byte_def)
  then have "unat a = unat b" by (metis div_mult_mod_eq)
  then show "a = b" by (rule unsigned_word_eqI)
qed

lemma hex_inj: "hex a = hex b \<Longrightarrow> a = b"
proof (induction a arbitrary: b)
  case Nil
  then show ?case by (cases b) (simp_all add: hex_def hex_byte_def)
next
  case (Cons x a)
  then obtain y b' where b: "b = y # b'" by (cases b) (simp_all add: hex_def hex_byte_def)
  have "hex_byte x = hex_byte y" "hex a = hex b'" using Cons.prems by (simp_all add: b hex_def hex_byte_def)
  then show ?case using Cons.IH hex_byte_inj by (simp add: b)
qed

section \<open>Reachability\<close>

text \<open>States reachable by labelled steps, with the labels of the run.\<close>

inductive run :: "('s \<Rightarrow> 'l \<Rightarrow> 's \<Rightarrow> bool) \<Rightarrow> 's \<Rightarrow> 'l list \<Rightarrow> 's \<Rightarrow> bool"
  for stp :: "'s \<Rightarrow> 'l \<Rightarrow> 's \<Rightarrow> bool" and s0 :: 's where
  run_nil: "run stp s0 [] s0"
| run_snoc: "run stp s0 ls s \<Longrightarrow> stp s l t \<Longrightarrow> run stp s0 (ls @ [l]) t"

lemma run_invariant:
  assumes "run stp s0 ls s" and "I s0"
    and "\<And>s l t. stp s l t \<Longrightarrow> l \<in> set ls \<Longrightarrow> I s \<Longrightarrow> I t"
  shows "I s"
  using assms by (induction rule: run.induct) auto

lemma run_trans: "run stp s ls t \<Longrightarrow> run stp t ls' u \<Longrightarrow> run stp s (ls @ ls') u"
  by (rotate_tac, induction rule: run.induct) (auto simp: run_snoc simp flip: append_assoc)

text \<open>A run of a part, embedded by \<open>f\<close> into a whole whose labels are \<open>g l\<close>, is a run of the whole.\<close>

lemma run_embed:
  assumes "run stp s ls t" and "\<And>u l v. l \<in> set ls \<Longrightarrow> stp u l v \<Longrightarrow> stp' (f u) (g l) (f v)"
  shows "run stp' (f s) (map g ls) (f t)"
  using assms
proof (induction rule: run.induct)
  case run_nil
  show ?case by (simp add: run.run_nil)
next
  case (run_snoc ls u l v)
  have "run stp' (f s) (map g ls) (f u)" by (rule run_snoc.IH) (use run_snoc.prems in auto)
  from run.run_snoc [OF this] run_snoc.hyps(2) run_snoc.prems show ?case by simp
qed

text \<open>A forward simulation between labelled step relations, for the labels in \<open>good\<close>.\<close>

locale simulation =
  fixes cstep :: "'c \<Rightarrow> 'l \<Rightarrow> 'c \<Rightarrow> bool"
    and astep :: "'a \<Rightarrow> 'l \<Rightarrow> 'a \<Rightarrow> bool"
    and rel :: "'c \<Rightarrow> 'a \<Rightarrow> bool"
    and good :: "'l \<Rightarrow> bool"
  assumes sim: "cstep s l t \<Longrightarrow> good l \<Longrightarrow> rel s a \<Longrightarrow> \<exists>b. astep a l b \<and> rel t b"
begin

lemma run_sim:
  assumes "run cstep s0 ls s" and "rel s0 a0" and "\<forall>l \<in> set ls. good l"
  shows "\<exists>a. run astep a0 ls a \<and> rel s a"
  using assms
proof (induction rule: run.induct)
  case run_nil
  then show ?case by (blast intro: run.run_nil)
next
  case (run_snoc ls s l t)
  then obtain a where a: "run astep a0 ls a" "rel s a" by auto
  from sim [OF run_snoc.hyps(2) _ a(2)] run_snoc.prems obtain b where "astep a l b" "rel t b" by auto
  with a(1) show ?case by (blast intro: run.run_snoc)
qed

lemma run_rel:
  "run cstep s0 ls s \<Longrightarrow> rel s0 a0 \<Longrightarrow> \<forall>l \<in> set ls. good l \<Longrightarrow> \<exists>a. rel s a"
  using run_sim by blast

end

end
