(* ===== verification/Interest.thy ===== *)
theory Interest
  imports Prelude
begin

text \<open>
  The interest set of \<open>internal/buffer/buffer.go\<close>: the map \<open>interestEntries\<close> from trace IDs
  to elements of the linked list \<open>interestList\<close>, ordered from the most recently to the least
  recently added entry. A list element is an address into \<open>interestHeap\<close>, so that the map and
  the list share it as the pointers of the code do. Every operation runs under \<open>interestMu\<close>
  and is given one reading of the clock.

  The operations are \<open>AddInterest\<close>, \<open>HasInterest\<close>, \<open>hasInterestRLocked\<close>,
  \<open>hasInterestForSpanRLocked\<close> and \<open>pruneInterestLocked\<close>; the invariant relates heap, map
  and list; the locale \<open>interest_store\<close> is the contract the span buffer relies on.
\<close>

record interestEntry =
  ie_id :: TraceID
  ie_addedAt :: time

record interestSet =
  interestHeap :: "nat \<rightharpoonup> interestEntry"
  interestEntries :: "TraceID \<rightharpoonup> nat"
  interestList :: "nat list"
  nextElem :: nat

definition empty_interest :: interestSet where
  "empty_interest = \<lparr>interestHeap = Map.empty, interestEntries = Map.empty,
     interestList = [], nextElem = 0\<rparr>"

section \<open>container/list\<close>

definition list_Back :: "nat list \<Rightarrow> nat option" where
  "list_Back l = (if l = [] then None else Some (last l))"

definition list_MoveToFront :: "nat \<Rightarrow> nat list \<Rightarrow> nat list" where
  "list_MoveToFront el l = (if el \<in> set l then el # remove1 el l else l)"

section \<open>Operations\<close>

text \<open>\<open>hasInterestRLocked\<close>: the entry is younger than \<open>decisionWait\<close>.\<close>

definition hasInterestRLocked :: "duration \<Rightarrow> time \<Rightarrow> interestSet \<Rightarrow> TraceID \<Rightarrow> bool" where
  "hasInterestRLocked decisionWait now s traceID =
     (case interestEntries s traceID of
        None \<Rightarrow> False
      | Some el \<Rightarrow> (case interestHeap s el of
           None \<Rightarrow> False
         | Some e \<Rightarrow> time_Sub now (ie_addedAt e) < decisionWait))"

definition HasInterest :: "duration \<Rightarrow> time \<Rightarrow> interestSet \<Rightarrow> TraceID \<Rightarrow> bool" where
  "HasInterest decisionWait now s traceID = hasInterestRLocked decisionWait now s traceID"

text \<open>
  \<open>hasInterestForSpanRLocked\<close>: the decision came before the span's own retention window
  closed; it does not read the clock.
\<close>

definition hasInterestForSpanRLocked :: "duration \<Rightarrow> interestSet \<Rightarrow> TraceID \<Rightarrow> time \<Rightarrow> bool" where
  "hasInterestForSpanRLocked decisionWait s traceID insertedAt =
     (case interestEntries s traceID of
        None \<Rightarrow> False
      | Some el \<Rightarrow> (case interestHeap s el of
           None \<Rightarrow> False
         | Some e \<Rightarrow> ie_addedAt e < insertedAt + decisionWait))"

text \<open>One turn of the pruning loop: \<open>None\<close> is its \<open>break\<close>.\<close>

definition prune_step :: "duration \<Rightarrow> time \<Rightarrow> interestSet \<Rightarrow> interestSet option" where
  "prune_step decisionWait now s =
     (case list_Back (interestList s) of
        None \<Rightarrow> None
      | Some back \<Rightarrow> (case interestHeap s back of
           None \<Rightarrow> None
         | Some e \<Rightarrow>
             if time_Sub now (ie_addedAt e) < wrap64 (2 * decisionWait) then None
             else Some (s\<lparr>interestList := butlast (interestList s),
                          interestHeap := (interestHeap s)(back := None),
                          interestEntries := (interestEntries s)(ie_id e := None)\<rparr>)))"

lemma prune_step_shorter:
  "prune_step dw now s = Some s' \<Longrightarrow> length (interestList s') < length (interestList s)"
  by (auto simp: prune_step_def list_Back_def split: option.splits if_splits)

function pruneInterestLocked :: "duration \<Rightarrow> time \<Rightarrow> interestSet \<Rightarrow> interestSet" where
  "pruneInterestLocked decisionWait now s =
     (case prune_step decisionWait now s of
        None \<Rightarrow> s
      | Some s' \<Rightarrow> pruneInterestLocked decisionWait now s')"
  by pat_completeness auto
termination
  by (relation "measure (\<lambda>(_, _, s). length (interestList s))")
    (auto dest: prune_step_shorter)

declare pruneInterestLocked.simps [simp del]

text \<open>
  \<open>AddInterest\<close>: prune, then renew the entry of a known trace or push a new one. (The wakeup
  of the sweeper that follows the critical section is a step of the buffer's machine.)
\<close>

definition AddInterest :: "duration \<Rightarrow> time \<Rightarrow> TraceID \<Rightarrow> interestSet \<Rightarrow> interestSet" where
  "AddInterest decisionWait now traceID s0 =
     (let s = pruneInterestLocked decisionWait now s0 in
      case interestEntries s traceID of
        Some el \<Rightarrow>
          s\<lparr>interestList := list_MoveToFront el (interestList s),
            interestHeap := (interestHeap s)(el :=
              map_option (\<lambda>e. e\<lparr>ie_addedAt := now\<rparr>) (interestHeap s el))\<rparr>
      | None \<Rightarrow>
          s\<lparr>interestList := nextElem s # interestList s,
            interestHeap := (interestHeap s)(nextElem s \<mapsto>
              \<lparr>ie_id = traceID, ie_addedAt = now\<rparr>),
            interestEntries := (interestEntries s)(traceID \<mapsto> nextElem s),
            nextElem := Suc (nextElem s)\<rparr>)"

section \<open>The invariant\<close>

text \<open>What the set means: the time each trace was last added.\<close>

definition addedAt_of :: "interestSet \<Rightarrow> TraceID \<Rightarrow> time option" where
  "addedAt_of s traceID =
     (case interestEntries s traceID of None \<Rightarrow> None
      | Some el \<Rightarrow> map_option ie_addedAt (interestHeap s el))"

definition elem_time :: "interestSet \<Rightarrow> nat \<Rightarrow> time" where
  "elem_time s el = (case interestHeap s el of None \<Rightarrow> 0 | Some e \<Rightarrow> ie_addedAt e)"

text \<open>
  Heap, map and list describe the same entries, and the list is ordered by time of addition,
  none in the future of \<open>now\<close>.
\<close>

definition interest_links :: "interestSet \<Rightarrow> bool" where
  "interest_links s \<longleftrightarrow>
     distinct (interestList s) \<and> dom (interestHeap s) = set (interestList s) \<and>
     (\<forall>el e. interestHeap s el = Some e \<longrightarrow> interestEntries s (ie_id e) = Some el) \<and>
     (\<forall>t el. interestEntries s t = Some el \<longrightarrow> (\<exists>e. interestHeap s el = Some e \<and> ie_id e = t)) \<and>
     (\<forall>el \<in> set (interestList s). el < nextElem s)"

definition interest_sorted :: "time \<Rightarrow> interestSet \<Rightarrow> bool" where
  "interest_sorted now s \<longleftrightarrow>
     sorted_wrt (\<lambda>a b. elem_time s b \<le> elem_time s a) (interestList s) \<and>
     (\<forall>el \<in> set (interestList s). elem_time s el \<le> now)"

definition interest_inv :: "time \<Rightarrow> interestSet \<Rightarrow> bool" where
  "interest_inv now s \<longleftrightarrow> interest_links s \<and> interest_sorted now s"

text \<open>The order of a list depends only on the times of its own elements.\<close>

lemma elem_time_sorted_cong:
  assumes "sorted_wrt (\<lambda>a b. elem_time s b \<le> elem_time s a) xs"
    and "\<And>x. x \<in> set xs \<Longrightarrow> elem_time s' x = elem_time s x"
  shows "sorted_wrt (\<lambda>a b. elem_time s' b \<le> elem_time s' a) xs"
  using assms(1) by (rule sorted_wrt_mono_rel [rotated]) (simp add: assms(2))

lemma interest_inv_mono: "interest_inv now s \<Longrightarrow> now \<le> now' \<Longrightarrow> interest_inv now' s"
  by (force simp: interest_inv_def interest_sorted_def)

lemma empty_interest_inv: "interest_inv now empty_interest"
  by (simp add: interest_inv_def interest_links_def interest_sorted_def empty_interest_def)

lemma interest_links_lookup:
  assumes "interest_links s" and "interestEntries s t = Some el"
  obtains e where "interestHeap s el = Some e" and "ie_id e = t" and "el \<in> set (interestList s)"
    and "addedAt_of s t = Some (ie_addedAt e)"
proof -
  from assms obtain e where e: "interestHeap s el = Some e" "ie_id e = t"
    unfolding interest_links_def by blast
  moreover from assms(1) e have "el \<in> set (interestList s)"
    unfolding interest_links_def by blast
  ultimately show thesis using assms(2) that by (simp add: addedAt_of_def)
qed

section \<open>Pruning removes exactly the expired entries\<close>

definition expired :: "duration \<Rightarrow> time \<Rightarrow> time \<Rightarrow> bool" where
  "expired decisionWait now added \<longleftrightarrow> \<not> time_Sub now added < wrap64 (2 * decisionWait)"

definition drop_expired :: "duration \<Rightarrow> time \<Rightarrow> time option \<Rightarrow> time option" where
  "drop_expired decisionWait now x =
     (case x of None \<Rightarrow> None | Some a \<Rightarrow> if expired decisionWait now a then None else Some a)"

lemma prune_step_cases:
  assumes inv: "interest_inv now s" and step: "prune_step dw now s = Some s'"
  obtains e where "interestHeap s (last (interestList s)) = Some e" and "interestList s \<noteq> []"
    and "expired dw now (ie_addedAt e)"
    and "s' = s\<lparr>interestList := butlast (interestList s),
           interestHeap := (interestHeap s)(last (interestList s) := None),
           interestEntries := (interestEntries s)(ie_id e := None)\<rparr>"
  using step by (auto simp: prune_step_def list_Back_def expired_def split: option.splits if_splits)

lemma prune_step_inv:
  assumes inv: "interest_inv now s" and step: "prune_step dw now s = Some s'"
  shows "interest_inv now s'"
proof -
  obtain e where e: "interestHeap s (last (interestList s)) = Some e" and ne: "interestList s \<noteq> []"
    and s': "s' = s\<lparr>interestList := butlast (interestList s),
           interestHeap := (interestHeap s)(last (interestList s) := None),
           interestEntries := (interestEntries s)(ie_id e := None)\<rparr>"
    using prune_step_cases [OF inv step] by metis
  define xs where "xs = butlast (interestList s)"
  define z where "z = last (interestList s)"
  have l: "interestList s = xs @ [z]" using ne by (simp add: xs_def z_def)
  have links: "interest_links s" and srt: "interest_sorted now s"
    using inv by (simp_all add: interest_inv_def)
  have z: "z \<notin> set xs" using links l by (simp add: interest_links_def)
  have "interest_links s'"
    using links l z e unfolding s' interest_links_def z_def [symmetric] xs_def [symmetric]
    by (auto split: if_splits) (metis option.inject)+
  moreover have "interest_sorted now s'"
  proof -
    have tm: "elem_time s' x = elem_time s x" if "x \<in> set xs" for x
      using that z by (auto simp: s' elem_time_def z_def)
    then have "sorted_wrt (\<lambda>a b. elem_time s' b \<le> elem_time s' a) xs"
      using srt l by (auto simp: interest_sorted_def sorted_wrt_append intro: elem_time_sorted_cong)
    moreover have "interestList s' = xs" by (simp add: s' xs_def)
    ultimately show ?thesis using srt l tm by (simp add: interest_sorted_def)
  qed
  ultimately show ?thesis by (simp add: interest_inv_def)
qed

lemma prune_step_addedAt:
  assumes inv: "interest_inv now s" and step: "prune_step dw now s = Some s'"
  shows "drop_expired dw now (addedAt_of s' t) = drop_expired dw now (addedAt_of s t)"
proof -
  obtain e where e: "interestHeap s (last (interestList s)) = Some e"
    and ex: "expired dw now (ie_addedAt e)"
    and s': "s' = s\<lparr>interestList := butlast (interestList s),
           interestHeap := (interestHeap s)(last (interestList s) := None),
           interestEntries := (interestEntries s)(ie_id e := None)\<rparr>"
    using prune_step_cases [OF inv step] by metis
  have links: "interest_links s" using inv by (simp add: interest_inv_def)
  show ?thesis
  proof (cases "t = ie_id e")
    case True
    with links e have "addedAt_of s t = Some (ie_addedAt e)"
      by (simp add: interest_links_def addedAt_of_def)
    with ex True show ?thesis by (simp add: s' drop_expired_def addedAt_of_def)
  next
    case False
    have "addedAt_of s' t = addedAt_of s t"
    proof (cases "interestEntries s t")
      case None
      with False show ?thesis by (simp add: s' addedAt_of_def)
    next
      case (Some el)
      with links obtain e' where "interestHeap s el = Some e'" "ie_id e' = t"
        by (rule interest_links_lookup)
      with e False have "el \<noteq> last (interestList s)" by auto
      with Some False show ?thesis by (simp add: s' addedAt_of_def)
    qed
    then show ?thesis by simp
  qed
qed

lemma prune_stop_unexpired:
  assumes inv: "interest_inv now s" and stop: "prune_step dw now s = None"
  shows "drop_expired dw now (addedAt_of s t) = addedAt_of s t"
proof (cases "interestEntries s t")
  case None
  then show ?thesis by (simp add: addedAt_of_def drop_expired_def)
next
  case (Some el)
  have links: "interest_links s" and srt: "interest_sorted now s"
    using inv by (simp_all add: interest_inv_def)
  from links Some obtain e where e: "interestHeap s el = Some e"
    and el: "el \<in> set (interestList s)" and a: "addedAt_of s t = Some (ie_addedAt e)"
    by (rule interest_links_lookup)
  define z where "z = last (interestList s)"
  have ne: "interestList s \<noteq> []" using el by auto
  then have l: "interestList s = butlast (interestList s) @ [z]" by (simp add: z_def)
  have "z \<in> dom (interestHeap s)" using links ne by (simp add: interest_links_def z_def)
  then obtain ez where ez: "interestHeap s z = Some ez" by blast
  have "elem_time s z \<le> elem_time s el"
    using srt el l unfolding interest_sorted_def
    by (metis (no_types, lifting) Un_iff append_Nil2 empty_set list.set_intros(1) order_refl
        set_ConsD set_append sorted_wrt_append)
  with e ez have "ie_addedAt ez \<le> ie_addedAt e" by (simp add: elem_time_def)
  then have "time_Sub now (ie_addedAt e) \<le> time_Sub now (ie_addedAt ez)" by (rule time_Sub_antimono)
  moreover have "time_Sub now (ie_addedAt ez) < wrap64 (2 * dw)"
    using stop ne ez by (simp add: prune_step_def list_Back_def z_def split: if_splits)
  ultimately show ?thesis using a by (simp add: drop_expired_def expired_def)
qed

lemma prune_inv: "interest_inv now s \<Longrightarrow> interest_inv now (pruneInterestLocked dw now s)"
proof (induction dw now s rule: pruneInterestLocked.induct)
  case (1 dw now s)
  then show ?case
    by (subst pruneInterestLocked.simps) (auto split: option.split intro: prune_step_inv)
qed

lemma prune_addedAt:
  "interest_inv now s \<Longrightarrow>
   addedAt_of (pruneInterestLocked dw now s) t = drop_expired dw now (addedAt_of s t)"
proof (induction dw now s rule: pruneInterestLocked.induct)
  case (1 dw now s)
  show ?case
  proof (cases "prune_step dw now s")
    case None
    with "1.prems" show ?thesis
      by (subst pruneInterestLocked.simps) (simp add: prune_stop_unexpired)
  next
    case (Some s')
    with "1" have "addedAt_of (pruneInterestLocked dw now s') t = drop_expired dw now (addedAt_of s' t)"
      by (simp add: prune_step_inv)
    with Some "1.prems" show ?thesis
      by (subst pruneInterestLocked.simps) (simp add: prune_step_addedAt)
  qed
qed

section \<open>Adding an entry\<close>

lemma AddInterest_known:
  assumes links: "interest_links s" and srt: "interest_sorted now s" and el: "interestEntries s t = Some el"
    and s': "s' = s\<lparr>interestList := list_MoveToFront el (interestList s),
            interestHeap := (interestHeap s)(el :=
              map_option (\<lambda>e. e\<lparr>ie_addedAt := now\<rparr>) (interestHeap s el))\<rparr>"
  shows "interest_inv now s'" and "addedAt_of s' u = (if u = t then Some now else addedAt_of s u)"
proof -
  from links el obtain e where e: "interestHeap s el = Some e" "ie_id e = t" "el \<in> set (interestList s)"
    by (rule interest_links_lookup)
  have d: "distinct (interestList s)" using links by (simp add: interest_links_def)
  have "interest_links s'"
    using links e d unfolding interest_links_def s'
    by (auto simp: list_MoveToFront_def split: if_splits) (metis option.inject)+
  moreover have "interest_sorted now s'"
  proof -
    have tm: "elem_time s' x = (if x = el then now else elem_time s x)" for x
      using e by (simp add: s' elem_time_def)
    have r: "sorted_wrt (\<lambda>a b. elem_time s b \<le> elem_time s a) (remove1 el (interestList s))"
      using srt d unfolding interest_sorted_def
      by (simp add: distinct_remove1_removeAll removeAll_filter_not_eq sorted_wrt_filter)
    have "sorted_wrt (\<lambda>a b. elem_time s' b \<le> elem_time s' a) (remove1 el (interestList s))"
      using r by (rule elem_time_sorted_cong) (use d tm in auto)
    then show ?thesis
      using srt e d tm unfolding interest_sorted_def
      by (auto simp: s' list_MoveToFront_def)
  qed
  ultimately show "interest_inv now s'" by (simp add: interest_inv_def)
  show "addedAt_of s' u = (if u = t then Some now else addedAt_of s u)"
    using links e el unfolding interest_links_def
    by (auto simp: s' addedAt_of_def split: option.split) (metis option.inject)
qed

lemma AddInterest_new:
  assumes links: "interest_links s" and srt: "interest_sorted now s" and none: "interestEntries s t = None"
    and s': "s' = s\<lparr>interestList := nextElem s # interestList s,
            interestHeap := (interestHeap s)(nextElem s \<mapsto> \<lparr>ie_id = t, ie_addedAt = now\<rparr>),
            interestEntries := (interestEntries s)(t \<mapsto> nextElem s),
            nextElem := Suc (nextElem s)\<rparr>"
  shows "interest_inv now s'" and "addedAt_of s' u = (if u = t then Some now else addedAt_of s u)"
proof -
  have fresh: "nextElem s \<notin> set (interestList s)" "interestHeap s (nextElem s) = None"
    using links unfolding interest_links_def by (auto simp: domIff)
  have ids: "ie_id e \<noteq> t" if "interestHeap s x = Some e" for x e
    using links none that unfolding interest_links_def by auto
  have "interest_links s'"
    using links none fresh ids unfolding interest_links_def s' by (auto split: if_splits) force+
  moreover have "interest_sorted now s'"
  proof -
    have tm: "elem_time s' x = (if x = nextElem s then now else elem_time s x)" for x
      by (simp add: s' elem_time_def)
    have "sorted_wrt (\<lambda>a b. elem_time s' b \<le> elem_time s' a) (interestList s)"
      using srt [unfolded interest_sorted_def, THEN conjunct1]
      by (rule elem_time_sorted_cong) (use fresh tm in auto)
    then show ?thesis
      using srt fresh tm unfolding interest_sorted_def by (auto simp: s')
  qed
  ultimately show "interest_inv now s'" by (simp add: interest_inv_def)
  show "addedAt_of s' u = (if u = t then Some now else addedAt_of s u)"
    using links fresh unfolding interest_links_def
    by (auto simp: s' addedAt_of_def split: option.split) (metis option.distinct(1))
qed

lemma AddInterest_spec:
  assumes "interest_inv now s"
  shows "interest_inv now (AddInterest dw now t s)"
    and "addedAt_of (AddInterest dw now t s) u =
           (if u = t then Some now else drop_expired dw now (addedAt_of s u))"
proof -
  define p where "p = pruneInterestLocked dw now s"
  have inv: "interest_links p" "interest_sorted now p"
    using prune_inv [OF assms] by (simp_all add: p_def interest_inv_def)
  have add: "addedAt_of p u = drop_expired dw now (addedAt_of s u)" for u
    using prune_addedAt [OF assms] by (simp add: p_def)
  show "interest_inv now (AddInterest dw now t s)"
    using AddInterest_known(1) [OF inv] AddInterest_new(1) [OF inv]
    by (auto simp: AddInterest_def Let_def p_def [symmetric] split: option.split)
  show "addedAt_of (AddInterest dw now t s) u =
           (if u = t then Some now else drop_expired dw now (addedAt_of s u))"
    using AddInterest_known(2) [OF inv] AddInterest_new(2) [OF inv] add
    by (auto simp: AddInterest_def Let_def p_def [symmetric] split: option.split)
qed

lemma HasInterest_iff:
  assumes "interest_links s"
  shows "HasInterest dw now s t \<longleftrightarrow> (\<exists>a. addedAt_of s t = Some a \<and> time_Sub now a < dw)"
  by (auto simp: HasInterest_def hasInterestRLocked_def addedAt_of_def split: option.splits)

lemma hasInterestForSpan_iff:
  "hasInterestForSpanRLocked dw s t ins \<longleftrightarrow> (\<exists>a. addedAt_of s t = Some a \<and> a < ins + dw)"
  by (auto simp: hasInterestForSpanRLocked_def addedAt_of_def split: option.splits)

section \<open>The contract the span buffer relies on\<close>

locale interest_store =
  fixes add :: "time \<Rightarrow> 'k \<Rightarrow> 's \<Rightarrow> 's"
    and added :: "'s \<Rightarrow> 'k \<Rightarrow> time option"
    and inv :: "time \<Rightarrow> 's \<Rightarrow> bool"
    and stale :: "time \<Rightarrow> time \<Rightarrow> bool"
  assumes add_inv: "inv now s \<Longrightarrow> inv now (add now k s)"
    and inv_later: "inv now s \<Longrightarrow> now \<le> now' \<Longrightarrow> inv now' s"
    and added_past: "inv now s \<Longrightarrow> added s k = Some a \<Longrightarrow> a \<le> now"
    and add_same: "inv now s \<Longrightarrow> added (add now k s) k = Some now"
    and add_other: "inv now s \<Longrightarrow> u \<noteq> k \<Longrightarrow> added s u = Some a \<Longrightarrow>
       added (add now k s) u = (if stale now a then None else Some a)"
    and stale_mono: "now \<le> now' \<Longrightarrow> a' \<le> a \<Longrightarrow> stale now a \<Longrightarrow> stale now' a'"
begin

lemma add_keeps:
  assumes "inv now s" and "added s k = Some a" and "\<not> stale now a"
  shows "\<exists>a' \<ge> a. added (add now u s) k = Some a'"
  using assms add_same [of now s u] add_other [of now s k u a] added_past [of now s k a]
  by (cases "k = u") auto

lemma adds_inv:
  "inv t s \<Longrightarrow> sorted (t # map fst ops) \<Longrightarrow>
   inv (last (t # map fst ops)) (fold (\<lambda>(now, k). add now k) ops s)"
proof (induction ops arbitrary: t s)
  case Nil
  then show ?case by simp
next
  case (Cons op ops)
  obtain now k where op: "op = (now, k)" by (cases op)
  have "inv now (add now k s)"
    using Cons.prems op by (auto intro: add_inv inv_later)
  with Cons.IH [of now "add now k s"] Cons.prems op show ?case by simp
qed

text \<open>An entry outlives any later additions that come before it is stale.\<close>

lemma adds_keep:
  "inv t s \<Longrightarrow> sorted (t # map fst ops) \<Longrightarrow> added s k = Some a \<Longrightarrow>
   \<not> stale (last (t # map fst ops)) a \<Longrightarrow>
   \<exists>a' \<ge> a. added (fold (\<lambda>(now, k). add now k) ops s) k = Some a'"
proof (induction ops arbitrary: t s a)
  case Nil
  then show ?case by auto
next
  case (Cons op ops)
  obtain now u where op: "op = (now, u)" by (cases op)
  have srt: "sorted (now # map fst ops)" and le1: "t \<le> now"
    using Cons.prems(2) op by simp_all
  note le = le1 sorted_hd_le_last [OF srt]
  have fresh: "\<not> stale (last (now # map fst ops)) a" using Cons.prems(4) op by simp
  have inv_now: "inv now s" using Cons.prems(1) le(1) by (rule inv_later)
  have "\<not> stale now a" using fresh le(2) stale_mono [of now _ a a] by blast
  with inv_now Cons.prems(3) obtain a1 where a1: "a \<le> a1" "added (add now u s) k = Some a1"
    using add_keeps by blast
  have "\<not> stale (last (now # map fst ops)) a1" using fresh a1(1) stale_mono [of _ _ a a1] by blast
  then obtain a2 where "a1 \<le> a2" "added (fold (\<lambda>(now, k). add now k) ops (add now u s)) k = Some a2"
    using Cons.IH [OF add_inv [OF inv_now] srt a1(2)] by blast
  with a1(1) op show ?case by auto
qed

end

lemma addedAt_past: "interest_inv now s \<Longrightarrow> addedAt_of s t = Some a \<Longrightarrow> a \<le> now"
  unfolding interest_inv_def interest_sorted_def
  by (auto simp: addedAt_of_def elem_time_def interest_links_def split: option.splits)

interpretation ist: interest_store "AddInterest dw" addedAt_of interest_inv "expired dw" for dw
proof unfold_locales
  fix now now' a a' :: time
  assume "now \<le> now'" "a' \<le> a" "expired dw now a"
  moreover have "time_Sub now a \<le> time_Sub now' a'"
    using \<open>now \<le> now'\<close> \<open>a' \<le> a\<close> time_Sub_mono time_Sub_antimono order_trans by metis
  ultimately show "expired dw now' a'" by (auto simp: expired_def)
qed (auto simp: AddInterest_spec drop_expired_def intro: interest_inv_mono addedAt_past)

section \<open>Properties\<close>

text \<open>\<open>pruneInterestLocked\<close>, which stops at the first entry from the back that is not
  expired, removes exactly the entries added \<open>2 * decisionWait\<close> or longer ago, keeps every other
  entry with its time, and keeps map, list and heap consistent.\<close>

theorem pruneInterestLocked_exact:
  assumes "interest_inv now s"
  shows "interest_inv now (pruneInterestLocked dw now s) \<and>
    (\<forall>t a. addedAt_of (pruneInterestLocked dw now s) t = Some a \<longleftrightarrow>
       addedAt_of s t = Some a \<and> time_Sub now a < wrap64 (2 * dw))"
  using prune_inv [OF assms] prune_addedAt [OF assms]
  by (auto simp: drop_expired_def expired_def split: option.splits if_splits)

theorem pruneInterestLocked_exact_witness:
  "addedAt_of (pruneInterestLocked 5 20 (AddInterest 5 12 [2] (AddInterest 5 10 [1] empty_interest))) [2]
     = Some 12"
proof -
  have "interest_inv 12 (AddInterest 5 12 [2] (AddInterest 5 10 [1] empty_interest))"
    by (intro AddInterest_spec interest_inv_mono [OF AddInterest_spec(1) [OF empty_interest_inv, of 10]])
      simp
  then have inv: "interest_inv 20 (AddInterest 5 12 [2] (AddInterest 5 10 [1] empty_interest))"
    by (rule interest_inv_mono) simp
  show ?thesis
    using pruneInterestLocked_exact [OF inv, of 5]
    by (auto simp: AddInterest_spec empty_interest_inv interest_inv_mono [OF AddInterest_spec(1)]
        time_Sub_def minDuration_def maxDuration_def wrap64_def)
qed

text \<open>A keep decision outlives later decisions: once \<open>AddInterest\<close> has recorded a trace,
  whatever other additions follow (each of which prunes the set), the trace still has an entry, at
  its own time or a later one, as long as less than \<open>2 * decisionWait\<close> has passed.\<close>

theorem AddInterest_retained:
  assumes "interest_inv t0 s" and "sorted (t0 # map fst ops)"
    and "time_Sub (last (t0 # map fst ops)) t0 < wrap64 (2 * dw)"
  shows "\<exists>a \<ge> t0. addedAt_of (fold (\<lambda>(now, k). AddInterest dw now k) ops (AddInterest dw t0 t s)) t = Some a"
  using ist.adds_keep [OF ist.add_inv [OF assms(1)] assms(2) ist.add_same [OF assms(1)]] assms(3)
  by (simp add: expired_def)

theorem AddInterest_retained_witness:
  "\<exists>a \<ge> 100. addedAt_of (fold (\<lambda>(now, k). AddInterest 50 now k) [(150, [9]), (199, [8])]
     (AddInterest 50 100 [7] empty_interest)) [7] = Some a"
  using AddInterest_retained [OF empty_interest_inv, of 100 "[(150, [9]), (199, [8])]" 50 "[7]"]
  by (simp add: time_Sub_def minDuration_def maxDuration_def wrap64_def)

text \<open>\<open>HasInterest\<close> holds right after \<open>AddInterest\<close> and stops exactly when \<open>decisionWait\<close>
  has passed since the last addition of the trace.\<close>

theorem HasInterest_window:
  assumes "interest_inv now s"
  shows "HasInterest dw later (AddInterest dw now t s) t \<longleftrightarrow> time_Sub later now < dw"
  using AddInterest_spec [OF assms, of dw t]
  by (subst HasInterest_iff) (auto simp: interest_inv_def)

theorem HasInterest_window_witness:
  "HasInterest 30 129 (AddInterest 30 100 [7] empty_interest) [7] \<and>
   \<not> HasInterest 30 130 (AddInterest 30 100 [7] empty_interest) [7]"
  using HasInterest_window [OF empty_interest_inv, of 30 129 100 "[7]"]
    HasInterest_window [OF empty_interest_inv, of 30 130 100 "[7]"]
  by (simp add: time_Sub_def minDuration_def maxDuration_def)

text \<open>C40: A renewed decision hides the first one. \<open>hasInterestForSpanRLocked\<close> compares a span's
  window with the time of the \<^emph>\<open>last\<close> addition only, so a decision that had come in time for a
  span inserted at \<open>ins\<close> no longer counts once the same trace is added again at or after
  \<open>ins + decisionWait\<close>.\<close>

theorem AddInterest_renewal_hides:
  assumes "interest_inv t1 s" and "t1 < ins + dw" and "ins + dw \<le> t2"
  shows "hasInterestForSpanRLocked dw (AddInterest dw t1 t s) t ins \<and>
    \<not> hasInterestForSpanRLocked dw (AddInterest dw t2 t (AddInterest dw t1 t s)) t ins"
proof -
  have "interest_inv t2 (AddInterest dw t1 t s)"
    using AddInterest_spec(1) [OF assms(1)] by (rule interest_inv_mono) (use assms in simp)
  with assms show ?thesis
    by (simp add: hasInterestForSpan_iff AddInterest_spec)
qed

theorem AddInterest_renewal_hides_witness:
  "hasInterestForSpanRLocked 30 (AddInterest 30 110 [7] empty_interest) [7] 100 \<and>
   \<not> hasInterestForSpanRLocked 30 (AddInterest 30 131 [7] (AddInterest 30 110 [7] empty_interest)) [7] 100"
  using AddInterest_renewal_hides [OF empty_interest_inv, of 110 100 30 131 "[7]"] by simp

end
