(* ===== verification/Span_Record.thy ===== *)
theory Span_Record
  imports Prelude
begin

text \<open>
  The record format of the span buffer (\<open>internal/buffer/buffer.go\<close>): a header of 16 bytes of
  trace ID, 8 bytes of insertion time and 4 bytes of data length, followed by the data. The
  writer lays records out with \<open>put_header\<close>; the sweeper reads the fields back at an offset with
  \<open>rec_tid\<close>, \<open>rec_insertedAt\<close> and \<open>rec_dataLen\<close> and marks a processed record by overwriting its
  trace ID with \<open>tombstoneID\<close>. \<open>put_header_bytes\<close> and \<open>rec_fields\<close> are the contract between
  the two goroutines.
\<close>

definition hdrSize :: nat where "hdrSize = 28"

record writeReq =
  wr_traceID :: TraceID
  wr_data :: bytes
  wr_insertedAt :: time

definition emptyID :: TraceID where "emptyID = replicate 16 0"

definition tombstoneID :: TraceID where "tombstoneID = 255 # replicate 15 0"

text \<open>The number of pages a record of \<open>len\<close> data bytes takes.\<close>

definition numChunks :: "nat \<Rightarrow> nat \<Rightarrow> nat" where
  "numChunks pageSize len = (hdrSize + len + pageSize - 1) div pageSize"

section \<open>Writing and reading the header\<close>

text \<open>
  The header at offset \<open>pos\<close> of a page: the ID is copied, the time stored as \<open>uint64\<close> and the
  length as \<open>uint32\<close>, both big-endian and reduced to their width.
\<close>

definition put_header :: "bytes \<Rightarrow> nat \<Rightarrow> writeReq \<Rightarrow> bytes" where
  "put_header stage pos req =
     (let s1 = copy_at stage pos (wr_traceID req);
          s2 = copy_at s1 (pos + 16) (be_put 8 (nat (wr_insertedAt req mod 2 ^ 64)))
      in copy_at s2 (pos + 24) (be_put 4 (length (wr_data req))))"

definition rec_tid :: "bytes \<Rightarrow> nat \<Rightarrow> TraceID" where
  "rec_tid scratch pos = slice scratch pos (pos + 16)"

definition rec_insertedAt :: "bytes \<Rightarrow> nat \<Rightarrow> time" where
  "rec_insertedAt scratch pos = int64_of_uint64 (be_get (slice scratch (pos + 16) (pos + 24)))"

definition rec_dataLen :: "bytes \<Rightarrow> nat \<Rightarrow> nat" where
  "rec_dataLen scratch pos = be_get (slice scratch (pos + 24) (pos + 28))"

section \<open>Records as byte strings\<close>

text \<open>
  The bytes of a record, with its trace ID while it is live and the tombstone afterwards.
  A request is storable when its ID is an array of 16 bytes other than the two reserved ones,
  its time is an \<open>int64\<close> and its length a \<open>uint32\<close>.
\<close>

definition enc_header :: "bool \<Rightarrow> writeReq \<Rightarrow> bytes" where
  "enc_header live r = (if live then wr_traceID r else tombstoneID) @
     be_put 8 (nat (wr_insertedAt r mod 2 ^ 64)) @ be_put 4 (length (wr_data r))"

definition enc_entry :: "bool \<Rightarrow> writeReq \<Rightarrow> bytes" where
  "enc_entry live r = enc_header live r @ wr_data r"

definition storable :: "writeReq \<Rightarrow> bool" where
  "storable r \<longleftrightarrow> length (wr_traceID r) = 16 \<and> wr_traceID r \<noteq> emptyID \<and> wr_traceID r \<noteq> tombstoneID \<and>
     - (2 ^ 63) \<le> wr_insertedAt r \<and> wr_insertedAt r < 2 ^ 63 \<and> length (wr_data r) < 2 ^ 32"

lemma tombstone_not_empty [simp]: "tombstoneID \<noteq> emptyID" "emptyID \<noteq> tombstoneID"
proof -
  have "hd tombstoneID \<noteq> hd emptyID" by (simp add: tombstoneID_def emptyID_def)
  then show "tombstoneID \<noteq> emptyID" and "emptyID \<noteq> tombstoneID" by auto
qed

lemma length_reserved_ids [simp]: "length emptyID = 16" "length tombstoneID = 16"
  by (simp_all add: emptyID_def tombstoneID_def)

lemma length_enc_header [simp]: "length (wr_traceID r) = 16 \<Longrightarrow> length (enc_header b r) = 28"
  by (simp add: enc_header_def)

lemma length_enc_entry [simp]:
  "length (wr_traceID r) = 16 \<Longrightarrow> length (enc_entry b r) = hdrSize + length (wr_data r)"
  by (simp add: enc_entry_def hdrSize_def)

lemma put_header_bytes:
  assumes tid: "length (wr_traceID req) = 16" and room: "pos + hdrSize \<le> length stage"
  shows "put_header stage pos req =
    take pos stage @ enc_header True req @ drop (pos + 28) stage"
proof -
  obtain a b c d e where stage: "stage = a @ b @ c @ d @ e" and lens:
    "length a = pos" "length b = 16" "length c = 8" "length d = 4"
  proof
    show "stage = take pos stage @ take 16 (drop pos stage) @ take 8 (drop (pos + 16) stage) @
        take 4 (drop (pos + 24) stage) @ drop (pos + 28) stage"
      by (simp add: take_drop_join)
  qed (use room in \<open>simp_all add: hdrSize_def\<close>)
  have s1: "copy_at stage pos (wr_traceID req) = a @ wr_traceID req @ c @ d @ e"
    unfolding stage by (rule copy_at_append) (use lens tid in simp_all)
  have s2: "copy_at (a @ wr_traceID req @ c @ d @ e) (pos + 16) x = a @ wr_traceID req @ x @ d @ e"
    if "length x = 8" for x
    using copy_at_append [of "pos + 16" "a @ wr_traceID req" x c "d @ e"] lens tid that by simp
  have s3: "copy_at (a @ wr_traceID req @ x @ d @ e) (pos + 24) y = a @ wr_traceID req @ x @ y @ e"
    if "length x = 8" "length y = 4" for x y
    using copy_at_append [of "pos + 24" "a @ wr_traceID req @ x" y d e] lens tid that by simp
  show ?thesis
    unfolding put_header_def Let_def s1
    using lens tid by (simp add: s2 s3 enc_header_def stage)
qed


text \<open>Reading back what stands at an offset of a page.\<close>

lemma rec_fields:
  assumes "length pre = pos" and "storable r"
  shows "rec_tid (pre @ enc_header b r @ post) pos = (if b then wr_traceID r else tombstoneID)"
    and "rec_insertedAt (pre @ enc_header b r @ post) pos = wr_insertedAt r"
    and "rec_dataLen (pre @ enc_header b r @ post) pos = length (wr_data r)"
    and "copy_at (pre @ enc_header b r @ post) pos tombstoneID = pre @ enc_header False r @ post"
proof -
  define tid where "tid = (if b then wr_traceID r else tombstoneID)"
  define ts where "ts = be_put 8 (nat (wr_insertedAt r mod 2 ^ 64))"
  define ln where "ln = be_put 4 (length (wr_data r))"
  have page: "pre @ enc_header b r @ post = pre @ tid @ ts @ ln @ post"
    by (simp add: enc_header_def tid_def ts_def ln_def)
  have lens: "length tid = 16" "length ts = 8" "length ln = 4"
    using assms by (simp_all add: tid_def ts_def ln_def storable_def)
  have rng: "- (2 ^ 63) \<le> wr_insertedAt r" "wr_insertedAt r < 2 ^ 63" "length (wr_data r) < 2 ^ 32"
    using assms by (simp_all add: storable_def)
  show "rec_tid (pre @ enc_header b r @ post) pos = (if b then wr_traceID r else tombstoneID)"
    unfolding page rec_tid_def tid_def [symmetric] using assms(1) lens by (simp add: slice_full)
  have "slice (pre @ tid @ ts @ ln @ post) (pos + 16) (pos + 24) = ts"
    using assms(1) lens by (simp add: slice_full)
  then show "rec_insertedAt (pre @ enc_header b r @ post) pos = wr_insertedAt r"
    unfolding page rec_insertedAt_def
    using int64_uint64_roundtrip [OF rng(1,2)] by (simp add: ts_def be_get_put)
  have "slice (pre @ tid @ ts @ ln @ post) (pos + 24) (pos + 28) = ln"
    using assms(1) lens by (simp add: slice_full)
  then show "rec_dataLen (pre @ enc_header b r @ post) pos = length (wr_data r)"
    unfolding page rec_dataLen_def using rng(3) by (simp add: ln_def be_get_put)
  have "copy_at (pre @ tid @ ts @ ln @ post) pos tombstoneID = pre @ tombstoneID @ ts @ ln @ post"
    using copy_at_append [of pos pre tombstoneID tid "ts @ ln @ post"] assms(1) lens by simp
  then show "copy_at (pre @ enc_header b r @ post) pos tombstoneID = pre @ enc_header False r @ post"
    unfolding page by (simp add: enc_header_def ts_def ln_def)
qed

end
