(* ===== verification/Span_Buffer.thy ===== *)
theory Span_Buffer
  imports Interest Span_Record
begin

text \<open>
  The model of \<open>internal/buffer/buffer.go\<close>: the constructor \<open>New\<close>, the public operations
  \<open>Write\<close>, \<open>AddInterest\<close> and \<open>Close\<close>, and the two goroutines \<open>runWriter\<close> (with its closures
  \<open>flush\<close> and \<open>handle\<close>) and \<open>runSweeper\<close> (with \<open>processPage\<close>).

  The goroutines share the file, the atomic \<open>used\<close>, the channels and the interest set; everything
  else in \<open>bufferState\<close> is local to one of them. \<open>buf_step\<close> interleaves them at every
  access to shared state: a program counter says where each goroutine stands, a blocked
  \<open>select\<close> is a state in which only the rules of its ready cases apply, and closing over the
  continuation of \<open>flush\<close> (\<open>afterFlush\<close>) keeps the four places it is called from apart. A Go
  panic is the program counter \<open>WPanic\<close>. An I/O fault is a choice of the environment, made in
  the label of the step: a faulty write stores only a prefix of the page.
\<close>

section \<open>Configuration and construction\<close>

record bufferCfg =
  pageSize :: nat
  maxBytes :: int
  decisionWait :: duration

datatype newError =
    ErrDecisionWait duration
  | ErrMaxBytes int
  | ErrOpen
  | ErrLocked
  | ErrLockFile
  | ErrTruncate

text \<open>What the operating system answers to \<open>os.OpenFile\<close>, \<open>syscall.Flock\<close> and \<open>Truncate\<close>.\<close>

datatype flockResult = FlockOk | FlockWouldBlock | FlockFailed

record osAnswers =
  open_ok :: bool
  flock_res :: flockResult
  truncate_ok :: bool

text \<open>
  \<open>bufEvent\<close>: a call of one of the two callbacks. \<open>afterFlush\<close>: where a call of \<open>flush\<close> returns
  to. \<open>wpc\<close> and \<open>spc\<close>: where the writer and the sweeper stand.
\<close>

datatype bufEvent = OnMatch TraceID bytes | EvictObs duration

datatype afterFlush = FSmall writeReq | FLarge writeReq | FTick | FExit

datatype wpc =
    WSelect
  | WFlush afterFlush
  | WFlushed afterFlush
  | WLargeWait writeReq
  | WLargeFirst writeReq
  | WLargeCont writeReq nat
  | WCommit writeReq
  | WDone
  | WPanic

record pageScan =
  ps_scratch :: bytes
  ps_fullyConsumed :: bool
  ps_chunksConsumed :: nat
  ps_minRemaining :: duration
  ps_needsWriteback :: bool

datatype spc =
    SCheck
  | SEmptyWait
  | SRead
  | SProcess bytes
  | SScan int bool nat pageScan
  | SWriteback pageScan
  | SFree nat
  | SPageWait
  | SDone

record bufferState =
  bfile :: "int \<Rightarrow> byte"
  used :: int
  writeCh :: "writeReq list"
  wakeup :: bool
  pageFreed :: bool
  writerDone :: bool
  closeCh :: bool
  interest :: interestSet
  timers :: "time list"
  clock :: time
  stage :: bytes
  stageN :: nat
  wHead :: int
  draining :: bool
  wpc :: wpc
  rHead :: int
  closing :: bool
  spc :: spc
  events :: "bufEvent list"

definition initState :: "bufferCfg \<Rightarrow> (int \<Rightarrow> byte) \<Rightarrow> time \<Rightarrow> bufferState" where
  "initState cfg f0 now =
     \<lparr>bfile = f0, used = 0, writeCh = [], wakeup = False, pageFreed = False, writerDone = False,
      closeCh = False, interest = empty_interest, timers = [], clock = now,
      stage = replicate (pageSize cfg) 0, stageN = 0, wHead = 0, draining = False, wpc = WSelect,
      rHead = 0, closing = False, spc = SCheck, events = []\<rparr>"

text \<open>
  \<open>New\<close>: the checks in their order; the file keeps whatever it held (\<open>f0\<close>), since it is opened
  without truncation to zero.
\<close>

definition New :: "nat \<Rightarrow> osAnswers \<Rightarrow> (int \<Rightarrow> byte) \<Rightarrow> time \<Rightarrow> int \<Rightarrow> duration \<Rightarrow>
    newError + bufferCfg \<times> bufferState" where
  "New pgSize os f0 now maxB wait =
     (if wait \<le> 0 then Inl (ErrDecisionWait wait)
      else
        let m = (maxB sdiv int pgSize) * int pgSize in
        if m < 2 * int pgSize then Inl (ErrMaxBytes m)
        else if \<not> open_ok os then Inl ErrOpen
        else (case flock_res os of
            FlockWouldBlock \<Rightarrow> Inl ErrLocked
          | FlockFailed \<Rightarrow> Inl ErrLockFile
          | FlockOk \<Rightarrow>
              if \<not> truncate_ok os then Inl ErrTruncate
              else let cfg = \<lparr>pageSize = pgSize, maxBytes = m, decisionWait = wait\<rparr>
                   in Inr (cfg, initState cfg f0 now)))"

definition pageCount :: "bufferCfg \<Rightarrow> nat" where
  "pageCount cfg = nat (maxBytes cfg sdiv int (pageSize cfg))"

section \<open>Public operations\<close>

definition chunkBytes :: "bufferCfg \<Rightarrow> writeReq \<Rightarrow> int" where
  "chunkBytes cfg r = int (numChunks (pageSize cfg) (length (wr_data r))) * int (pageSize cfg)"

text \<open>\<open>Write\<close>: \<open>None\<close> is \<open>ErrFull\<close>.\<close>

definition Write :: "bufferCfg \<Rightarrow> writeReq \<Rightarrow> bufferState \<Rightarrow> bufferState option" where
  "Write cfg r s =
     (if hdrSize + length (wr_data r) > pageSize cfg \<and> chunkBytes cfg r > maxBytes cfg then None
      else map_option (\<lambda>ch. s\<lparr>writeCh := ch\<rparr>) (try_send (pageCount cfg) r (writeCh s)))"

text \<open>\<open>AddInterest\<close> with the wakeup that follows the critical section.\<close>

definition buf_AddInterest :: "bufferCfg \<Rightarrow> TraceID \<Rightarrow> bufferState \<Rightarrow> bufferState" where
  "buf_AddInterest cfg t s =
     s\<lparr>interest := AddInterest (decisionWait cfg) (clock s) t (interest s), wakeup := True\<rparr>"

definition buf_HasInterest :: "bufferCfg \<Rightarrow> TraceID \<Rightarrow> bufferState \<Rightarrow> bool" where
  "buf_HasInterest cfg t s = HasInterest (decisionWait cfg) (clock s) (interest s) t"

text \<open>\<open>Close\<close> up to its wait: closing a closed channel panics (\<open>None\<close>).\<close>

definition Close :: "bufferState \<Rightarrow> bufferState option" where
  "Close s = (if closeCh s then None else Some (s\<lparr>closeCh := True\<rparr>))"

lemma Close_Some [simp]: "Close s = Some t \<longleftrightarrow> \<not> closeCh s \<and> t = s\<lparr>closeCh := True\<rparr>"
  by (auto simp: Close_def)

section \<open>The file\<close>

text \<open>
  \<open>WriteAt\<close> stores the bytes at an offset, or only the first \<open>k\<close> of them when it fails
  (\<open>Some k\<close>). \<open>ReadAt\<close> reads \<open>n\<close> bytes.
\<close>

definition file_write :: "(int \<Rightarrow> byte) \<Rightarrow> int \<Rightarrow> bytes \<Rightarrow> (int \<Rightarrow> byte)" where
  "file_write f off bs =
     (\<lambda>x. if off \<le> x \<and> x < off + int (length bs) then bs ! nat (x - off) else f x)"

definition WriteAt :: "nat option \<Rightarrow> (int \<Rightarrow> byte) \<Rightarrow> int \<Rightarrow> bytes \<Rightarrow> (int \<Rightarrow> byte)" where
  "WriteAt fault f off bs = file_write f off (case fault of None \<Rightarrow> bs | Some k \<Rightarrow> take k bs)"

definition ReadAt :: "(int \<Rightarrow> byte) \<Rightarrow> int \<Rightarrow> nat \<Rightarrow> bytes" where
  "ReadAt f off n = map (\<lambda>i. f (off + int i)) [0..<n]"

section \<open>The writer goroutine\<close>

text \<open>
  A small record goes into the stage at \<open>stageN\<close>. Slicing \<open>stage[stageN+hdrSize:]\<close> panics when
  the header does not fit, and the data is cut at the end of the page.
\<close>

definition stage_record :: "bufferCfg \<Rightarrow> writeReq \<Rightarrow> bufferState \<Rightarrow> bufferState" where
  "stage_record cfg r s =
     (if stageN s + hdrSize > pageSize cfg then s\<lparr>wpc := WPanic\<rparr>
      else s\<lparr>stage := copy_at (put_header (stage s) (stageN s) r) (stageN s + hdrSize) (wr_data r),
             stageN := stageN s + (hdrSize + length (wr_data r)), wpc := WSelect\<rparr>)"

text \<open>\<open>flush\<close> up to its wait loop: \<open>clear(stage[stageN:])\<close> panics past the end of the page.\<close>

definition enter_flush :: "bufferCfg \<Rightarrow> afterFlush \<Rightarrow> bufferState \<Rightarrow> bufferState" where
  "enter_flush cfg k s =
     (if stageN s > pageSize cfg then s\<lparr>wpc := WPanic\<rparr>
      else s\<lparr>stage := clear_from (stage s) (stageN s), wpc := WFlush k\<rparr>)"

text \<open>Returning from \<open>runWriter\<close> closes \<open>writerDone\<close>.\<close>

definition writer_exit :: "bufferState \<Rightarrow> bufferState" where
  "writer_exit s = s\<lparr>wpc := WDone, writerDone := True\<rparr>"

text \<open>The large-record path of \<open>handle\<close> after its flush.\<close>

definition large_start :: "bufferCfg \<Rightarrow> writeReq \<Rightarrow> bufferState \<Rightarrow> bufferState" where
  "large_start cfg r s =
     (if chunkBytes cfg r > maxBytes cfg then s\<lparr>wpc := WSelect\<rparr> else s\<lparr>wpc := WLargeWait r\<rparr>)"

definition handle :: "bufferCfg \<Rightarrow> writeReq \<Rightarrow> bufferState \<Rightarrow> bufferState" where
  "handle cfg r s =
     (if hdrSize + length (wr_data r) \<le> pageSize cfg
      then if stageN s + (hdrSize + length (wr_data r)) > pageSize cfg
           then enter_flush cfg (FSmall r) s else stage_record cfg r s
      else if stageN s > 0 then enter_flush cfg (FLarge r) s else large_start cfg r s)"

text \<open>\<open>flush\<close> returned with \<open>closed = false\<close>: its error, if any, is ignored by every caller.\<close>

definition flush_returned :: "bufferCfg \<Rightarrow> afterFlush \<Rightarrow> bufferState \<Rightarrow> bufferState" where
  "flush_returned cfg k s = (case k of
       FSmall r \<Rightarrow> stage_record cfg r s
     | FLarge r \<Rightarrow> large_start cfg r s
     | FTick \<Rightarrow> s\<lparr>wpc := WSelect\<rparr>
     | FExit \<Rightarrow> writer_exit s)"

text \<open>\<open>flush\<close> returned with \<open>closed = true\<close>: the callers give up the request.\<close>

definition flush_closed :: "afterFlush \<Rightarrow> bufferState \<Rightarrow> bufferState" where
  "flush_closed k s = (case k of
       FExit \<Rightarrow> writer_exit (s\<lparr>stageN := 0\<rparr>)
     | _ \<Rightarrow> s\<lparr>stageN := 0, wpc := WSelect\<rparr>)"

definition next_page :: "bufferCfg \<Rightarrow> int \<Rightarrow> int" where
  "next_page cfg off = (off + int (pageSize cfg)) mod maxBytes cfg"

text \<open>
  \<open>flush\<close> once there is room: the \<open>WriteAt\<close> (a failure returns at once, with \<open>stageN\<close> as it was),
  then the bookkeeping.
\<close>

definition flush_write :: "bufferCfg \<Rightarrow> nat option \<Rightarrow> afterFlush \<Rightarrow> bufferState \<Rightarrow> bufferState" where
  "flush_write cfg fault k s =
     (let s' = s\<lparr>bfile := WriteAt fault (bfile s) (wHead s) (stage s)\<rparr> in
      if fault \<noteq> None then flush_returned cfg k s'
      else s'\<lparr>wHead := next_page cfg (wHead s), wpc := WFlushed k\<rparr>)"

definition flush_count :: "bufferCfg \<Rightarrow> afterFlush \<Rightarrow> bufferState \<Rightarrow> bufferState" where
  "flush_count cfg k s =
     flush_returned cfg k (s\<lparr>used := used s + int (pageSize cfg), stageN := 0, wakeup := True\<rparr>)"

text \<open>First chunk of a large record: header and as much data as fits.\<close>

definition first_chunk :: "bufferCfg \<Rightarrow> writeReq \<Rightarrow> bytes \<Rightarrow> bytes" where
  "first_chunk cfg r st =
     clear_from (copy_at (put_header st 0 r) hdrSize (wr_data r))
       (hdrSize + min (pageSize cfg - hdrSize) (length (wr_data r)))"

definition write_first :: "bufferCfg \<Rightarrow> nat option \<Rightarrow> writeReq \<Rightarrow> bufferState \<Rightarrow> bufferState" where
  "write_first cfg fault r s =
     (let st = first_chunk cfg r (stage s);
          s' = s\<lparr>stage := st, bfile := WriteAt fault (bfile s) (wHead s) st\<rparr> in
      if fault \<noteq> None then s'\<lparr>wpc := WSelect\<rparr>
      else s'\<lparr>wHead := next_page cfg (wHead s),
              wpc := WLargeCont r (min (pageSize cfg - hdrSize) (length (wr_data r)))\<rparr>)"

text \<open>One turn of the continuation loop, at offset \<open>off\<close> of the data.\<close>

definition cont_chunk :: "writeReq \<Rightarrow> nat \<Rightarrow> bytes \<Rightarrow> bytes" where
  "cont_chunk r off st =
     clear_from (copy_at st 0 (drop off (wr_data r))) (min (length st) (length (wr_data r) - off))"

definition write_cont :: "bufferCfg \<Rightarrow> nat option \<Rightarrow> writeReq \<Rightarrow> nat \<Rightarrow> bufferState \<Rightarrow> bufferState" where
  "write_cont cfg fault r off s =
     (if off < length (wr_data r) then
        let st = cont_chunk r off (stage s);
            s' = s\<lparr>stage := st, bfile := WriteAt fault (bfile s) (wHead s) st\<rparr> in
        if fault \<noteq> None then s'\<lparr>wpc := WSelect\<rparr>
        else s'\<lparr>wHead := next_page cfg (wHead s),
                wpc := WLargeCont r (off + min (length (stage s)) (length (wr_data r) - off))\<rparr>
      else s\<lparr>wpc := WCommit r\<rparr>)"

definition commit_large :: "bufferCfg \<Rightarrow> writeReq \<Rightarrow> bufferState \<Rightarrow> bufferState" where
  "commit_large cfg r s = s\<lparr>used := used s + chunkBytes cfg r, wakeup := True, wpc := WSelect\<rparr>"

section \<open>processPage\<close>

definition pressure :: "bufferCfg \<Rightarrow> int \<Rightarrow> bool \<Rightarrow> bool" where
  "pressure cfg u clos \<longleftrightarrow> u > wrap64 (maxBytes cfg * 3) sdiv 4 \<or> clos"

definition startScan :: "bytes \<Rightarrow> pageScan" where
  "startScan scratch = \<lparr>ps_scratch = scratch, ps_fullyConsumed = True, ps_chunksConsumed = 1,
     ps_minRemaining = 0, ps_needsWriteback = False\<rparr>"

text \<open>
  Collecting the payload of a multi-chunk record: the rest of the first page, then one \<open>ReadAt\<close>
  per further chunk. A fault at chunk \<open>i\<close> (\<open>rf i = Some k\<close>) leaves only \<open>k\<close> bytes read; the code
  ignores it.
\<close>

function read_chunks :: "bufferCfg \<Rightarrow> (int \<Rightarrow> byte) \<Rightarrow> (nat \<Rightarrow> nat option) \<Rightarrow> int \<Rightarrow> nat \<Rightarrow> nat \<Rightarrow>
    nat \<Rightarrow> nat \<Rightarrow> bytes \<Rightarrow> bytes" where
  "read_chunks cfg f rf rh dataLen chunks i payloadOff payload =
     (if i < chunks then
        let chunkOff = (rh + int i * int (pageSize cfg)) mod maxBytes cfg;
            remaining = min (dataLen - payloadOff) (pageSize cfg);
            got = ReadAt f chunkOff (case rf i of None \<Rightarrow> remaining | Some k \<Rightarrow> min k remaining)
        in read_chunks cfg f rf rh dataLen chunks (Suc i) (payloadOff + remaining)
             (copy_at payload payloadOff got)
      else payload)"
  by pat_completeness auto
termination
  by (relation "measure (\<lambda>(_, _, _, _, _, chunks, i, _). chunks - i)") auto

declare read_chunks.simps [simp del]

definition multi_payload :: "bufferCfg \<Rightarrow> (int \<Rightarrow> byte) \<Rightarrow> (nat \<Rightarrow> nat option) \<Rightarrow> int \<Rightarrow> bytes \<Rightarrow> nat \<Rightarrow> bytes" where
  "multi_payload cfg f rf rh scratch dataLen =
     read_chunks cfg f rf rh dataLen (numChunks (pageSize cfg) dataLen) 1 (pageSize cfg - hdrSize)
       (copy_at (replicate dataLen 0) 0 (slice scratch hdrSize (pageSize cfg)))"

definition keep_waiting :: "duration \<Rightarrow> pageScan \<Rightarrow> pageScan" where
  "keep_waiting remaining ps =
     ps\<lparr>ps_minRemaining := (if ps_minRemaining ps = 0 \<or> remaining < ps_minRemaining ps
          then remaining else ps_minRemaining ps), ps_fullyConsumed := False\<rparr>"

definition bury :: "nat \<Rightarrow> pageScan \<Rightarrow> pageScan" where
  "bury pos ps = ps\<lparr>ps_scratch := copy_at (ps_scratch ps) pos tombstoneID, ps_needsWriteback := True\<rparr>"

text \<open>
  One turn of the loop over the records of a page: \<open>None\<close> leaves the loop, \<open>Some pos\<close> goes on
  at \<open>pos\<close>; the callbacks made are returned.
\<close>

definition scan_record :: "bufferCfg \<Rightarrow> int \<Rightarrow> bool \<Rightarrow> (int \<Rightarrow> byte) \<Rightarrow> (nat \<Rightarrow> nat option) \<Rightarrow> int \<Rightarrow>
    interestSet \<Rightarrow> time \<Rightarrow> nat \<Rightarrow> pageScan \<Rightarrow> nat option \<times> pageScan \<times> bufEvent list" where
  "scan_record cfg u press f rf rh intr now pos ps =
     (let scratch = ps_scratch ps; tid = rec_tid scratch pos in
      if tid = emptyID then (None, ps, [])
      else
        let dataLen = rec_dataLen scratch pos; recSize = hdrSize + dataLen;
            insertedAt = rec_insertedAt scratch pos;
            interesting = hasInterestForSpanRLocked (decisionWait cfg) intr tid insertedAt;
            age = time_Sub now insertedAt;
            remaining = wrap64 (decisionWait cfg - age) in
        if pos = 0 \<and> recSize > pageSize cfg then
          let chunks = numChunks (pageSize cfg) dataLen in
          if tid = tombstoneID then (None, ps\<lparr>ps_chunksConsumed := chunks\<rparr>, [])
          else if int chunks * int (pageSize cfg) > u then (None, ps\<lparr>ps_fullyConsumed := False\<rparr>, [])
          else if interesting \<or> age \<ge> decisionWait cfg \<or> press then
            (None, (bury 0 ps)\<lparr>ps_chunksConsumed := chunks\<rparr>,
             [if interesting then OnMatch tid (multi_payload cfg f rf rh scratch dataLen) else EvictObs age])
          else (None, keep_waiting remaining ps, [])
        else if pos + recSize > pageSize cfg then (None, ps, [])
        else if tid = tombstoneID then (Some (pos + recSize), ps, [])
        else if interesting then
          (Some (pos + recSize), bury pos ps,
           [OnMatch tid (slice scratch (pos + hdrSize) (pos + recSize))])
        else if age \<ge> decisionWait cfg \<or> press then (Some (pos + recSize), bury pos ps, [EvictObs age])
        else (Some (pos + recSize), keep_waiting remaining ps, []))"

lemma scan_record_advances:
  "scan_record cfg u press f rf rh intr now pos ps = (Some pos', ps', evs) \<Longrightarrow> pos + hdrSize \<le> pos'"
  by (auto simp: scan_record_def Let_def split: if_splits)

text \<open>
  \<open>processPage\<close> as one call: \<open>obs k\<close> is the interest set and the clock that the \<open>k\<close>-th record
  sees, \<open>wfault\<close> the fault of the final write-back.
\<close>

function page_loop :: "bufferCfg \<Rightarrow> int \<Rightarrow> bool \<Rightarrow> (int \<Rightarrow> byte) \<Rightarrow> (nat \<Rightarrow> nat option) \<Rightarrow> int \<Rightarrow>
    (nat \<Rightarrow> interestSet \<times> time) \<Rightarrow> nat \<Rightarrow> nat \<Rightarrow> pageScan \<Rightarrow> pageScan \<times> bufEvent list" where
  "page_loop cfg u press f rf rh obs k pos ps =
     (if pos + hdrSize \<le> pageSize cfg then
        (case scan_record cfg u press f rf rh (fst (obs k)) (snd (obs k)) pos ps of
           (None, ps', evs) \<Rightarrow> (ps', evs)
         | (Some pos', ps', evs) \<Rightarrow>
             (case page_loop cfg u press f rf rh obs (Suc k) pos' ps' of (ps'', evs') \<Rightarrow> (ps'', evs @ evs')))
      else (ps, []))"
  by pat_completeness auto
termination
  by (relation "measure (\<lambda>(cfg, _, _, _, _, _, _, _, pos, _). Suc (pageSize cfg) - pos)")
    (auto simp: hdrSize_def dest!: scan_record_advances [OF sym])

declare page_loop.simps [simp del]

definition processPage :: "bufferCfg \<Rightarrow> int \<Rightarrow> (int \<Rightarrow> byte) \<Rightarrow> (nat \<Rightarrow> nat option) \<Rightarrow> nat option \<Rightarrow>
    (nat \<Rightarrow> interestSet \<times> time) \<Rightarrow> bytes \<Rightarrow> int \<Rightarrow> bool \<Rightarrow>
    bool \<times> nat \<times> duration \<times> (int \<Rightarrow> byte) \<times> bufEvent list" where
  "processPage cfg u f rf wfault obs scratch rh clos =
     (case page_loop cfg u (pressure cfg u clos) f rf rh obs 0 0 (startScan scratch) of
        (ps, evs) \<Rightarrow>
          (ps_fullyConsumed ps, ps_chunksConsumed ps, ps_minRemaining ps,
           (if ps_needsWriteback ps then WriteAt wfault f rh (ps_scratch ps) else f), evs))"

end
