(* ===== verification/Ring_Layout.thy ===== *)
theory Ring_Layout
  imports Span_Buffer
begin

text \<open>
  How records lie in the ring file. \<open>ring_at\<close> reads the file circularly from an offset; its lemmas
  say what appending a page at the write head, overwriting the page at the read head and moving
  the read head do to that view. A \<open>slot\<close> is what one turn of the sweeper consumes: a page of
  small records or one large record over several pages; \<open>slot_bytes\<close> is its image in the file.
\<close>

section \<open>The file as a ring\<close>

definition ring_at :: "(int \<Rightarrow> byte) \<Rightarrow> int \<Rightarrow> int \<Rightarrow> nat \<Rightarrow> bytes" where
  "ring_at f M base n = map (\<lambda>i. f ((base + int i) mod M)) [0..<n]"

lemma length_ring_at [simp]: "length (ring_at f M base n) = n"
  by (simp add: ring_at_def)

lemma ring_at_0 [simp]: "ring_at f M base 0 = []"
  by (simp add: ring_at_def)

lemma nth_ring_at [simp]: "i < n \<Longrightarrow> ring_at f M base n ! i = f ((base + int i) mod M)"
  by (simp add: ring_at_def)

lemma ring_at_mod [simp]: "ring_at f M (base mod M) n = ring_at f M base n"
  by (simp add: ring_at_def mod_add_left_eq)

lemma ring_at_mod_add: "ring_at f M (base mod M + x) n = ring_at f M (base + x) n"
  by (simp add: ring_at_def mod_add_left_eq add.assoc)

lemma ring_at_add: "ring_at f M base (m + n) = ring_at f M base m @ ring_at f M (base + int m) n"
  by (rule nth_equalityI) (auto simp: nth_append add.assoc)

lemma drop_ring_at: "m \<le> n \<Longrightarrow> drop m (ring_at f M base n) = ring_at f M (base + int m) (n - m)"
  using ring_at_add [of f M base m "n - m"] by simp

lemma take_ring_at: "m \<le> n \<Longrightarrow> take m (ring_at f M base n) = ring_at f M base m"
  using ring_at_add [of f M base m "n - m"] by simp

lemma ReadAt_ring: "0 \<le> off \<Longrightarrow> off + int n \<le> M \<Longrightarrow> ReadAt f off n = ring_at f M off n"
  by (rule nth_equalityI) (auto simp: ReadAt_def)

text \<open>Two distances below the length of the ring end at the same place only if they are equal.\<close>

lemma ring_inj:
  assumes "(base + x) mod M = (base + y) mod (M :: int)" and "0 \<le> x" "x < M" "0 \<le> y" "y < M"
  shows "x = y"
proof -
  have "M dvd (base + x) - (base + y)" using assms(1) by (rule mod_eq_dvd_iff [THEN iffD1])
  then have "M dvd x - y" by simp
  moreover have "\<bar>x - y\<bar> < M" using assms by linarith
  ultimately show ?thesis using zdvd_imp_le [of M "\<bar>x - y\<bar>"] by (cases "x = y") auto
qed

lemma ring_write_disjoint:
  assumes w: "w = (base + int k) mod M" and "w + int (length bs) \<le> M"
    and "n \<le> k" and "int k + int (length bs) \<le> M"
  shows "ring_at (file_write f w bs) M base n = ring_at f M base n"
proof (rule nth_equalityI; simp)
  fix i assume i: "i < n"
  have "\<not> (w \<le> (base + int i) mod M \<and> (base + int i) mod M < w + int (length bs))"
  proof
    assume in_w: "w \<le> (base + int i) mod M \<and> (base + int i) mod M < w + int (length bs)"
    define j where "j = (base + int i) mod M - w"
    have j: "0 \<le> j" "j < int (length bs)" using in_w by (auto simp: j_def)
    have M: "0 < M" using j assms(4) by linarith
    have "(base + int i) mod M = (w + j) mod M"
      using j assms(2) M w by (simp add: j_def)
    also have "\<dots> = (base + (int k + j)) mod M"
      using w by (simp add: mod_add_left_eq add.assoc)
    finally have "int i = int k + j"
      by (rule ring_inj) (use i assms j in linarith)+
    with i j assms(3) show False by linarith
  qed
  then show "file_write f w bs ((base + int i) mod M) = f ((base + int i) mod M)"
    by (auto simp: file_write_def)
qed

lemma ring_write_same:
  assumes "0 \<le> w" and "w + int (length bs) \<le> M"
  shows "ring_at (file_write f w bs) M w (length bs) = bs"
  using assms by (intro nth_equalityI) (auto simp: file_write_def)

text \<open>Appending at the write head.\<close>

lemma ring_append:
  assumes "0 < M" and "(base + int n) mod M + int (length bs) \<le> M" and "int n + int (length bs) \<le> M"
  shows "ring_at (file_write f ((base + int n) mod M) bs) M base (n + length bs) = ring_at f M base n @ bs"
proof -
  let ?w = "(base + int n) mod M"
  have "ring_at (file_write f ?w bs) M (base + int n) (length bs) = bs"
    using ring_write_same [of ?w bs M f] assms by simp
  moreover have "ring_at (file_write f ?w bs) M base n = ring_at f M base n"
    by (rule ring_write_disjoint) (use assms in simp_all)
  ultimately show ?thesis by (simp add: ring_at_add)
qed

text \<open>Overwriting the first page.\<close>

lemma ring_overwrite:
  assumes "0 \<le> base" and "base + int (length bs) \<le> M" and "int (length bs) + int n \<le> M"
  shows "ring_at (file_write f base bs) M base (length bs + n) = bs @ ring_at f M (base + int (length bs)) n"
proof (cases "bs = []")
  case True
  then have "file_write f base bs = f" by (auto simp: file_write_def fun_eq_iff)
  with True show ?thesis by simp
next
  case False
  then have M: "0 < int (length bs)" by simp
  have "base < M" using assms M by linarith
  have "ring_at (file_write f base bs) M (base + int (length bs)) n = ring_at f M (base + int (length bs)) n"
  proof (rule ring_write_disjoint)
    show "base = (base + int (length bs) + int (nat (M - int (length bs)))) mod M"
      using assms \<open>base < M\<close> by simp
  qed (use assms in auto)
  with ring_write_same [of base bs M f] assms show ?thesis by (simp add: ring_at_add)
qed

section \<open>Slots\<close>

datatype slot = Small "(bool \<times> writeReq) list" | Large bool writeReq

definition enc_entries :: "(bool \<times> writeReq) list \<Rightarrow> bytes" where
  "enc_entries es = concat (map (\<lambda>(b, r). enc_entry b r) es)"

definition pad :: "nat \<Rightarrow> bytes \<Rightarrow> bytes" where
  "pad n bs = bs @ replicate (n - length bs) 0"

lemma length_pad [simp]: "length bs \<le> n \<Longrightarrow> length (pad n bs) = n"
  by (simp add: pad_def)

lemma enc_entries_simps [simp]:
  "enc_entries [] = []"
  "enc_entries ((b, r) # es) = enc_entry b r @ enc_entries es"
  "enc_entries (es @ es') = enc_entries es @ enc_entries es'"
  by (simp_all add: enc_entries_def)

fun slot_pages :: "nat \<Rightarrow> slot \<Rightarrow> nat" where
  "slot_pages pgs (Small es) = 1"
| "slot_pages pgs (Large b r) = numChunks pgs (length (wr_data r))"

fun slot_bytes :: "nat \<Rightarrow> slot \<Rightarrow> bytes" where
  "slot_bytes pgs (Small es) = pad pgs (enc_entries es)"
| "slot_bytes pgs (Large b r) = pad (numChunks pgs (length (wr_data r)) * pgs) (enc_entry b r)"

fun slot_ok :: "nat \<Rightarrow> slot \<Rightarrow> bool" where
  "slot_ok pgs (Small es) \<longleftrightarrow> (\<forall>(b, r) \<in> set es. storable r) \<and> length (enc_entries es) \<le> pgs"
| "slot_ok pgs (Large b r) \<longleftrightarrow> storable r \<and> pgs < hdrSize + length (wr_data r)"

fun slot_live :: "slot \<Rightarrow> writeReq list" where
  "slot_live (Small es) = map snd (filter fst es)"
| "slot_live (Large b r) = (if b then [r] else [])"

definition ring_bytes :: "nat \<Rightarrow> slot list \<Rightarrow> bytes" where
  "ring_bytes pgs sl = concat (map (slot_bytes pgs) sl)"

lemma ring_bytes_simps [simp]:
  "ring_bytes pgs [] = []"
  "ring_bytes pgs (x # xs) = slot_bytes pgs x @ ring_bytes pgs xs"
  "ring_bytes pgs (xs @ ys) = ring_bytes pgs xs @ ring_bytes pgs ys"
  by (simp_all add: ring_bytes_def)

lemma storable_len: "storable r \<Longrightarrow> length (wr_traceID r) = 16"
  by (simp add: storable_def)

lemma numChunks_enough: "0 < pgs \<Longrightarrow> hdrSize + len \<le> numChunks pgs len * pgs"
proof -
  assume "0 < pgs"
  then have "hdrSize + len + pgs - 1 < numChunks pgs len * pgs + pgs"
    unfolding numChunks_def using dividend_less_div_times [of pgs "hdrSize + len + pgs - 1"]
    by (simp add: add.commute)
  then show ?thesis by linarith
qed

lemma numChunks_tight: "0 < pgs \<Longrightarrow> numChunks pgs len * pgs < hdrSize + len + pgs"
  unfolding numChunks_def
  by (metis One_nat_def Suc_pred add_gr_0 div_times_less_eq_dividend le_imp_less_Suc)

lemma length_slot_bytes [simp]:
  "0 < pgs \<Longrightarrow> slot_ok pgs sl \<Longrightarrow> length (slot_bytes pgs sl) = slot_pages pgs sl * pgs"
  using numChunks_enough by (cases sl) (auto simp: storable_len)

lemma slot_pages_pos: "0 < pgs \<Longrightarrow> slot_ok pgs sl \<Longrightarrow> 0 < slot_pages pgs sl"
  by (cases sl) (auto simp: numChunks_def hdrSize_def div_greater_zero_iff)

lemma ring_bytes_dvd: "0 < pgs \<Longrightarrow> \<forall>x \<in> set sl. slot_ok pgs x \<Longrightarrow> pgs dvd length (ring_bytes pgs sl)"
  by (induction sl) auto

end
