(* ===== verification/Buffer_Machine.thy ===== *)
theory Buffer_Machine
  imports Span_Buffer
begin

text \<open>
  The interleaving of the span buffer's goroutines, as a labelled step relation over
  \<open>bufferState\<close>. One rule is one ready case of a \<open>select\<close>, one access to the shared file, or one
  access to \<open>used\<close>; local computation is merged into the access that follows it. The labels name
  the caller's operation, or say which goroutine moved and whether an I/O fault hit it, so a run
  without faults is one whose labels satisfy \<open>no_fault\<close>.

  \<open>BufferSpec\<close> is what the buffer promises its callers, with no file, page or goroutine in it:
  a bag of accepted requests, each of which is resolved at most once, by delivery of exactly its
  own bytes if a decision for its trace came within its window and by eviction otherwise, and is
  lost only after \<open>Close\<close>.
\<close>

datatype bufLabel =
    LWrite writeReq bool
  | LAddInterest TraceID
  | LTime
  | LTimer
  | LClose
  | LWriter
  | LWriterFault
  | LSweeper
  | LSweeperFault

fun no_fault :: "bufLabel \<Rightarrow> bool" where
  "no_fault LWriterFault = False"
| "no_fault LSweeperFault = False"
| "no_fault _ = True"

definition room_for :: "bufferCfg \<Rightarrow> int \<Rightarrow> bufferState \<Rightarrow> bool" where
  "room_for cfg n s \<longleftrightarrow> \<not> used s + n > maxBytes cfg"

text \<open>After \<open>processPage\<close>: write back, then free the pages or arm the timer and wait.\<close>

definition scan_done :: "bufferCfg \<Rightarrow> nat option \<Rightarrow> pageScan \<Rightarrow> bufferState \<Rightarrow> bufferState" where
  "scan_done cfg fault p s =
     (let s' = (if ps_needsWriteback p
                then s\<lparr>bfile := WriteAt fault (bfile s) (rHead s) (ps_scratch p)\<rparr> else s) in
      if ps_fullyConsumed p then s'\<lparr>spc := SFree (ps_chunksConsumed p)\<rparr>
      else s'\<lparr>timers := (if ps_minRemaining p > 0 then timers s @ [clock s + ps_minRemaining p]
                         else timers s), spc := SPageWait\<rparr>)"

definition free_pages :: "bufferCfg \<Rightarrow> nat \<Rightarrow> bufferState \<Rightarrow> bufferState" where
  "free_pages cfg n s =
     s\<lparr>rHead := (rHead s + int n * int (pageSize cfg)) mod maxBytes cfg,
       used := used s - int n * int (pageSize cfg), pageFreed := True, spc := SCheck\<rparr>"

inductive buf_step :: "bufferCfg \<Rightarrow> bufferState \<Rightarrow> bufLabel \<Rightarrow> bufferState \<Rightarrow> bool"
  for cfg :: bufferCfg where
  write_ok: "Write cfg r s = Some t \<Longrightarrow> buf_step cfg s (LWrite r True) t"
| write_full: "Write cfg r s = None \<Longrightarrow> buf_step cfg s (LWrite r False) s"
| add_interest: "buf_step cfg s (LAddInterest tid) (buf_AddInterest cfg tid s)"
| time: "clock s \<le> now \<Longrightarrow> buf_step cfg s LTime (s\<lparr>clock := now\<rparr>)"
| timer: "d \<in> set (timers s) \<Longrightarrow> d \<le> clock s \<Longrightarrow>
    buf_step cfg s LTimer (s\<lparr>timers := remove1 d (timers s), wakeup := True\<rparr>)"
| close: "Close s = Some t \<Longrightarrow> buf_step cfg s LClose t"
| w_recv: "wpc s = WSelect \<Longrightarrow> chan_recv (writeCh s) = Some (r, ch) \<Longrightarrow>
    buf_step cfg s LWriter (handle cfg r (s\<lparr>writeCh := ch\<rparr>))"
| w_tick: "wpc s = WSelect \<Longrightarrow> \<not> draining s \<Longrightarrow>
    buf_step cfg s LWriter (if stageN s > 0 then enter_flush cfg FTick s else s)"
| w_closing: "wpc s = WSelect \<Longrightarrow> \<not> draining s \<Longrightarrow> closeCh s \<Longrightarrow>
    buf_step cfg s LWriter (s\<lparr>draining := True\<rparr>)"
| w_drained: "wpc s = WSelect \<Longrightarrow> draining s \<Longrightarrow> chan_recv (writeCh s) = None \<Longrightarrow>
    buf_step cfg s LWriter (if stageN s > 0 then enter_flush cfg FExit s else writer_exit s)"
| w_flush_freed: "wpc s = WFlush k \<Longrightarrow> \<not> room_for cfg (int (pageSize cfg)) s \<Longrightarrow> pageFreed s \<Longrightarrow>
    buf_step cfg s LWriter (s\<lparr>pageFreed := False\<rparr>)"
| w_flush_closed: "wpc s = WFlush k \<Longrightarrow> \<not> room_for cfg (int (pageSize cfg)) s \<Longrightarrow> closeCh s \<Longrightarrow>
    buf_step cfg s LWriter (flush_closed k s)"
| w_flush_write: "wpc s = WFlush k \<Longrightarrow> room_for cfg (int (pageSize cfg)) s \<Longrightarrow>
    buf_step cfg s LWriter (flush_write cfg None k s)"
| w_flush_fault: "wpc s = WFlush k \<Longrightarrow> room_for cfg (int (pageSize cfg)) s \<Longrightarrow>
    buf_step cfg s LWriterFault (flush_write cfg (Some n) k s)"
| w_flush_count: "wpc s = WFlushed k \<Longrightarrow> buf_step cfg s LWriter (flush_count cfg k s)"
| w_large_freed: "wpc s = WLargeWait r \<Longrightarrow> \<not> room_for cfg (chunkBytes cfg r) s \<Longrightarrow> pageFreed s \<Longrightarrow>
    buf_step cfg s LWriter (s\<lparr>pageFreed := False\<rparr>)"
| w_large_closed: "wpc s = WLargeWait r \<Longrightarrow> \<not> room_for cfg (chunkBytes cfg r) s \<Longrightarrow> closeCh s \<Longrightarrow>
    buf_step cfg s LWriter (s\<lparr>wpc := WSelect\<rparr>)"
| w_large_room: "wpc s = WLargeWait r \<Longrightarrow> room_for cfg (chunkBytes cfg r) s \<Longrightarrow>
    buf_step cfg s LWriter (s\<lparr>wpc := WLargeFirst r\<rparr>)"
| w_first: "wpc s = WLargeFirst r \<Longrightarrow> buf_step cfg s LWriter (write_first cfg None r s)"
| w_first_fault: "wpc s = WLargeFirst r \<Longrightarrow> buf_step cfg s LWriterFault (write_first cfg (Some n) r s)"
| w_cont: "wpc s = WLargeCont r off \<Longrightarrow> buf_step cfg s LWriter (write_cont cfg None r off s)"
| w_cont_fault: "wpc s = WLargeCont r off \<Longrightarrow> off < length (wr_data r) \<Longrightarrow>
    buf_step cfg s LWriterFault (write_cont cfg (Some n) r off s)"
| w_commit: "wpc s = WCommit r \<Longrightarrow> buf_step cfg s LWriter (commit_large cfg r s)"
| s_check_wait: "spc s = SCheck \<Longrightarrow> used s = 0 \<Longrightarrow> \<not> closing s \<Longrightarrow>
    buf_step cfg s LSweeper (s\<lparr>spc := SEmptyWait\<rparr>)"
| s_check_exit: "spc s = SCheck \<Longrightarrow> used s = 0 \<Longrightarrow> closing s \<Longrightarrow>
    buf_step cfg s LSweeper (s\<lparr>spc := SDone\<rparr>)"
| s_check_read: "spc s = SCheck \<Longrightarrow> used s \<noteq> 0 \<Longrightarrow> buf_step cfg s LSweeper (s\<lparr>spc := SRead\<rparr>)"
| s_wakeup: "spc s \<in> {SEmptyWait, SPageWait} \<Longrightarrow> wakeup s \<Longrightarrow>
    buf_step cfg s LSweeper (s\<lparr>wakeup := False, spc := SCheck\<rparr>)"
| s_writer_done: "spc s \<in> {SEmptyWait, SPageWait} \<Longrightarrow> writerDone s \<Longrightarrow>
    buf_step cfg s LSweeper (s\<lparr>closing := True, spc := SCheck\<rparr>)"
| s_read: "spc s = SRead \<Longrightarrow>
    buf_step cfg s LSweeper (s\<lparr>spc := SProcess (ReadAt (bfile s) (rHead s) (pageSize cfg))\<rparr>)"
| s_read_fault: "spc s = SRead \<Longrightarrow> buf_step cfg s LSweeperFault (free_pages cfg 1 s)"
| s_process: "spc s = SProcess scratch \<Longrightarrow>
    buf_step cfg s LSweeper
      (s\<lparr>spc := SScan (used s) (pressure cfg (used s) (closing s)) 0 (startScan scratch)\<rparr>)"
| s_scan: "spc s = SScan u press pos p \<Longrightarrow> pos + hdrSize \<le> pageSize cfg \<Longrightarrow>
    scan_record cfg u press (bfile s) (\<lambda>_. None) (rHead s) (interest s) (clock s) pos p = (nxt, p', evs) \<Longrightarrow>
    buf_step cfg s LSweeper
      (s\<lparr>events := events s @ evs,
         spc := (case nxt of None \<Rightarrow> SWriteback p' | Some pos' \<Rightarrow> SScan u press pos' p')\<rparr>)"
| s_scan_fault: "spc s = SScan u press pos p \<Longrightarrow> pos + hdrSize \<le> pageSize cfg \<Longrightarrow>
    scan_record cfg u press (bfile s) rf (rHead s) (interest s) (clock s) pos p = (nxt, p', evs) \<Longrightarrow>
    buf_step cfg s LSweeperFault
      (s\<lparr>events := events s @ evs,
         spc := (case nxt of None \<Rightarrow> SWriteback p' | Some pos' \<Rightarrow> SScan u press pos' p')\<rparr>)"
| s_scan_end: "spc s = SScan u press pos p \<Longrightarrow> \<not> pos + hdrSize \<le> pageSize cfg \<Longrightarrow>
    buf_step cfg s LSweeper (s\<lparr>spc := SWriteback p\<rparr>)"
| s_writeback: "spc s = SWriteback p \<Longrightarrow> buf_step cfg s LSweeper (scan_done cfg None p s)"
| s_writeback_fault: "spc s = SWriteback p \<Longrightarrow> ps_needsWriteback p \<Longrightarrow>
    buf_step cfg s LSweeperFault (scan_done cfg (Some n) p s)"
| s_free: "spc s = SFree n \<Longrightarrow> buf_step cfg s LSweeper (free_pages cfg n s)"

section \<open>The specification\<close>

text \<open>How a request was resolved: delivered, or evicted at an age.\<close>

datatype outcome = Delivered | Evicted duration

record BufferSpec =
  pending :: "writeReq multiset"
  resolved :: "(writeReq \<times> outcome) list"
  decided :: "TraceID \<Rightarrow> time option"
  spec_clock :: time
  shut :: bool

definition initSpec :: "time \<Rightarrow> BufferSpec" where
  "initSpec now = \<lparr>pending = {#}, resolved = [], decided = (\<lambda>_. None), spec_clock = now, shut = False\<rparr>"

definition span_age :: "time \<Rightarrow> writeReq \<Rightarrow> duration" where
  "span_age now r = time_Sub now (wr_insertedAt r)"

text \<open>A decision counts for a request if it was taken before the request's own window closed.\<close>

definition in_time :: "duration \<Rightarrow> (TraceID \<Rightarrow> time option) \<Rightarrow> writeReq \<Rightarrow> bool" where
  "in_time dw dec r = (case dec (wr_traceID r) of None \<Rightarrow> False | Some c \<Rightarrow> c < wr_insertedAt r + dw)"

definition spec_outcome :: "duration \<Rightarrow> BufferSpec \<Rightarrow> writeReq \<Rightarrow> outcome" where
  "spec_outcome dw a r =
     (if in_time dw (decided a) r then Delivered else Evicted (span_age (spec_clock a) r))"

fun event_of :: "writeReq \<times> outcome \<Rightarrow> bufEvent" where
  "event_of (r, Delivered) = OnMatch (wr_traceID r) (wr_data r)"
| "event_of (r, Evicted age) = EvictObs age"

fun internal :: "bufLabel \<Rightarrow> bool" where
  "internal (LWrite r ok) = (\<not> ok)"
| "internal (LAddInterest t) = False"
| "internal LTime = False"
| "internal LClose = False"
| "internal _ = True"

inductive spec_step :: "duration \<Rightarrow> BufferSpec \<Rightarrow> bufLabel \<Rightarrow> BufferSpec \<Rightarrow> bool"
  for dw :: duration where
  spec_accept: "spec_step dw a (LWrite r True) (a\<lparr>pending := add_mset r (pending a)\<rparr>)"
| spec_decide: "spec_step dw a (LAddInterest t)
    (a\<lparr>decided := (\<lambda>u. if u = t then Some (spec_clock a) else drop_expired dw (spec_clock a) (decided a u))\<rparr>)"
| spec_time: "spec_clock a \<le> now \<Longrightarrow> spec_step dw a LTime (a\<lparr>spec_clock := now\<rparr>)"
| spec_close: "spec_step dw a LClose (a\<lparr>shut := True\<rparr>)"
| spec_resolve: "r \<in># pending a \<Longrightarrow>
    spec_step dw a LSweeper
      (a\<lparr>pending := pending a - {#r#}, resolved := resolved a @ [(r, spec_outcome dw a r)]\<rparr>)"
| spec_lose: "shut a \<Longrightarrow> p \<subseteq># pending a \<Longrightarrow> spec_step dw a LWriter (a\<lparr>pending := p\<rparr>)"
| spec_stutter: "internal l \<Longrightarrow> spec_step dw a l a"

end
