(* ===== verification/Buffer_Scan.thy ===== *)
theory Buffer_Scan
  imports Ring_Layout Buffer_Machine
begin

text \<open>
  What \<open>processPage\<close> does with a page as the writer lays it out. \<open>scan_small\<close>, \<open>scan_padding\<close> and
  \<open>scan_large\<close> give one turn of its loop in terms of the record at the position; \<open>multi_payload_data\<close>
  reassembles the data of a large record from its chunks; \<open>resolve\<close> and \<open>resolve_all\<close> are the
  decision the code takes for one record and for the records of a page, with no bytes in them.
\<close>

definition cfg_ok :: "bufferCfg \<Rightarrow> bool" where
  "cfg_ok cfg \<longleftrightarrow> hdrSize \<le> pageSize cfg \<and> 0 < decisionWait cfg \<and>
     int (pageSize cfg) dvd maxBytes cfg \<and> 2 * int (pageSize cfg) \<le> maxBytes cfg"

lemma cfg_ok_pos: "cfg_ok cfg \<Longrightarrow> 0 < pageSize cfg \<and> 0 < maxBytes cfg"
  by (auto simp: cfg_ok_def hdrSize_def)

text \<open>A page-aligned offset inside the ring leaves room for a page.\<close>

lemma aligned_room:
  assumes "int p dvd off" and "int p dvd M" and "off < M"
  shows "off + int p \<le> M"
proof -
  obtain a b where ab: "off = int p * a" "M = int p * b" using assms by (auto elim!: dvdE)
  with assms(3) have "a < b" by (metis mult_le_cancel_left_pos mult_zero_left not_le of_nat_less_0_iff
      linorder_neqE_linordered_idom mult_less_cancel_left_disj)
  then have "int p * (a + 1) \<le> int p * b" by (intro mult_left_mono) auto
  then show ?thesis by (simp add: ab distrib_left)
qed

lemma aligned_mod_room:
  assumes "int p dvd off" and "int p dvd M" and "0 < M"
  shows "off mod M + int p \<le> M"
  by (rule aligned_room) (use assms in \<open>auto simp: dvd_mod\<close>)

section \<open>The payload of a large record\<close>

lemma chunk_offsets:
  assumes "0 < p" and "hdrSize \<le> p" and "1 \<le> i" and "i < numChunks p len"
  shows "i * p - hdrSize < len" and "min len (i * p - hdrSize) + min (len - min len (i * p - hdrSize)) p
    = min len (Suc i * p - hdrSize)"
proof -
  have "Suc i * p \<le> numChunks p len * p" using assms(4) by (intro mult_right_mono) auto
  then have "i * p < hdrSize + len" using numChunks_tight [OF assms(1), of len] by simp
  moreover have "p \<le> i * p" using assms(3) by simp
  ultimately show 1: "i * p - hdrSize < len" using assms(2) by linarith
  define q where "q = i * p"
  have "hdrSize \<le> q" unfolding q_def using assms(2) \<open>p \<le> i * p\<close> by (rule order_trans)
  moreover have "Suc i * p = p + q" "q - hdrSize < len" using 1 by (simp_all add: q_def)
  ultimately show "min len (i * p - hdrSize) + min (len - min len (i * p - hdrSize)) p
    = min len (Suc i * p - hdrSize)" unfolding q_def [symmetric] by (auto simp: min_def)
qed

lemma read_chunks_data:
  assumes cfg: "cfg_ok cfg" and p: "p = pageSize cfg" and M: "M = maxBytes cfg"
    and rh: "int p dvd rh" and len: "len = length data" and X: "length X = numChunks p len * p"
    and fl: "ring_at f M (rh + int p) (numChunks p len * p - p) = drop p X"
    and data: "take len (drop hdrSize X) = data"
  shows "1 \<le> i \<Longrightarrow> i \<le> numChunks p len \<Longrightarrow>
    read_chunks cfg f (\<lambda>_. None) rh len (numChunks p len) i (min len (i * p - hdrSize))
      (take (min len (i * p - hdrSize)) data @ replicate (len - min len (i * p - hdrSize)) 0) = data"
proof (induction "numChunks p len - i" arbitrary: i)
  case 0
  then have "i = numChunks p len" by simp
  moreover have "len \<le> numChunks p len * p - hdrSize"
    using numChunks_enough [of p len] cfg_ok_pos [OF cfg] p by linarith
  ultimately show ?case by (subst read_chunks.simps) (simp add: len)
next
  case (Suc d)
  have i: "1 \<le> i" "i < numChunks p len" using Suc by simp_all
  have p0: "0 < p" "hdrSize \<le> p" "0 < M" "int p dvd M"
    using cfg cfg_ok_pos [OF cfg] p M by (auto simp: cfg_ok_def)
  note off = chunk_offsets [OF p0(1,2) i]
  define o1 where "o1 = min len (i * p - hdrSize)"
  define n where "n = min (len - o1) p"
  have o1: "o1 = i * p - hdrSize" "p \<le> i * p" using off(1) i by (simp_all add: o1_def)
  define c where "c = (rh + int i * int p) mod M"
  have c: "0 \<le> c" "c + int n \<le> M"
    using aligned_mod_room [of p "rh + int i * int p" M] p0 rh
    by (auto simp: c_def n_def dvd_add)
  have "ReadAt f c n = ring_at f M (rh + int i * int p) n"
    using ReadAt_ring [OF c] by (simp add: c_def)
  also have "\<dots> = take n (drop (i * p) X)"
  proof -
    have le: "i * p + n \<le> numChunks p len * p"
      using i by (metis Suc_leI add.commute add_left_mono le_trans mult_Suc mult_right_mono n_def
          min.cobounded2 zero_le)
    have "take n (drop (i * p - p) (drop p X)) = ring_at f M (rh + int p + int (i * p - p)) n"
      using le o1(2) by (subst fl [symmetric]) (simp add: drop_ring_at take_ring_at)
    with o1(2) show ?thesis by (simp add: of_nat_diff algebra_simps)
  qed
  also have "\<dots> = take n (drop o1 data)"
  proof -
    have "o1 + hdrSize = i * p" using o1 p0(2) by linarith
    then have "drop o1 data = take (len - o1) (drop (i * p) X)"
      by (subst data [symmetric]) (simp add: drop_take)
    then show ?thesis by (simp add: n_def min.commute min.left_commute)
  qed
  finally have got: "ReadAt f c n = take n (drop o1 data)" .
  have "copy_at (take o1 data @ replicate (len - o1) 0) o1 (take n (drop o1 data))
      = take (o1 + n) data @ replicate (len - (o1 + n)) 0"
    using off(1) o1 by (simp add: copy_at_def len n_def take_add)
  moreover have "o1 + n = min len (Suc i * p - hdrSize)" using off(2) by (simp add: o1_def n_def)
  ultimately show ?case
    using Suc.hyps(1) [of "Suc i"] Suc.hyps(2) i got
    by (subst read_chunks.simps) (simp add: Let_def o1_def [symmetric] n_def [symmetric] p [symmetric]
        M [symmetric] c_def [symmetric])
qed

lemma first_page_large:
  assumes "hdrSize \<le> p" and "slot_ok p (Large b r)"
  shows "take p (slot_bytes p (Large b r)) = enc_header b r @ take (p - hdrSize) (wr_data r)"
  using assms by (simp add: pad_def enc_entry_def storable_len hdrSize_def)

lemma multi_payload_data:
  assumes cfg: "cfg_ok cfg" and p: "p = pageSize cfg" and rh: "int p dvd rh"
    and slot: "slot_ok p (Large b r)" and scratch: "take p (slot_bytes p (Large b' r)) = scratch"
    and fl: "ring_at f (maxBytes cfg) (rh + int p) (numChunks p (length (wr_data r)) * p - p)
             = drop p (slot_bytes p (Large b r))"
  shows "multi_payload cfg f (\<lambda>_. None) rh scratch (length (wr_data r)) = wr_data r"
proof -
  define len where "len = length (wr_data r)"
  have p0: "0 < p" "hdrSize \<le> p" using cfg cfg_ok_pos [OF cfg] p by (auto simp: cfg_ok_def)
  have big: "p - hdrSize < len" and st: "storable r" using slot p0 by (auto simp: len_def)
  have X: "length (slot_bytes p (Large b r)) = numChunks p len * p"
    using length_slot_bytes [OF p0(1) slot] by (simp add: len_def)
  have "1 \<le> numChunks p len" using slot_pages_pos [OF p0(1) slot] by (simp add: len_def)
  moreover have "take len (drop hdrSize (slot_bytes p (Large b r))) = wr_data r"
    using st by (simp add: pad_def enc_entry_def storable_len hdrSize_def len_def)
  moreover have "slice scratch hdrSize p = take (p - hdrSize) (wr_data r)"
    unfolding scratch [symmetric]
    by (subst first_page_large [OF p0(2)]) (use slot st in \<open>auto simp: slice_def storable_len hdrSize_def\<close>)
  moreover have "copy_at (replicate len 0) 0 (take (p - hdrSize) (wr_data r)) =
      take (p - hdrSize) (wr_data r) @ replicate (len - (p - hdrSize)) 0"
    using big by (simp add: copy_at_def len_def)
  ultimately show ?thesis
    using read_chunks_data [OF cfg p refl rh len_def X fl [folded len_def], of 1] big slot p0
    by (simp add: multi_payload_def len_def [symmetric] p [symmetric] min_def)
qed

section \<open>One turn of the loop\<close>

definition resolve :: "bufferCfg \<Rightarrow> bool \<Rightarrow> interestSet \<Rightarrow> time \<Rightarrow> writeReq \<Rightarrow> outcome option" where
  "resolve cfg press intr now r =
     (if hasInterestForSpanRLocked (decisionWait cfg) intr (wr_traceID r) (wr_insertedAt r) then Some Delivered
      else if span_age now r \<ge> decisionWait cfg \<or> press then Some (Evicted (span_age now r))
      else None)"

definition rest_wait :: "bufferCfg \<Rightarrow> time \<Rightarrow> writeReq \<Rightarrow> duration" where
  "rest_wait cfg now r = wrap64 (decisionWait cfg - span_age now r)"

lemma scan_small:
  assumes st: "storable r" and pos: "pos = length pre"
    and scratch: "ps_scratch ps = pre @ enc_entry b r @ post" and len: "length (ps_scratch ps) = pageSize cfg"
  shows "scan_record cfg u press f rf rh intr now pos ps =
    (Some (pos + (hdrSize + length (wr_data r))),
     if \<not> b then (ps, [])
     else (case resolve cfg press intr now r of
         Some oc \<Rightarrow> (ps\<lparr>ps_scratch := pre @ enc_entry False r @ post, ps_needsWriteback := True\<rparr>, [event_of (r, oc)])
       | None \<Rightarrow> (keep_waiting (rest_wait cfg now r) ps, [])))"
proof -
  note f = rec_fields [OF pos [symmetric] st, of b "wr_data r @ post"]
  have fit: "pos + (hdrSize + length (wr_data r)) \<le> pageSize cfg"
    using len scratch pos storable_len [OF st] by (simp add: hdrSize_def)
  have data: "slice (pre @ enc_header b r @ wr_data r @ post) (pos + hdrSize) (pos + (hdrSize + length (wr_data r)))
      = wr_data r"
    using pos storable_len [OF st] by (simp add: slice_def hdrSize_def)
  show ?thesis
    using fit st data
    unfolding scan_record_def Let_def scratch enc_entry_def append_assoc f
    by (auto simp: storable_def resolve_def rest_wait_def span_age_def bury_def scratch enc_entry_def
        rec_fields(4) [OF pos [symmetric] st])
qed

lemma scan_padding:
  assumes "ps_scratch ps = pre @ replicate n 0" and "pos = length pre" and "hdrSize \<le> n"
  shows "scan_record cfg u press f rf rh intr now pos ps = (None, ps, [])"
proof -
  have "rec_tid (ps_scratch ps) pos = emptyID"
    using assms by (simp add: rec_tid_def emptyID_def slice_def hdrSize_def)
  then show ?thesis by (simp add: scan_record_def)
qed

lemma scan_large:
  assumes cfg: "cfg_ok cfg" and p: "p = pageSize cfg" and rh: "int p dvd rh"
    and slot: "slot_ok p (Large b r)" and scratch: "ps_scratch ps = take p (slot_bytes p (Large b r))"
    and u: "int (numChunks p (length (wr_data r))) * int p \<le> u"
    and fl: "ring_at f (maxBytes cfg) (rh + int p) (numChunks p (length (wr_data r)) * p - p)
             = drop p (slot_bytes p (Large b r))"
  shows "scan_record cfg u press f (\<lambda>_. None) rh intr now 0 ps =
    (None,
     if \<not> b then (ps\<lparr>ps_chunksConsumed := numChunks p (length (wr_data r))\<rparr>, [])
     else (case resolve cfg press intr now r of
         Some oc \<Rightarrow> (ps\<lparr>ps_scratch := take p (slot_bytes p (Large False r)), ps_needsWriteback := True,
                       ps_chunksConsumed := numChunks p (length (wr_data r))\<rparr>, [event_of (r, oc)])
       | None \<Rightarrow> (keep_waiting (rest_wait cfg now r) ps, [])))"
proof -
  have p0: "hdrSize \<le> p" using cfg p by (auto simp: cfg_ok_def)
  have st: "storable r" and big: "hdrSize + length (wr_data r) > pageSize cfg" using slot p by auto
  have page: "ps_scratch ps = enc_header b r @ take (p - hdrSize) (wr_data r)"
    using first_page_large [OF p0 slot] scratch by simp
  have dead: "take p (slot_bytes p (Large False r)) = enc_header False r @ take (p - hdrSize) (wr_data r)"
    using first_page_large [OF p0, of False r] slot by simp
  note f = rec_fields [of "[]" 0 r b "take (p - hdrSize) (wr_data r)", OF _ st, simplified, folded page]
  note pl = multi_payload_data [OF cfg p rh slot scratch [symmetric] fl]
  show ?thesis
    using st big u pl
    unfolding scan_record_def Let_def f p [symmetric] dead
    by (auto simp: storable_def resolve_def rest_wait_def span_age_def bury_def f p)
qed

section \<open>A whole page\<close>

text \<open>
  The decision for every record of a page, in order: the entries afterwards, the callbacks, and
  the waiting times of the records that stay.
\<close>

fun resolve_all :: "bufferCfg \<Rightarrow> bool \<Rightarrow> (nat \<Rightarrow> interestSet \<times> time) \<Rightarrow> nat \<Rightarrow> (bool \<times> writeReq) list \<Rightarrow>
    (bool \<times> writeReq) list \<times> bufEvent list \<times> duration list" where
  "resolve_all cfg press obs k [] = ([], [], [])"
| "resolve_all cfg press obs k ((b, r) # es) =
     (case resolve_all cfg press obs (Suc k) es of (es', evs, ws) \<Rightarrow>
        if \<not> b then ((False, r) # es', evs, ws)
        else (case resolve cfg press (fst (obs k)) (snd (obs k)) r of
            Some oc \<Rightarrow> ((False, r) # es', event_of (r, oc) # evs, ws)
          | None \<Rightarrow> ((True, r) # es', evs, rest_wait cfg (snd (obs k)) r # ws)))"

definition min_wait :: "duration \<Rightarrow> duration list \<Rightarrow> duration" where
  "min_wait m ws = foldl (\<lambda>m w. if m = 0 \<or> w < m then w else m) m ws"

lemma min_wait_simps [simp]:
  "min_wait m [] = m"
  "min_wait m (w # ws) = min_wait (if m = 0 \<or> w < m then w else m) ws"
  by (simp_all add: min_wait_def)

lemma min_wait_Min: "0 < m \<Longrightarrow> \<forall>w \<in> set ws. 0 < w \<Longrightarrow> min_wait m ws = Min (set (m # ws))"
proof (induction ws arbitrary: m)
  case Nil
  then show ?case by simp
next
  case (Cons w ws)
  have "min_wait m (w # ws) = min_wait (min m w) ws" using Cons.prems by (auto simp: min_def)
  also have "\<dots> = Min (set (min m w # ws))" using Cons by simp
  also have "\<dots> = Min (set (m # w # ws))" by (cases ws) (auto simp: min.assoc)
  finally show ?case .
qed

lemma resolve_all_same_requests:
  "resolve_all cfg press obs k es = (es', evs, ws) \<Longrightarrow> map snd es' = map snd es"
  by (induction es arbitrary: k es' evs ws) (auto split: prod.splits option.splits if_splits)

lemma resolve_all_waiting:
  "resolve_all cfg press obs k es = (es', evs, ws) \<Longrightarrow> ws = [] \<longleftrightarrow> filter fst es' = []"
  by (induction es arbitrary: k es' evs ws) (auto split: prod.splits option.splits if_splits)

lemma length_enc_entries_flags:
  "map snd es = map snd es' \<Longrightarrow> \<forall>(b, r) \<in> set es. storable r \<Longrightarrow>
   length (enc_entries es) = length (enc_entries es')"
proof (induction es arbitrary: es')
  case Nil
  then show ?case by simp
next
  case (Cons e es)
  obtain b r where e: "e = (b, r)" by (cases e)
  have "map snd es' = r # map snd es" using Cons.prems(1) e by (simp del: map_eq_conv)
  then obtain z es2 where "es' = z # es2" "snd z = r" and eq: "map snd es = map snd es2"
    unfolding map_eq_Cons_conv by metis
  then obtain b' where es': "es' = (b', r) # es2" by (cases z) simp
  have "length (enc_entries es) = length (enc_entries es2)"
    using Cons.prems(2) by (intro Cons.IH [OF eq]) simp
  moreover have "length (wr_traceID r) = 16" using Cons.prems(2) e by (simp add: storable_len)
  ultimately show ?case by (simp add: e es')
qed

lemma page_loop_small:
  assumes "\<forall>(b, r) \<in> set es. storable r" and "length (ps_scratch ps) = pageSize cfg"
    and "ps_scratch ps = pre @ enc_entries es @ replicate n 0"
  shows "page_loop cfg u press f rf rh obs k (length pre) ps =
    (case resolve_all cfg press obs k es of (es', evs, ws) \<Rightarrow>
       (ps\<lparr>ps_scratch := pre @ enc_entries es' @ replicate n 0,
           ps_fullyConsumed := ps_fullyConsumed ps \<and> ws = [],
           ps_minRemaining := min_wait (ps_minRemaining ps) ws,
           ps_needsWriteback := ps_needsWriteback ps \<or> evs \<noteq> []\<rparr>, evs))"
  using assms
proof (induction es arbitrary: k pre ps)
  case Nil
  then have "length pre + hdrSize \<le> pageSize cfg \<Longrightarrow> hdrSize \<le> n" by simp
  with Nil show ?case
    by (subst page_loop.simps) (auto simp: scan_padding)
next
  case (Cons e es)
  obtain b r where e: "e = (b, r)" by (cases e)
  have st: "storable r" and sts: "\<forall>(b, r) \<in> set es. storable r" using Cons.prems(1) e by auto
  have sc: "ps_scratch ps = pre @ enc_entry b r @ (enc_entries es @ replicate n 0)"
    using Cons.prems(3) e by simp
  have fit: "length pre + hdrSize \<le> pageSize cfg"
    using Cons.prems(2) sc storable_len [OF st] by simp
  note scan = scan_small [OF st refl sc Cons.prems(2)]
  define pos' where "pos' = length pre + (hdrSize + length (wr_data r))"
  have len: "length (pre @ enc_entry c r @ enc_entries es @ replicate n 0) = pageSize cfg"
    and pos': "pos' = length (pre @ enc_entry c r)" for c
    using Cons.prems(2) sc storable_len [OF st] by (simp_all add: pos'_def)
  obtain es' evs ws where rs: "resolve_all cfg press obs (Suc k) es = (es', evs, ws)"
    by (cases "resolve_all cfg press obs (Suc k) es")
  have step: "page_loop cfg u press f rf rh obs (Suc k) pos' q =
      (q\<lparr>ps_scratch := pre @ enc_entry c r @ enc_entries es' @ replicate n 0,
         ps_fullyConsumed := ps_fullyConsumed q \<and> ws = [],
         ps_minRemaining := min_wait (ps_minRemaining q) ws,
         ps_needsWriteback := ps_needsWriteback q \<or> evs \<noteq> []\<rparr>, evs)"
    if "ps_scratch q = pre @ enc_entry c r @ enc_entries es @ replicate n 0" for c q
    using Cons.IH [OF sts, of q "pre @ enc_entry c r" "Suc k"] that rs len
    by (simp add: pos' [of c])
  show ?case
    using fit
    by (subst page_loop.simps)
      (auto simp: scan e rs keep_waiting_def pos'_def [symmetric] step [of _ True] step [of _ False] sc
        split: option.split)
qed

text \<open>\<open>processPage\<close> on a page of small records. Whatever the interest set and the clock are
  when each record is looked at, every live record is delivered with its own bytes if a decision
  came within its window, evicted if its window is over or the buffer is under pressure, and kept
  otherwise; records already processed cause no callback; exactly the resolved records are
  tombstoned in the page written back; the page counts as consumed if and only if no record is
  kept, and the waiting time reported is the least one of the kept records.\<close>

theorem processPage_small:
  assumes "cfg_ok cfg" and "slot_ok (pageSize cfg) (Small es)"
    and "resolve_all cfg (pressure cfg u clos) obs 0 es = (es', evs, ws)"
  shows "processPage cfg u f rf None obs (slot_bytes (pageSize cfg) (Small es)) rh clos =
    (ws = [], 1, min_wait 0 ws,
     if evs = [] then f else file_write f rh (slot_bytes (pageSize cfg) (Small es')), evs)"
proof -
  have st: "\<forall>(b, r) \<in> set es. storable r" and fit: "length (enc_entries es) \<le> pageSize cfg"
    using assms(2) by auto
  have "map snd es' = map snd es" using assms(3) by (rule resolve_all_same_requests)
  then have len: "length (enc_entries es') = length (enc_entries es)"
    using length_enc_entries_flags [of es es'] st by simp
  have "page_loop cfg u (pressure cfg u clos) f rf rh obs 0 0 (startScan (slot_bytes (pageSize cfg) (Small es))) =
     ((startScan (slot_bytes (pageSize cfg) (Small es)))\<lparr>ps_scratch := slot_bytes (pageSize cfg) (Small es'),
        ps_fullyConsumed := ws = [], ps_minRemaining := min_wait 0 ws, ps_needsWriteback := evs \<noteq> []\<rparr>, evs)"
    using page_loop_small [OF st, of "startScan (slot_bytes (pageSize cfg) (Small es))" cfg "[]"
        "pageSize cfg - length (enc_entries es)" u "pressure cfg u clos" f rf rh obs 0] fit assms(3) len
    by (simp add: startScan_def pad_def)
  then show ?thesis by (auto simp: processPage_def startScan_def WriteAt_def)
qed

theorem processPage_small_witness:
  "fst (processPage \<lparr>pageSize = 64, maxBytes = 128, decisionWait = 10\<rparr> 64 (\<lambda>_. 0) (\<lambda>_. None) None
     (\<lambda>_. (empty_interest, 20))
     (slot_bytes 64 (Small [(True, \<lparr>wr_traceID = replicate 16 1, wr_data = [7], wr_insertedAt = 5\<rparr>)])) 0 False)"
proof -
  let ?cfg = "\<lparr>pageSize = 64, maxBytes = 128, decisionWait = 10\<rparr>"
  let ?r = "\<lparr>wr_traceID = replicate 16 1, wr_data = [7], wr_insertedAt = 5\<rparr> :: writeReq"
  have cfg: "cfg_ok ?cfg" by (simp add: cfg_ok_def hdrSize_def)
  have "replicate 16 (1 :: byte) \<noteq> tombstoneID" "replicate 16 (1 :: byte) \<noteq> emptyID" by code_simp+
  then have "storable ?r" by (simp add: storable_def)
  then have ok: "slot_ok (pageSize ?cfg) (Small [(True, ?r)])" by (simp add: hdrSize_def)
  have "resolve_all ?cfg (pressure ?cfg 64 False) (\<lambda>_. (empty_interest, 20)) 0 [(True, ?r)]
      = ([(False, ?r)], [EvictObs 15], [])"
    by code_simp
  from processPage_small [OF cfg ok this] show ?thesis by simp
qed

end
