(* ===== verification/Buffer_Ring.thy ===== *)
theory Buffer_Ring
  imports Buffer_Scan
begin

text \<open>
  The ring of the span buffer as both goroutines see it. \<open>ring_ok\<close> says that the counted part of
  the file is the image of a list of slots, followed by the pages the writer has written but not
  yet counted, and where both heads stand. The lemmas say what each access of the writer (write
  a page, count it) and of the sweeper (copy the head page, tombstone records in the copy, write
  it back, free it) does to that picture.
\<close>

definition cur_ring :: "nat \<Rightarrow> bytes option \<Rightarrow> bytes \<Rightarrow> bytes" where
  "cur_ring pg hv phys = (case hv of None \<Rightarrow> phys | Some sc \<Rightarrow> sc @ drop pg phys)"

text \<open>
  \<open>unc\<close>: bytes written behind the counted part; \<open>res\<close>: bytes the writer has made sure are free;
  \<open>hv\<close>: the sweeper's private copy of the head page while it scans it.
\<close>

definition ring_ok :: "bufferCfg \<Rightarrow> slot list \<Rightarrow> (int \<Rightarrow> byte) \<Rightarrow> int \<Rightarrow> int \<Rightarrow> int \<Rightarrow> bytes \<Rightarrow> int \<Rightarrow>
    bytes option \<Rightarrow> bool" where
  "ring_ok cfg slots f u rh wh unc res hv \<longleftrightarrow>
     (\<forall>x \<in> set slots. slot_ok (pageSize cfg) x) \<and>
     int (length (ring_bytes (pageSize cfg) slots)) = u \<and>
     0 \<le> rh \<and> rh < maxBytes cfg \<and> int (pageSize cfg) dvd rh \<and>
     u + res \<le> maxBytes cfg \<and> int (length unc) \<le> res \<and> pageSize cfg dvd length unc \<and>
     (hv \<noteq> None \<longrightarrow> int (pageSize cfg) \<le> u) \<and>
     cur_ring (pageSize cfg) hv (ring_at f (maxBytes cfg) rh (nat u)) = ring_bytes (pageSize cfg) slots \<and>
     ring_at f (maxBytes cfg) (rh + u) (length unc) = unc \<and>
     wh = (rh + u + int (length unc)) mod maxBytes cfg"

definition head_page :: "bufferCfg \<Rightarrow> (int \<Rightarrow> byte) \<Rightarrow> int \<Rightarrow> bytes" where
  "head_page cfg f rh = ring_at f (maxBytes cfg) rh (pageSize cfg)"

lemma length_head_page [simp]: "length (head_page cfg f rh) = pageSize cfg"
  by (simp add: head_page_def)

lemma ring_ok_used:
  assumes "ring_ok cfg slots f u rh wh unc res hv"
  shows "0 \<le> u" and "0 \<le> res" and "u \<le> maxBytes cfg" and "\<forall>x \<in> set slots. slot_ok (pageSize cfg) x"
  using assms by (auto simp: ring_ok_def)

lemma ring_ok_aligned:
  assumes "cfg_ok cfg" and "ring_ok cfg slots f u rh wh unc res hv"
  shows "int (pageSize cfg) dvd u" and "int (pageSize cfg) dvd wh" and "0 \<le> wh" and
    "wh + int (pageSize cfg) \<le> maxBytes cfg" and "rh + int (pageSize cfg) \<le> maxBytes cfg"
proof -
  note c = cfg_ok_pos [OF assms(1)]
  have d: "int (pageSize cfg) dvd maxBytes cfg" using assms(1) by (simp add: cfg_ok_def)
  show u: "int (pageSize cfg) dvd u"
    using assms(2) ring_bytes_dvd [of "pageSize cfg" slots] c by (auto simp: ring_ok_def int_dvd_int_iff)
  have "int (pageSize cfg) dvd rh + u + int (length unc)"
    using assms(2) u by (auto simp: ring_ok_def intro!: dvd_add)
  then show "int (pageSize cfg) dvd wh" "wh + int (pageSize cfg) \<le> maxBytes cfg"
    using assms(2) d c aligned_mod_room by (auto simp: ring_ok_def dvd_mod)
  show "0 \<le> wh" "rh + int (pageSize cfg) \<le> maxBytes cfg"
    using assms(2) c d aligned_room by (auto simp: ring_ok_def)
qed

lemma nonempty_used:
  assumes "cfg_ok cfg" and "ring_ok cfg slots f u rh wh unc res hv"
  shows "slots \<noteq> [] \<longleftrightarrow> u \<noteq> 0" and "slots = sl # rest \<Longrightarrow> int (slot_pages (pageSize cfg) sl * pageSize cfg) \<le> u"
    and "slots \<noteq> [] \<Longrightarrow> int (pageSize cfg) \<le> u"
proof -
  note c = cfg_ok_pos [OF assms(1)]
  show 1: "int (slot_pages (pageSize cfg) sl * pageSize cfg) \<le> u" if "slots = sl # rest" for sl rest
    using assms(2) that c by (auto simp: ring_ok_def)
  show 2: "int (pageSize cfg) \<le> u" if ne: "slots \<noteq> []"
  proof -
    obtain sl rest where sl: "slots = sl # rest" using ne by (cases slots) auto
    then have "0 < slot_pages (pageSize cfg) sl"
      using assms(2) c slot_pages_pos by (auto simp: ring_ok_def)
    then have "pageSize cfg \<le> slot_pages (pageSize cfg) sl * pageSize cfg" by simp
    with 1 [OF sl] show ?thesis by linarith
  qed
  show "slots \<noteq> [] \<longleftrightarrow> u \<noteq> 0"
    using 2 c assms(2) by (auto simp: ring_ok_def)
qed

text \<open>The writer writes one more page behind the counted part.\<close>

lemma ring_write:
  assumes cfg: "cfg_ok cfg" and ok: "ring_ok cfg slots f u rh wh unc res hv"
    and bs: "length bs = pageSize cfg" and room: "int (length unc) + int (pageSize cfg) \<le> res"
  shows "ring_ok cfg slots (file_write f wh bs) u rh (next_page cfg wh) (unc @ bs) res hv"
    and "slots \<noteq> [] \<Longrightarrow> head_page cfg (file_write f wh bs) rh = head_page cfg f rh"
proof -
  let ?M = "maxBytes cfg" and ?f = "file_write f wh bs"
  define n where "n = nat u + length unc"
  have u0: "0 \<le> u" using ring_ok_used [OF ok] by simp
  have wh: "wh = (rh + int n) mod ?M" using ok u0 by (simp add: n_def ring_ok_def add.assoc)
  have fits: "wh + int (length bs) \<le> ?M" using ring_ok_aligned [OF cfg ok] bs by simp
  have total: "int n + int (length bs) \<le> ?M" using ok room bs u0 by (simp add: n_def ring_ok_def)
  have M: "0 < ?M" using cfg_ok_pos [OF cfg] by simp
  have app: "ring_at ?f ?M rh (n + length bs) = ring_at f ?M rh n @ bs"
    using ring_append [of ?M rh n bs f] M fits total by (simp add: wh)
  have old: "ring_at ?f ?M rh m = ring_at f ?M rh m" if "m \<le> n" for m
    using ring_write_disjoint [OF wh fits that total] .
  have "ring_at ?f ?M (rh + u) (length unc + length bs) = unc @ bs"
  proof -
    have "drop (nat u) (ring_at ?f ?M rh (n + length bs)) = drop (nat u) (ring_at f ?M rh n) @ bs"
      unfolding app by (simp add: n_def)
    moreover have "ring_at f ?M (rh + u) (length unc) = unc" using ok by (auto simp: ring_ok_def)
    ultimately show ?thesis using u0 by (simp add: drop_ring_at n_def)
  qed
  then show "ring_ok cfg slots ?f u rh (next_page cfg wh) (unc @ bs) res hv"
    using ok bs room old [of "nat u"] mod_shift [of "rh + u + int (length unc)" ?M 0 "int (pageSize cfg)"]
    by (simp add: ring_ok_def next_page_def n_def add.assoc)
  show "head_page cfg ?f rh = head_page cfg f rh" if "slots \<noteq> []"
    using nonempty_used(3) [OF cfg ok that] old [of "pageSize cfg"]
    by (simp add: head_page_def n_def)
qed

text \<open>The writer counts what it has written: a new slot at the end.\<close>

lemma ring_count:
  assumes ok: "ring_ok cfg slots f u rh wh unc res hv" and sl: "slot_bytes (pageSize cfg) sl = unc"
    and "slot_ok (pageSize cfg) sl"
  shows "ring_ok cfg (slots @ [sl]) f (u + int (length unc)) rh wh [] 0 hv"
proof -
  have u: "0 \<le> u" using ring_ok_used [OF ok] by simp
  have "ring_at f (maxBytes cfg) rh (nat u + length unc) = ring_at f (maxBytes cfg) rh (nat u) @ unc"
    using ok u by (auto simp: ring_at_add ring_ok_def)
  then have "ring_at f (maxBytes cfg) rh (nat (u + int (length unc)))
      = ring_at f (maxBytes cfg) rh (nat u) @ unc"
    using u by (simp add: nat_add_distrib)
  moreover have "cur_ring (pageSize cfg) hv (ring_at f (maxBytes cfg) rh (nat u) @ unc)
      = cur_ring (pageSize cfg) hv (ring_at f (maxBytes cfg) rh (nat u)) @ unc"
    using ok u by (auto simp: cur_ring_def ring_ok_def split: option.split)
  ultimately show ?thesis
    using ok sl assms(3) by (auto simp: ring_ok_def add.assoc)
qed

text \<open>The sweeper copies the head page, tombstones records in its copy, and writes it back.\<close>

lemma ring_copy:
  assumes "cfg_ok cfg" and "ring_ok cfg slots f u rh wh unc res None" and "slots \<noteq> []"
  shows "ring_ok cfg slots f u rh wh unc res (Some (head_page cfg f rh))"
proof -
  have "int (pageSize cfg) \<le> u" using nonempty_used(3) [OF assms] .
  then have "head_page cfg f rh @ drop (pageSize cfg) (ring_at f (maxBytes cfg) rh (nat u))
      = ring_at f (maxBytes cfg) rh (nat u)"
    using take_ring_at [of "pageSize cfg" "nat u" f "maxBytes cfg" rh]
    by (metis append_take_drop_id head_page_def le_nat_iff order_trans zero_le_imp_eq_int of_nat_0_le_iff)
  with assms(2) \<open>int (pageSize cfg) \<le> u\<close> show ?thesis by (auto simp: ring_ok_def cur_ring_def)
qed

lemma ring_bury:
  assumes ok: "ring_ok cfg (sl # rest) f u rh wh unc res (Some sc)" and "length sc = pageSize cfg"
    and "slot_bytes (pageSize cfg) sl' = sc' @ drop (pageSize cfg) (slot_bytes (pageSize cfg) sl)"
    and "length sc' = pageSize cfg" and "slot_ok (pageSize cfg) sl'"
    and "pageSize cfg \<le> length (slot_bytes (pageSize cfg) sl)"
  shows "ring_ok cfg (sl' # rest) f u rh wh unc res (Some sc')"
proof -
  have "sc @ drop (pageSize cfg) (ring_at f (maxBytes cfg) rh (nat u)) =
      slot_bytes (pageSize cfg) sl @ ring_bytes (pageSize cfg) rest"
    using ok by (auto simp: ring_ok_def cur_ring_def)
  then have "drop (pageSize cfg) (sc @ drop (pageSize cfg) (ring_at f (maxBytes cfg) rh (nat u))) =
      drop (pageSize cfg) (slot_bytes (pageSize cfg) sl @ ring_bytes (pageSize cfg) rest)" by simp
  then have "drop (pageSize cfg) (ring_at f (maxBytes cfg) rh (nat u)) =
      drop (pageSize cfg) (slot_bytes (pageSize cfg) sl) @ ring_bytes (pageSize cfg) rest"
    using assms by simp
  with assms show ?thesis by (auto simp: ring_ok_def cur_ring_def)
qed

lemma ring_writeback:
  assumes cfg: "cfg_ok cfg" and ok: "ring_ok cfg slots f u rh wh unc res (Some sc)"
    and sc: "length sc = pageSize cfg"
  shows "ring_ok cfg slots (file_write f rh sc) u rh wh unc res None"
proof -
  let ?M = "maxBytes cfg" and ?f = "file_write f rh sc"
  have pu: "int (pageSize cfg) \<le> u" and u0: "0 \<le> u" using ok ring_ok_used [OF ok] by (auto simp: ring_ok_def)
  define m where "m = nat u + length unc - pageSize cfg"
  have n: "length sc + m = nat u + length unc" using sc pu by (simp add: m_def)
  have "int (length sc) + int m = u + int (length unc)"
    using u0 by (metis n int_nat_eq of_nat_add)
  then have "int (length sc) + int m \<le> ?M" using ok by (simp add: ring_ok_def)
  then have "ring_at ?f ?M rh (length sc + m) = sc @ ring_at f ?M (rh + int (length sc)) m"
    using ok ring_ok_aligned [OF cfg ok] sc by (intro ring_overwrite) (auto simp: ring_ok_def)
  then have all: "ring_at ?f ?M rh (nat u + length unc) =
      sc @ drop (pageSize cfg) (ring_at f ?M rh (nat u + length unc))"
    using n sc by (simp add: drop_ring_at) (metis add_diff_cancel_left')
  have p: "pageSize cfg \<le> nat u" using pu by simp
  have "take (nat u) (ring_at ?f ?M rh (nat u + length unc)) =
      sc @ drop (pageSize cfg) (ring_at f ?M rh (nat u))"
    unfolding all using sc p by (simp add: take_drop take_ring_at)
  moreover have "drop (nat u) (ring_at ?f ?M rh (nat u + length unc)) = unc"
    unfolding all using sc p ok u0 by (auto simp: drop_ring_at ring_ok_def)
  ultimately show ?thesis
    using ok u0 by (auto simp: ring_ok_def cur_ring_def take_ring_at drop_ring_at)
qed

lemma ring_keep_copy:
  assumes "ring_ok cfg slots f u rh wh unc res (Some (head_page cfg f rh))"
  shows "ring_ok cfg slots f u rh wh unc res None"
proof -
  have "int (pageSize cfg) \<le> u" using assms by (simp add: ring_ok_def)
  then have p: "pageSize cfg \<le> nat u" by simp
  have "head_page cfg f rh @ drop (pageSize cfg) (ring_at f (maxBytes cfg) rh (nat u))
      = ring_at f (maxBytes cfg) rh (nat u)"
    unfolding head_page_def take_ring_at [OF p, symmetric] by simp
  with assms show ?thesis by (auto simp: ring_ok_def cur_ring_def)
qed

text \<open>The sweeper frees the pages of the first slot.\<close>

lemma ring_free:
  assumes cfg: "cfg_ok cfg" and ok: "ring_ok cfg (sl # rest) f u rh wh unc res None"
    and n: "n = slot_pages (pageSize cfg) sl * pageSize cfg"
  shows "ring_ok cfg rest f (u - int n) ((rh + int n) mod maxBytes cfg) wh unc res None"
proof -
  let ?M = "maxBytes cfg"
  have c: "0 < pageSize cfg" "0 < ?M" "int (pageSize cfg) dvd ?M"
    using cfg cfg_ok_pos [OF cfg] by (auto simp: cfg_ok_def)
  have len: "length (slot_bytes (pageSize cfg) sl) = n" using ok c n by (simp add: ring_ok_def)
  have le: "int n \<le> u" using nonempty_used(2) [OF cfg ok refl] n by simp
  have "drop n (ring_at f ?M rh (nat u)) = ring_bytes (pageSize cfg) rest"
    using ok len by (auto simp: ring_ok_def cur_ring_def)
  then have "ring_at f ?M (rh + int n) (nat (u - int n)) = ring_bytes (pageSize cfg) rest"
    using le by (simp add: drop_ring_at nat_diff_distrib')
  moreover have "int (pageSize cfg) dvd (rh + int n) mod ?M"
    using ok c n by (intro dvd_mod dvd_add) (auto simp: ring_ok_def)
  moreover have "ring_at f ?M ((rh + int n) mod ?M + (u - int n)) (length unc) = unc"
    using ok by (auto simp: ring_at_mod_add ring_ok_def)
  moreover have "((rh + int n) mod ?M + (u - int n) + int (length unc)) mod ?M = wh"
    using ok mod_shift [of "rh + int n" ?M "u - int n" "int (length unc)"] by (simp add: ring_ok_def)
  moreover have "u - int n = int (length (ring_bytes (pageSize cfg) rest))"
    using ok len by (auto simp: ring_ok_def)
  ultimately show ?thesis
    using ok c le by (simp add: ring_ok_def cur_ring_def)
qed

end
