(* ===== verification/Buffer_Refinement.thy ===== *)
theory Buffer_Refinement
  imports Buffer_Ring
begin

text \<open>
  The span buffer implements \<open>BufferSpec\<close>. \<open>writer_ok\<close> says what the stage and the writer's local
  variables hold at each of its program points, \<open>sweeper_ok\<close> the same for the sweeper, \<open>flags_ok\<close>
  how the shutdown flags hang together; \<open>buf_inv\<close> joins them with \<open>ring_ok\<close>. The lemmas give the
  invariant after each step, with the slots and staged requests it leaves; \<open>buf_rel\<close> relates a
  state to the specification, and \<open>buf_simulation\<close> is the simulation of every step without an I/O
  fault.
\<close>

section \<open>The writer\<close>

definition live :: "writeReq list \<Rightarrow> (bool \<times> writeReq) list" where
  "live rs = map (Pair True) rs"

lemma live_simps [simp]:
  "live [] = []" "live (rs @ [r]) = live rs @ [(True, r)]"
  "map snd (filter fst (live rs)) = rs" "length (live rs) = length rs"
  by (simp_all add: live_def filter_map o_def)

lemma live_storable: "(\<forall>(b, r) \<in> set (live rs). storable r) \<longleftrightarrow> (\<forall>r \<in> set rs. storable r)"
  by (auto simp: live_def)

definition is_large :: "bufferCfg \<Rightarrow> writeReq \<Rightarrow> bool" where
  "is_large cfg r \<longleftrightarrow> pageSize cfg < hdrSize + length (wr_data r)"

text \<open>What \<open>Write\<close> lets into the channel.\<close>

definition req_ok :: "bufferCfg \<Rightarrow> writeReq \<Rightarrow> bool" where
  "req_ok cfg r \<longleftrightarrow> storable r \<and> (is_large cfg r \<longrightarrow> chunkBytes cfg r \<le> maxBytes cfg)"

fun after_reqs :: "afterFlush \<Rightarrow> writeReq list" where
  "after_reqs (FSmall r) = [r]"
| "after_reqs (FLarge r) = [r]"
| "after_reqs _ = []"

fun after_ok :: "bufferCfg \<Rightarrow> afterFlush \<Rightarrow> bool" where
  "after_ok cfg (FSmall r) \<longleftrightarrow> req_ok cfg r \<and> \<not> is_large cfg r"
| "after_ok cfg (FLarge r) \<longleftrightarrow> req_ok cfg r \<and> is_large cfg r"
| "after_ok cfg _ \<longleftrightarrow> True"

text \<open>Requests the writer has received and neither staged nor counted.\<close>

fun held :: "wpc \<Rightarrow> writeReq list" where
  "held (WFlush k) = after_reqs k"
| "held (WFlushed k) = after_reqs k"
| "held (WLargeWait r) = [r]"
| "held (WLargeFirst r) = [r]"
| "held (WLargeCont r off) = [r]"
| "held (WCommit r) = [r]"
| "held _ = []"

text \<open>Bytes of the ring written but not counted, and bytes known to be free.\<close>

definition cont_bytes :: "bufferCfg \<Rightarrow> writeReq \<Rightarrow> nat \<Rightarrow> bytes" where
  "cont_bytes cfg r off =
     take (if off < length (wr_data r) then off + hdrSize
           else numChunks (pageSize cfg) (length (wr_data r)) * pageSize cfg)
       (slot_bytes (pageSize cfg) (Large True r))"

fun uncounted :: "bufferCfg \<Rightarrow> bytes \<Rightarrow> wpc \<Rightarrow> bytes" where
  "uncounted cfg st (WFlushed k) = st"
| "uncounted cfg st (WLargeCont r off) = cont_bytes cfg r off"
| "uncounted cfg st (WCommit r) = slot_bytes (pageSize cfg) (Large True r)"
| "uncounted cfg st _ = []"

fun reserved :: "bufferCfg \<Rightarrow> wpc \<Rightarrow> int" where
  "reserved cfg (WFlushed k) = int (pageSize cfg)"
| "reserved cfg (WLargeFirst r) = chunkBytes cfg r"
| "reserved cfg (WLargeCont r off) = chunkBytes cfg r"
| "reserved cfg (WCommit r) = chunkBytes cfg r"
| "reserved cfg _ = 0"

definition large_ok :: "bufferCfg \<Rightarrow> writeReq list \<Rightarrow> writeReq \<Rightarrow> bool" where
  "large_ok cfg staged r \<longleftrightarrow> staged = [] \<and> req_ok cfg r \<and> is_large cfg r"

fun wpc_ok :: "bufferCfg \<Rightarrow> writeReq list \<Rightarrow> bytes \<Rightarrow> wpc \<Rightarrow> bool" where
  "wpc_ok cfg staged st (WFlush k) \<longleftrightarrow> after_ok cfg k \<and> slot_bytes (pageSize cfg) (Small (live staged)) = st"
| "wpc_ok cfg staged st (WFlushed k) \<longleftrightarrow> after_ok cfg k \<and> slot_bytes (pageSize cfg) (Small (live staged)) = st"
| "wpc_ok cfg staged st (WLargeWait r) \<longleftrightarrow> large_ok cfg staged r"
| "wpc_ok cfg staged st (WLargeFirst r) \<longleftrightarrow> large_ok cfg staged r"
| "wpc_ok cfg staged st (WLargeCont r off) \<longleftrightarrow> large_ok cfg staged r \<and>
     (off < length (wr_data r) \<longrightarrow> pageSize cfg dvd off + hdrSize \<and> pageSize cfg \<le> off + hdrSize)"
| "wpc_ok cfg staged st (WCommit r) \<longleftrightarrow> large_ok cfg staged r"
| "wpc_ok cfg staged st WDone \<longleftrightarrow> staged = []"
| "wpc_ok cfg staged st WPanic \<longleftrightarrow> False"
| "wpc_ok cfg staged st WSelect \<longleftrightarrow> True"

definition stage_ok :: "bufferCfg \<Rightarrow> writeReq list \<Rightarrow> bytes \<Rightarrow> nat \<Rightarrow> bool" where
  "stage_ok cfg staged st n \<longleftrightarrow> length st = pageSize cfg \<and> n \<le> pageSize cfg \<and>
     take n st = enc_entries (live staged) \<and> length (enc_entries (live staged)) = n \<and>
     (\<forall>r \<in> set staged. storable r)"

section \<open>The sweeper\<close>

definition head_view :: "spc \<Rightarrow> bytes option" where
  "head_view pc = (case pc of SScan u press pos p \<Rightarrow> Some (ps_scratch p)
     | SWriteback p \<Rightarrow> Some (ps_scratch p) | _ \<Rightarrow> None)"

text \<open>The private copy: a page long, and unchanged unless it is to be written back.\<close>

definition copy_ok :: "bufferCfg \<Rightarrow> bytes \<Rightarrow> pageScan \<Rightarrow> bool" where
  "copy_ok cfg hd_pg p \<longleftrightarrow> length (ps_scratch p) = pageSize cfg \<and>
     (\<not> ps_needsWriteback p \<longrightarrow> ps_scratch p = hd_pg)"

fun scan_ok :: "slot \<Rightarrow> nat \<Rightarrow> pageScan \<Rightarrow> bool" where
  "scan_ok (Small es) pos p \<longleftrightarrow> (\<exists>es1 es2. es = es1 @ es2 \<and> pos = length (enc_entries es1) \<and>
     (ps_fullyConsumed p \<longleftrightarrow> filter fst es1 = []))"
| "scan_ok (Large b r) pos p \<longleftrightarrow> pos = 0 \<and> ps_fullyConsumed p"

fun sweeper_ok :: "bufferCfg \<Rightarrow> slot list \<Rightarrow> bytes \<Rightarrow> spc \<Rightarrow> bool" where
  "sweeper_ok cfg slots hd_pg SRead \<longleftrightarrow> slots \<noteq> []"
| "sweeper_ok cfg slots hd_pg (SProcess scratch) \<longleftrightarrow> slots \<noteq> [] \<and> scratch = hd_pg"
| "sweeper_ok cfg slots hd_pg (SScan u press pos p) \<longleftrightarrow>
     (\<exists>sl rest. slots = sl # rest \<and> int (slot_pages (pageSize cfg) sl * pageSize cfg) \<le> u \<and>
        copy_ok cfg hd_pg p \<and> ps_chunksConsumed p = 1 \<and> scan_ok sl pos p)"
| "sweeper_ok cfg slots hd_pg (SWriteback p) \<longleftrightarrow>
     (\<exists>sl rest. slots = sl # rest \<and> copy_ok cfg hd_pg p \<and>
        (ps_fullyConsumed p \<longrightarrow> slot_live sl = [] \<and> ps_chunksConsumed p = slot_pages (pageSize cfg) sl))"
| "sweeper_ok cfg slots hd_pg (SFree n) \<longleftrightarrow>
     (\<exists>sl rest. slots = sl # rest \<and> slot_live sl = [] \<and> n = slot_pages (pageSize cfg) sl)"
| "sweeper_ok cfg slots hd_pg _ \<longleftrightarrow> True"

section \<open>The invariant\<close>

definition flags_ok :: "bufferState \<Rightarrow> bool" where
  "flags_ok s \<longleftrightarrow> (draining s \<longrightarrow> closeCh s) \<and> (writerDone s \<longleftrightarrow> wpc s = WDone) \<and>
     (closing s \<longrightarrow> wpc s = WDone) \<and> (wpc s = WDone \<or> wpc s \<in> {WFlush FExit, WFlushed FExit} \<longrightarrow> draining s)"

definition buf_inv :: "bufferCfg \<Rightarrow> slot list \<Rightarrow> writeReq list \<Rightarrow> bufferState \<Rightarrow> bool" where
  "buf_inv cfg slots staged s \<longleftrightarrow>
     ring_ok cfg slots (bfile s) (used s) (rHead s) (wHead s) (uncounted cfg (stage s) (wpc s))
       (reserved cfg (wpc s)) (head_view (spc s)) \<and>
     stage_ok cfg staged (stage s) (stageN s) \<and> wpc_ok cfg staged (stage s) (wpc s) \<and>
     sweeper_ok cfg slots (head_page cfg (bfile s) (rHead s)) (spc s) \<and>
     (\<forall>r \<in> set (writeCh s). req_ok cfg r) \<and> flags_ok s"

lemma init_inv: "cfg_ok cfg \<Longrightarrow> buf_inv cfg [] [] (initState cfg f0 now)"
  using cfg_ok_pos [of cfg]
  by (simp add: buf_inv_def initState_def ring_ok_def stage_ok_def flags_ok_def head_view_def cur_ring_def)

section \<open>Steps of the writer\<close>

lemma stage_append:
  assumes ok: "stage_ok cfg staged st n" and st: "storable r"
    and fit: "n + (hdrSize + length (wr_data r)) \<le> pageSize cfg"
  shows "stage_ok cfg (staged @ [r]) (copy_at (put_header st n r) (n + hdrSize) (wr_data r))
           (n + (hdrSize + length (wr_data r)))"
proof -
  have len: "length st = pageSize cfg" and pre: "take n st = enc_entries (live staged)"
    using ok by (simp_all add: stage_ok_def)
  have tid: "length (wr_traceID r) = 16" using st by (rule storable_len)
  have hdr: "put_header st n r = take n st @ enc_header True r @ drop (n + 28) st"
    using put_header_bytes [OF tid] fit len by simp
  have hlen: "length (put_header st n r) = pageSize cfg"
    using hdr fit len tid by (simp add: hdrSize_def)
  have "take (n + hdrSize) (put_header st n r) = take n st @ enc_header True r"
    using hdr fit len tid by (simp add: hdrSize_def)
  then have "take (n + hdrSize + length (wr_data r)) (copy_at (put_header st n r) (n + hdrSize) (wr_data r)) =
      enc_entries (live (staged @ [r]))"
    using copy_at_prefix [of "n + hdrSize" "wr_data r" "put_header st n r"] hlen fit pre
    by (simp add: enc_entry_def)
  then show ?thesis
    using ok st fit hlen tid by (simp add: stage_ok_def add.assoc)
qed

lemma stage_clear:
  assumes "stage_ok cfg staged st n"
  shows "clear_from st n = slot_bytes (pageSize cfg) (Small (live staged))"
    and "stage_ok cfg staged (clear_from st n) n"
  using assms by (auto simp: stage_ok_def clear_from_def pad_def)

lemma stage_slot_ok:
  "stage_ok cfg staged st n \<Longrightarrow> slot_ok (pageSize cfg) (Small (live staged))"
  by (simp add: stage_ok_def live_storable)

lemma stage_empty: "length st = pageSize cfg \<Longrightarrow> stage_ok cfg [] st 0"
  by (simp add: stage_ok_def)

lemma stage_zero: "stage_ok cfg staged st 0 \<Longrightarrow> staged = []"
proof (cases staged)
  case (Cons r rs)
  assume ok: "stage_ok cfg staged st 0"
  then have "length (wr_traceID r) = 16" using Cons by (simp add: stage_ok_def storable_len)
  then have "0 < length (enc_entries (live staged))" using Cons by (simp add: live_def hdrSize_def)
  with ok show ?thesis by (simp add: stage_ok_def)
qed

text \<open>From a writer that is between two requests.\<close>

lemma inv_stage_record:
  assumes "buf_inv cfg slots staged s" and "wpc s = WSelect" and "req_ok cfg r"
    and "stageN s + (hdrSize + length (wr_data r)) \<le> pageSize cfg"
  shows "buf_inv cfg slots (staged @ [r]) (stage_record cfg r s)"
  using assms stage_append [of cfg staged "stage s" "stageN s" r]
  by (auto simp: buf_inv_def stage_record_def flags_ok_def req_ok_def)

lemma inv_enter_flush:
  assumes "buf_inv cfg slots staged s" and "wpc s = WSelect" and "after_ok cfg k"
    and "k = FExit \<Longrightarrow> draining s"
  shows "buf_inv cfg slots staged (enter_flush cfg k s)" and "wpc (enter_flush cfg k s) = WFlush k"
proof -
  have st: "stage_ok cfg staged (stage s) (stageN s)" using assms(1) by (simp add: buf_inv_def)
  then have n: "\<not> stageN s > pageSize cfg" by (simp add: stage_ok_def)
  then show "wpc (enter_flush cfg k s) = WFlush k" by (simp add: enter_flush_def)
  show "buf_inv cfg slots staged (enter_flush cfg k s)"
    using assms stage_clear [OF st] n by (auto simp: buf_inv_def enter_flush_def flags_ok_def)
qed

lemma inv_large_start:
  assumes "buf_inv cfg slots [] s" and "wpc s = WSelect" and "req_ok cfg r" and "is_large cfg r"
  shows "buf_inv cfg slots [] (large_start cfg r s)" and "wpc (large_start cfg r s) = WLargeWait r"
proof -
  have "\<not> chunkBytes cfg r > maxBytes cfg" using assms(3,4) by (simp add: req_ok_def)
  with assms show "buf_inv cfg slots [] (large_start cfg r s)" "wpc (large_start cfg r s) = WLargeWait r"
    by (auto simp: buf_inv_def large_start_def flags_ok_def large_ok_def)
qed

lemma inv_writer_exit:
  assumes "buf_inv cfg slots [] s" and "wpc s = WSelect" and "draining s"
  shows "buf_inv cfg slots [] (writer_exit s)"
  using assms by (auto simp: buf_inv_def writer_exit_def flags_ok_def)

text \<open>\<open>handle\<close>, and the return of a successful flush, only look at the stage.\<close>

lemma handle_wpc: "handle cfg r (s\<lparr>wpc := w\<rparr>) = handle cfg r s"
  by (simp add: handle_def enter_flush_def stage_record_def large_start_def)

lemma flush_returned_wpc: "flush_returned cfg k (s\<lparr>wpc := w\<rparr>) = flush_returned cfg k s"
  by (simp add: flush_returned_def stage_record_def large_start_def writer_exit_def split: afterFlush.split)

section \<open>The bag of unresolved requests\<close>

definition bag :: "slot list \<Rightarrow> writeReq list \<Rightarrow> bufferState \<Rightarrow> writeReq multiset" where
  "bag slots staged s = mset (writeCh s) + mset (held (wpc s)) + mset staged +
     mset (concat (map slot_live slots))"

definition inv_bag :: "bufferCfg \<Rightarrow> writeReq multiset \<Rightarrow> bufferState \<Rightarrow> bool" where
  "inv_bag cfg B s \<longleftrightarrow> (\<exists>slots staged. buf_inv cfg slots staged s \<and> bag slots staged s = B)"

lemma inv_bagI: "buf_inv cfg slots staged s \<Longrightarrow> bag slots staged s = B \<Longrightarrow> inv_bag cfg B s"
  by (auto simp: inv_bag_def)

lemma inv_bagE:
  assumes "inv_bag cfg B s"
  obtains slots staged where "buf_inv cfg slots staged s" and "bag slots staged s = B"
  using assms by (auto simp: inv_bag_def)

lemma handle_inv:
  assumes "buf_inv cfg slots staged s" and "wpc s = WSelect" and "req_ok cfg r"
  shows "inv_bag cfg (bag slots staged s + {#r#}) (handle cfg r s)"
proof (cases "is_large cfg r")
  case False
  then have small: "hdrSize + length (wr_data r) \<le> pageSize cfg" by (simp add: is_large_def)
  show ?thesis
  proof (cases "stageN s + (hdrSize + length (wr_data r)) > pageSize cfg")
    case True
    have k: "after_ok cfg (FSmall r)" using assms False by simp
    note fl = inv_enter_flush [OF assms(1,2) k]
    have "bag slots staged (enter_flush cfg (FSmall r) s) = bag slots staged s + {#r#}"
      using fl(2) assms(2) by (simp add: bag_def) (simp add: enter_flush_def)
    then show ?thesis using fl(1) True small by (intro inv_bagI) (auto simp: handle_def)
  next
    case fits: False
    then have "buf_inv cfg slots (staged @ [r]) (stage_record cfg r s)"
      using assms by (intro inv_stage_record) auto
    moreover have "bag slots (staged @ [r]) (stage_record cfg r s) = bag slots staged s + {#r#}"
      using fits assms(2) by (simp add: bag_def stage_record_def)
    ultimately show ?thesis using small fits by (intro inv_bagI) (auto simp: handle_def)
  qed
next
  case True
  then have big: "\<not> hdrSize + length (wr_data r) \<le> pageSize cfg" by (simp add: is_large_def)
  show ?thesis
  proof (cases "stageN s > 0")
    case pos: True
    have k: "after_ok cfg (FLarge r)" using assms True by simp
    note fl = inv_enter_flush [OF assms(1,2) k]
    have "bag slots staged (enter_flush cfg (FLarge r) s) = bag slots staged s + {#r#}"
      using fl(2) assms(2) by (simp add: bag_def) (simp add: enter_flush_def)
    then show ?thesis using fl(1) pos big by (intro inv_bagI) (auto simp: handle_def)
  next
    case False
    then have "stage_ok cfg staged (stage s) 0" using assms(1) by (simp add: buf_inv_def)
    then have e: "staged = []" by (rule stage_zero)
    note l = inv_large_start [OF assms(1) [unfolded e] assms(2,3) True]
    have "bag slots [] (large_start cfg r s) = bag slots [] s + {#r#}"
      using l(2) assms(2) by (simp add: bag_def) (simp add: large_start_def)
    then show ?thesis using l(1) False big e by (intro inv_bagI) (auto simp: handle_def)
  qed
qed

section \<open>Flushing the stage\<close>

lemma sweeper_append: "sweeper_ok cfg slots pg pc \<Longrightarrow> sweeper_ok cfg (slots @ xs) pg pc"
  by (cases pc) auto

lemma sweeper_idle: "sweeper_ok cfg [] pg pc \<Longrightarrow> sweeper_ok cfg [] pg' pc"
  by (cases pc) auto

lemma sweeper_write:
  assumes "cfg_ok cfg" and "ring_ok cfg slots f u rh wh unc res hv" and "length bs = pageSize cfg"
    and "int (length unc) + int (pageSize cfg) \<le> res" and "sweeper_ok cfg slots (head_page cfg f rh) pc"
  shows "sweeper_ok cfg slots (head_page cfg (file_write f wh bs) rh) pc"
  using assms ring_write(2) [OF assms(1-4)] sweeper_idle by (cases "slots = []") auto

lemma ring_reserve:
  "ring_ok cfg slots f u rh wh [] 0 hv \<Longrightarrow> 0 \<le> n \<Longrightarrow> u + n \<le> maxBytes cfg \<Longrightarrow>
   ring_ok cfg slots f u rh wh [] n hv"
  by (simp add: ring_ok_def)

lemma ring_release: "ring_ok cfg slots f u rh wh [] n hv \<Longrightarrow> ring_ok cfg slots f u rh wh [] 0 hv"
  by (auto simp: ring_ok_def)

lemma inv_flush_write:
  assumes cfg: "cfg_ok cfg" and I: "buf_inv cfg slots staged s" and pc: "wpc s = WFlush k"
    and room: "room_for cfg (int (pageSize cfg)) s"
  shows "buf_inv cfg slots staged (flush_write cfg None k s)"
proof -
  have ok: "ring_ok cfg slots (bfile s) (used s) (rHead s) (wHead s) [] (int (pageSize cfg)) (head_view (spc s))"
    by (rule ring_reserve) (use I pc room in \<open>simp_all add: buf_inv_def room_for_def\<close>)
  have len: "length (stage s) = pageSize cfg" using I by (simp add: buf_inv_def stage_ok_def)
  have "flush_write cfg None k s = s\<lparr>bfile := file_write (bfile s) (wHead s) (stage s),
      wHead := next_page cfg (wHead s), wpc := WFlushed k\<rparr>"
    by (simp add: flush_write_def WriteAt_def)
  then show ?thesis
    using I pc ring_write(1) [OF cfg ok len] sweeper_write [OF cfg ok len]
    by (simp add: buf_inv_def flags_ok_def)
qed

lemma inv_flush_counted:
  assumes I: "buf_inv cfg slots staged s" and pc: "wpc s = WFlushed k"
  shows "buf_inv cfg (slots @ [Small (live staged)]) []
    (s\<lparr>used := used s + int (pageSize cfg), stageN := 0, wakeup := True, wpc := WSelect\<rparr>)"
proof -
  have st: "stage_ok cfg staged (stage s) (stageN s)"
    and img: "slot_bytes (pageSize cfg) (Small (live staged)) = stage s"
    using I pc by (auto simp: buf_inv_def)
  have "ring_ok cfg slots (bfile s) (used s) (rHead s) (wHead s) (stage s) (int (pageSize cfg)) (head_view (spc s))"
    using I pc by (auto simp: buf_inv_def)
  from ring_count [OF this img stage_slot_ok [OF st]] show ?thesis
    using I pc st by (auto simp: buf_inv_def stage_ok_def flags_ok_def sweeper_append)
qed

lemma flush_returned_inv:
  assumes I: "buf_inv cfg slots [] s" and pc: "wpc s = WSelect" and k: "after_ok cfg k"
    and n: "stageN s = 0" and ex: "k = FExit \<Longrightarrow> draining s"
  shows "inv_bag cfg (bag slots [] s + mset (after_reqs k)) (flush_returned cfg k s)"
proof (cases k)
  case (FSmall r)
  then have fit: "stageN s + (hdrSize + length (wr_data r)) \<le> pageSize cfg" and r: "req_ok cfg r"
    using k n by (auto simp: is_large_def)
  have "buf_inv cfg slots [r] (stage_record cfg r s)"
    using inv_stage_record [OF I pc r fit] by simp
  then show ?thesis
    using fit pc FSmall by (intro inv_bagI) (auto simp: flush_returned_def bag_def stage_record_def)
next
  case (FLarge r)
  then have r: "req_ok cfg r" "is_large cfg r" using k by auto
  note l = inv_large_start [OF I pc r]
  have "bag slots [] (large_start cfg r s) = bag slots [] s + {#r#}"
    using l(2) pc by (simp add: bag_def) (simp add: large_start_def)
  with l(1) FLarge show ?thesis by (intro inv_bagI) (auto simp: flush_returned_def)
next
  case FTick
  moreover have "buf_inv cfg slots [] (s\<lparr>wpc := WSelect\<rparr>)"
    using I pc by (simp add: buf_inv_def flags_ok_def)
  ultimately show ?thesis
    using pc by (intro inv_bagI [of cfg slots "[]"]) (simp_all add: flush_returned_def bag_def)
next
  case FExit
  have "buf_inv cfg slots [] (writer_exit s)" using I pc ex FExit by (intro inv_writer_exit) auto
  then show ?thesis
    using pc FExit by (intro inv_bagI) (auto simp: flush_returned_def bag_def writer_exit_def)
qed

lemma flush_count_inv:
  assumes I: "buf_inv cfg slots staged s" and pc: "wpc s = WFlushed k"
  shows "inv_bag cfg (bag slots staged s) (flush_count cfg k s)"
proof -
  let ?s = "s\<lparr>used := used s + int (pageSize cfg), stageN := 0, wakeup := True, wpc := WSelect\<rparr>"
  have "after_ok cfg k" "k = FExit \<Longrightarrow> draining ?s" using I pc by (auto simp: buf_inv_def flags_ok_def)
  then have "inv_bag cfg (bag (slots @ [Small (live staged)]) [] ?s + mset (after_reqs k)) (flush_returned cfg k ?s)"
    using inv_flush_counted [OF I pc] by (intro flush_returned_inv) auto
  moreover have "flush_returned cfg k ?s = flush_count cfg k s"
    unfolding flush_count_def by (rule flush_returned_wpc)
  moreover have "bag (slots @ [Small (live staged)]) [] ?s + mset (after_reqs k) = bag slots staged s"
    using pc by (simp add: bag_def)
  ultimately show ?thesis by simp
qed

text \<open>The stage is dropped when the buffer is closed while it is full.\<close>

lemma flush_closed_inv:
  assumes I: "buf_inv cfg slots staged s" and pc: "wpc s = WFlush k"
  shows "\<exists>B. B \<subseteq># bag slots staged s \<and> inv_bag cfg B (flush_closed k s)"
proof -
  let ?s = "s\<lparr>stageN := 0, wpc := WSelect\<rparr>"
  have J: "buf_inv cfg slots [] ?s"
    using I pc by (auto simp: buf_inv_def stage_ok_def flags_ok_def)
  have sub: "bag slots [] ?s \<subseteq># bag slots staged s" using pc by (simp add: bag_def)
  show ?thesis
  proof (cases "k = FExit")
    case True
    then have "draining ?s" using I pc by (auto simp: buf_inv_def flags_ok_def)
    then have "buf_inv cfg slots [] (writer_exit ?s)" using J by (intro inv_writer_exit) auto
    moreover have "flush_closed k s = writer_exit ?s" using True by (simp add: flush_closed_def writer_exit_def)
    moreover have "bag slots [] (writer_exit ?s) = bag slots [] ?s" by (simp add: bag_def writer_exit_def)
    ultimately show ?thesis using sub by (auto intro: inv_bagI)
  next
    case False
    then have "flush_closed k s = ?s" by (cases k) (auto simp: flush_closed_def)
    with J sub show ?thesis by (auto intro: inv_bagI)
  qed
qed

section \<open>Writing a large record\<close>

lemma large_slot_ok: "large_ok cfg staged r \<Longrightarrow> slot_ok (pageSize cfg) (Large True r)"
  by (simp add: large_ok_def req_ok_def is_large_def)

lemma chunkBytes_slot:
  "cfg_ok cfg \<Longrightarrow> large_ok cfg staged r \<Longrightarrow>
   chunkBytes cfg r = int (length (slot_bytes (pageSize cfg) (Large True r)))"
  using length_slot_bytes [of "pageSize cfg" "Large True r"] large_slot_ok [of cfg staged r]
    cfg_ok_pos [of cfg] by (simp add: chunkBytes_def del: slot_bytes.simps)

lemma first_chunk_bytes:
  assumes cfg: "cfg_ok cfg" and r: "slot_ok (pageSize cfg) (Large True r)" and st: "length st = pageSize cfg"
  shows "first_chunk cfg r st = take (pageSize cfg) (slot_bytes (pageSize cfg) (Large True r))"
proof -
  have h: "hdrSize \<le> pageSize cfg" using cfg by (simp add: cfg_ok_def)
  have tid: "length (wr_traceID r) = 16" using r by (simp add: storable_len)
  have "put_header st 0 r = enc_header True r @ drop hdrSize st"
    using put_header_bytes [OF tid, of 0 st] h st by (simp add: hdrSize_def)
  then have "copy_at (put_header st 0 r) hdrSize (wr_data r) =
      enc_header True r @ take (pageSize cfg - hdrSize) (wr_data r)"
    using h st tid r by (simp add: copy_at_def hdrSize_def)
  then show ?thesis
    using first_page_large [OF h r] h r tid by (simp add: first_chunk_def clear_from_def hdrSize_def min_def)
qed

lemma cont_chunk_bytes:
  assumes "storable r" and "off < length (wr_data r)"
    and fits: "off + hdrSize + length st \<le> length (slot_bytes p (Large True r))"
  shows "cont_chunk r off st = take (length st) (drop (off + hdrSize) (slot_bytes p (Large True r)))"
proof -
  have tid: "length (wr_traceID r) = 16" using assms(1) by (rule storable_len)
  have d: "drop (off + hdrSize) (slot_bytes p (Large True r)) = drop off (wr_data r) @
      replicate (numChunks p (length (wr_data r)) * p - (hdrSize + length (wr_data r))) 0"
    using assms(2) tid by (simp add: pad_def enc_entry_def hdrSize_def)
  have "length st - (length (wr_data r) - off) \<le>
      numChunks p (length (wr_data r)) * p - (hdrSize + length (wr_data r))"
    using fits assms(2) tid by (simp add: pad_def)
  then show ?thesis
    unfolding d by (simp add: cont_chunk_def clear_from_def copy_at_def min_def)
qed

lemma inv_write_first:
  assumes cfg: "cfg_ok cfg" and I: "buf_inv cfg slots staged s" and pc: "wpc s = WLargeFirst r"
  shows "buf_inv cfg slots staged (write_first cfg None r s)"
proof -
  let ?sl = "slot_bytes (pageSize cfg) (Large True r)"
  have lo: "large_ok cfg staged r" using I pc by (simp add: buf_inv_def)
  note r = large_slot_ok [OF lo]
  have h: "hdrSize \<le> pageSize cfg" "0 < pageSize cfg" using cfg cfg_ok_pos [OF cfg] by (auto simp: cfg_ok_def)
  have st: "length (stage s) = pageSize cfg" using I by (simp add: buf_inv_def stage_ok_def)
  define bs where "bs = take (pageSize cfg) ?sl"
  have len: "length bs = pageSize cfg"
    using slot_pages_pos [OF h(2) r] length_slot_bytes [OF h(2) r] by (simp add: bs_def del: slot_bytes.simps)
  have fc: "first_chunk cfg r (stage s) = bs" using first_chunk_bytes [OF cfg r st] by (simp add: bs_def)
  have ok: "ring_ok cfg slots (bfile s) (used s) (rHead s) (wHead s) [] (chunkBytes cfg r) (head_view (spc s))"
    using I pc by (simp add: buf_inv_def)
  have room: "int (length ([] :: bytes)) + int (pageSize cfg) \<le> chunkBytes cfg r"
    using chunkBytes_slot [OF cfg lo] len by (simp add: bs_def del: slot_bytes.simps)
  note w = ring_write(1) [OF cfg ok len room] sweeper_write [OF cfg ok len room]
  have off: "pageSize cfg - hdrSize < length (wr_data r)" using r h by auto
  then have "cont_bytes cfg r (pageSize cfg - hdrSize) = bs"
    using h by (simp add: cont_bytes_def bs_def del: slot_bytes.simps)
  then show ?thesis
    using I pc w off lo len h
    by (auto simp: buf_inv_def write_first_def WriteAt_def flags_ok_def fc stage_ok_def large_ok_def min_def)
qed

lemma last_chunk:
  assumes "0 < p" and "p dvd off + hdrSize" and "off < len"
  shows "off + hdrSize + p \<le> numChunks p len * p"
    and "len \<le> off + p \<Longrightarrow> numChunks p len * p = off + hdrSize + p"
proof -
  obtain q where q: "off + hdrSize = q * p" using assms(2) by (metis dvdE mult.commute)
  have lt: "q * p < numChunks p len * p"
    unfolding q [symmetric] using numChunks_enough [OF assms(1), of len] assms(3) by linarith
  then have "Suc q * p \<le> numChunks p len * p" by (intro mult_le_mono1) simp
  then show "off + hdrSize + p \<le> numChunks p len * p" unfolding q by simp
  assume "len \<le> off + p"
  then have "numChunks p len * p < Suc (Suc q) * p"
    using numChunks_tight [OF assms(1), of len] q by simp
  then have "numChunks p len < Suc (Suc q)" by (rule mult_less_cancel2 [THEN iffD1, THEN conjunct2])
  moreover have "q < numChunks p len" using lt by (rule mult_less_cancel2 [THEN iffD1, THEN conjunct2])
  ultimately have "numChunks p len = Suc q" by simp
  then show "numChunks p len * p = off + hdrSize + p" unfolding q by simp
qed

lemma inv_write_cont:
  assumes cfg: "cfg_ok cfg" and I: "buf_inv cfg slots staged s" and pc: "wpc s = WLargeCont r off"
  shows "buf_inv cfg slots staged (write_cont cfg None r off s)"
proof (cases "off < length (wr_data r)")
  case False
  have lo: "large_ok cfg staged r" using I pc by (simp add: buf_inv_def)
  have "length (slot_bytes (pageSize cfg) (Large True r)) = numChunks (pageSize cfg) (length (wr_data r)) * pageSize cfg"
    using length_slot_bytes [OF _ large_slot_ok [OF lo]] cfg_ok_pos [OF cfg] by simp
  then have "cont_bytes cfg r off = slot_bytes (pageSize cfg) (Large True r)"
    using False by (simp add: cont_bytes_def del: slot_bytes.simps)
  then show ?thesis
    using I pc False by (auto simp: buf_inv_def write_cont_def flags_ok_def simp del: slot_bytes.simps)
next
  case True
  let ?p = "pageSize cfg" and ?sl = "slot_bytes (pageSize cfg) (Large True r)" and ?len = "length (wr_data r)"
  have lo: "large_ok cfg staged r" and al: "?p dvd off + hdrSize"
    using I pc True by (auto simp: buf_inv_def)
  note r = large_slot_ok [OF lo]
  have p0: "0 < ?p" and st: "length (stage s) = ?p"
    using cfg_ok_pos [OF cfg] I by (auto simp: buf_inv_def stage_ok_def)
  note lc = last_chunk [OF p0 al True]
  have sl: "length ?sl = numChunks ?p ?len * ?p" using length_slot_bytes [OF p0 r] by simp
  define bs where "bs = take ?p (drop (off + hdrSize) ?sl)"
  have len: "length bs = ?p" using lc(1) by (simp add: bs_def sl del: slot_bytes.simps)
  have cc: "cont_chunk r off (stage s) = bs"
    using cont_chunk_bytes [of r off "stage s" ?p] r True lc(1) by (simp add: bs_def st sl del: slot_bytes.simps)
  have unc: "cont_bytes cfg r off = take (off + hdrSize) ?sl" using True by (simp add: cont_bytes_def)
  have ok: "ring_ok cfg slots (bfile s) (used s) (rHead s) (wHead s) (cont_bytes cfg r off) (chunkBytes cfg r)
      (head_view (spc s))"
    using I pc by (simp add: buf_inv_def)
  have room: "int (length (cont_bytes cfg r off)) + int ?p \<le> chunkBytes cfg r"
    unfolding unc chunkBytes_slot [OF cfg lo] of_nat_add [symmetric] of_nat_le_iff
    using lc(1) by (simp add: sl del: slot_bytes.simps)
  note w = ring_write(1) [OF cfg ok len room] sweeper_write [OF cfg ok len room]
  have "cont_bytes cfg r off @ bs = take (off + hdrSize + ?p) ?sl"
    by (simp add: unc bs_def take_add del: slot_bytes.simps)
  also have "\<dots> = cont_bytes cfg r (off + min ?p (?len - off))"
    using lc(2) by (simp add: cont_bytes_def min_def ac_simps)
  finally have nxt: "cont_bytes cfg r off @ bs = cont_bytes cfg r (off + min ?p (?len - off))" .
  have "?p dvd (off + hdrSize) + ?p" using al by simp
  then have "off + min ?p (?len - off) < ?len \<Longrightarrow> ?p dvd off + min ?p (?len - off) + hdrSize \<and>
      ?p \<le> off + min ?p (?len - off) + hdrSize"
    by (auto simp: min_def add.assoc add.commute [of ?p])
  then have "wpc_ok cfg staged bs (WLargeCont r (off + min ?p (?len - off)))" using lo by simp
  moreover have "stage_ok cfg staged bs (stageN s)" "staged = []"
    using I lo len by (simp_all add: buf_inv_def large_ok_def stage_ok_def)
  moreover have "write_cont cfg None r off s = s\<lparr>stage := bs, bfile := file_write (bfile s) (wHead s) bs,
      wHead := next_page cfg (wHead s), wpc := WLargeCont r (off + min ?p (?len - off))\<rparr>"
    using True by (simp add: write_cont_def Let_def cc st WriteAt_def)
  ultimately show ?thesis
    using I pc w by (simp add: buf_inv_def flags_ok_def nxt)
qed

lemma inv_commit:
  assumes cfg: "cfg_ok cfg" and I: "buf_inv cfg slots staged s" and pc: "wpc s = WCommit r"
  shows "buf_inv cfg (slots @ [Large True r]) staged (commit_large cfg r s)"
proof -
  have lo: "large_ok cfg staged r" using I pc by (simp add: buf_inv_def)
  have "ring_ok cfg slots (bfile s) (used s) (rHead s) (wHead s) (slot_bytes (pageSize cfg) (Large True r))
      (chunkBytes cfg r) (head_view (spc s))"
    using I pc by (simp add: buf_inv_def)
  from ring_count [OF this refl large_slot_ok [OF lo]] show ?thesis
    using I pc chunkBytes_slot [OF cfg lo]
    by (auto simp: buf_inv_def commit_large_def flags_ok_def sweeper_append simp del: slot_bytes.simps)
qed

end
