(* ===== verification/Buffer_Sweep.thy ===== *)
theory Buffer_Sweep
  imports Buffer_Refinement
begin

text \<open>
  The steps of the sweeper and the invariant of the span buffer: copying the head page, looking at
  one record of it, leaving the loop, writing the page back and freeing it. \<open>scan_inv\<close> is the
  heart: one record is looked at, and either nothing changes or exactly that record leaves the bag
  of unresolved requests, with the one callback that its outcome calls for.
\<close>

lemma scan_view:
  assumes cfg: "cfg_ok cfg" and ok: "ring_ok cfg (sl # rest) f u rh wh unc res (Some sc)"
    and sc: "length sc = pageSize cfg"
  shows "take (pageSize cfg) (slot_bytes (pageSize cfg) sl) = sc"
    and "ring_at f (maxBytes cfg) (rh + int (pageSize cfg)) (slot_pages (pageSize cfg) sl * pageSize cfg - pageSize cfg)
      = drop (pageSize cfg) (slot_bytes (pageSize cfg) sl)"
    and "pageSize cfg \<le> length (slot_bytes (pageSize cfg) sl)"
proof -
  let ?p = "pageSize cfg" and ?M = "maxBytes cfg" and ?b = "slot_bytes (pageSize cfg) sl"
  have p0: "0 < ?p" using cfg_ok_pos [OF cfg] by simp
  have slot: "slot_ok ?p sl" using ok by (simp add: ring_ok_def)
  have len: "length ?b = slot_pages ?p sl * ?p" using length_slot_bytes [OF p0 slot] .
  show le: "?p \<le> length ?b" using slot_pages_pos [OF p0 slot] by (simp add: len)
  have eq: "sc @ drop ?p (ring_at f ?M rh (nat u)) = ?b @ ring_bytes ?p rest"
    using ok by (simp add: ring_ok_def cur_ring_def)
  then have "take ?p (sc @ drop ?p (ring_at f ?M rh (nat u))) = take ?p (?b @ ring_bytes ?p rest)" by simp
  then show "take ?p ?b = sc" using sc le by simp
  have "drop ?p (sc @ drop ?p (ring_at f ?M rh (nat u))) = drop ?p (?b @ ring_bytes ?p rest)"
    using eq by simp
  then have d: "drop ?p (ring_at f ?M rh (nat u)) = drop ?p ?b @ ring_bytes ?p rest" using sc le by simp
  have "int (length ?b) \<le> u" using ok by (auto simp: ring_ok_def)
  then have un: "length ?b \<le> nat u" by simp
  have "take (length ?b - ?p) (drop ?p (ring_at f ?M rh (nat u))) = drop ?p ?b"
    unfolding d by simp
  moreover have "take (length ?b - ?p) (drop ?p (ring_at f ?M rh (nat u)))
      = ring_at f ?M (rh + int ?p) (length ?b - ?p)"
    using le un by (simp add: drop_ring_at take_ring_at)
  ultimately show "ring_at f ?M (rh + int ?p) (slot_pages ?p sl * ?p - ?p) = drop ?p ?b"
    by (simp add: len)
qed

text \<open>What leaving the loop has to establish, for the slot as it is then.\<close>

definition scan_result :: "bufferCfg \<Rightarrow> slot \<Rightarrow> pageScan \<Rightarrow> bool" where
  "scan_result cfg sl p \<longleftrightarrow>
     (ps_fullyConsumed p \<longrightarrow> slot_live sl = [] \<and> ps_chunksConsumed p = slot_pages (pageSize cfg) sl)"

text \<open>
  One look at a record of the head slot. \<open>sl'\<close> is the slot afterwards and \<open>done\<close> the requests
  resolved: at most one, with the callback it calls for.
\<close>

definition scan_effect :: "bufferCfg \<Rightarrow> bool \<Rightarrow> interestSet \<Rightarrow> time \<Rightarrow> slot \<Rightarrow> pageScan \<Rightarrow> slot \<Rightarrow>
    nat option \<Rightarrow> pageScan \<Rightarrow> bufEvent list \<Rightarrow> bool" where
  "scan_effect cfg press intr now sl p sl' nxt p' evs \<longleftrightarrow>
     slot_ok (pageSize cfg) sl' \<and> slot_pages (pageSize cfg) sl' = slot_pages (pageSize cfg) sl \<and>
     slot_bytes (pageSize cfg) sl' = ps_scratch p' @ drop (pageSize cfg) (slot_bytes (pageSize cfg) sl) \<and>
     length (ps_scratch p') = pageSize cfg \<and>
     (\<not> ps_needsWriteback p' \<longrightarrow> \<not> ps_needsWriteback p \<and> ps_scratch p' = ps_scratch p) \<and>
     (case nxt of None \<Rightarrow> scan_result cfg sl' p'
      | Some pos' \<Rightarrow> ps_chunksConsumed p' = 1 \<and> scan_ok sl' pos' p') \<and>
     ((ps_fullyConsumed p', ps_minRemaining p') = (ps_fullyConsumed p, ps_minRemaining p) \<or>
      (\<exists>r \<in> set (slot_live sl). resolve cfg press intr now r = None \<and> p' = keep_waiting (rest_wait cfg now r) p)) \<and>
     (evs = [] \<and> mset (slot_live sl') = mset (slot_live sl) \<or>
      (\<exists>r oc. resolve cfg press intr now r = Some oc \<and> evs = [event_of (r, oc)] \<and>
         mset (slot_live sl) = add_mset r (mset (slot_live sl'))))"

lemma keep_waiting_simps [simp]:
  "ps_scratch (keep_waiting w p) = ps_scratch p" "ps_needsWriteback (keep_waiting w p) = ps_needsWriteback p"
  "ps_chunksConsumed (keep_waiting w p) = ps_chunksConsumed p" "\<not> ps_fullyConsumed (keep_waiting w p)"
  by (simp_all add: keep_waiting_def)

lemma scan_okI:
  "es = es1 @ es2 \<Longrightarrow> (ps_fullyConsumed p \<longleftrightarrow> filter fst es1 = []) \<Longrightarrow>
   scan_ok (Small es) (length (enc_entries es1)) p"
  by auto

lemma scan_small_effect:
  assumes cfg: "cfg_ok cfg" and ok: "slot_ok (pageSize cfg) (Small es)"
    and sc: "ps_scratch p = slot_bytes (pageSize cfg) (Small es)" and so: "scan_ok (Small es) pos p"
    and ch: "ps_chunksConsumed p = 1" and pos: "pos + hdrSize \<le> pageSize cfg"
    and scan: "scan_record cfg u press f rf rh intr now pos p = (nxt, p', evs)"
  shows "\<exists>sl'. scan_effect cfg press intr now (Small es) p sl' nxt p' evs"
proof -
  obtain es1 es2 where es: "es = es1 @ es2" and p1: "pos = length (enc_entries es1)"
    and fc: "ps_fullyConsumed p \<longleftrightarrow> filter fst es1 = []" using so by auto
  define post where "post = replicate (pageSize cfg - length (enc_entries es)) (0 :: byte)"
  have len: "length (ps_scratch p) = pageSize cfg" using ok sc by simp
  show ?thesis
  proof (cases es2)
    case Nil
    have "ps_scratch p = enc_entries es1 @ post" using sc es Nil by (simp add: pad_def post_def)
    then have "scan_record cfg u press f rf rh intr now pos p = (None, p, [])"
      using pos p1 len es Nil by (intro scan_padding) (auto simp: post_def)
    then have "nxt = None" "p' = p" "evs = []" using scan by simp_all
    then have "scan_effect cfg press intr now (Small es) p (Small es) nxt p' evs"
      using ok sc ch fc es Nil by (simp add: scan_effect_def scan_result_def)
    then show ?thesis ..
  next
    case (Cons e es3)
    obtain b r where e: "e = (b, r)" by (cases e)
    have st: "storable r" using ok es Cons e by auto
    then have tid: "length (wr_traceID r) = 16" by (rule storable_len)
    have sc1: "ps_scratch p = enc_entries es1 @ enc_entry b r @ (enc_entries es3 @ post)"
      using sc es Cons e by (simp add: pad_def post_def)
    note scn = scan_small [OF st p1 sc1 len, of u press f rf rh intr now, unfolded scan]
    define es' where "es' = es1 @ (False, r) # es3"
    have bytes': "slot_bytes (pageSize cfg) (Small es') = enc_entries es1 @ enc_entry False r @ (enc_entries es3 @ post)"
      using tid es Cons e by (simp add: es'_def pad_def post_def)
    have ok': "slot_ok (pageSize cfg) (Small es')" using ok es Cons e tid by (auto simp: es'_def)
    have nxt: "nxt = Some (length (enc_entries (es1 @ [(c, r)])))" for c
      using scn p1 tid by simp
    have kept: "es = (es1 @ [(b, r)]) @ es3" using es Cons e by simp
    show ?thesis
    proof (cases "\<not> b")
      case True
      then have "p' = p" "evs = []" using scn by simp_all
      moreover have "scan_ok (Small es) (length (enc_entries (es1 @ [(b, r)]))) p"
        using fc True by (intro scan_okI [OF kept]) simp
      ultimately have "scan_effect cfg press intr now (Small es) p (Small es) nxt p' evs"
        using ok sc ch nxt [of b] len by (simp add: scan_effect_def del: enc_entries_simps)
      then show ?thesis ..
    next
      case b: False
      show ?thesis
      proof (cases "resolve cfg press intr now r")
        case None
        then have p': "p' = keep_waiting (rest_wait cfg now r) p" "evs = []" using scn b by simp_all
        moreover have "scan_ok (Small es) (length (enc_entries (es1 @ [(b, r)]))) p'"
          using b p' by (intro scan_okI [OF kept]) simp
        moreover have "r \<in> set (slot_live (Small es))" using b by (simp add: kept)
        ultimately have "scan_effect cfg press intr now (Small es) p (Small es) nxt p' evs"
          using ok sc ch nxt [of b] len None
          by (auto simp: scan_effect_def simp del: enc_entries_simps scan_ok.simps slot_live.simps)
        then show ?thesis ..
      next
        case (Some oc)
        then have p': "p' = p\<lparr>ps_scratch := slot_bytes (pageSize cfg) (Small es'), ps_needsWriteback := True\<rparr>"
          and ev: "evs = [event_of (r, oc)]" using scn b by (simp_all add: bytes' del: slot_bytes.simps)
        have "scan_ok (Small es') (length (enc_entries (es1 @ [(False, r)]))) p'"
          using fc p' by (intro scan_okI [of es' _ es3]) (simp_all add: es'_def)
        moreover have "mset (slot_live (Small es)) = add_mset r (mset (slot_live (Small es')))"
          using b by (simp add: kept es'_def)
        moreover have "length (slot_bytes (pageSize cfg) (Small es')) = pageSize cfg"
          using length_slot_bytes [OF _ ok'] cfg_ok_pos [OF cfg] by simp
        ultimately have "scan_effect cfg press intr now (Small es) p (Small es') nxt p' evs"
          using ok' p' ch nxt [of False] Some ev sc len
          by (auto simp: scan_effect_def simp del: enc_entries_simps scan_ok.simps slot_live.simps slot_bytes.simps)
        then show ?thesis ..
      qed
    qed
  qed
qed

lemma slot_bytes_dead:
  assumes "slot_ok p (Large b r)" and "hdrSize \<le> p"
  shows "drop p (slot_bytes p (Large False r)) = drop p (slot_bytes p (Large b r))"
  using assms by (simp add: pad_def enc_entry_def storable_len hdrSize_def)

lemma scan_large_effect:
  assumes cfg: "cfg_ok cfg" and ok: "slot_ok (pageSize cfg) (Large b r)"
    and sc: "ps_scratch p = take (pageSize cfg) (slot_bytes (pageSize cfg) (Large b r))"
    and so: "scan_ok (Large b r) pos p" and ch: "ps_chunksConsumed p = 1"
    and u: "int (slot_pages (pageSize cfg) (Large b r) * pageSize cfg) \<le> u" and rh: "int (pageSize cfg) dvd rh"
    and fl: "ring_at f (maxBytes cfg) (rh + int (pageSize cfg))
        (slot_pages (pageSize cfg) (Large b r) * pageSize cfg - pageSize cfg)
      = drop (pageSize cfg) (slot_bytes (pageSize cfg) (Large b r))"
    and scan: "scan_record cfg u press f (\<lambda>_. None) rh intr now pos p = (nxt, p', evs)"
  shows "\<exists>sl'. scan_effect cfg press intr now (Large b r) p sl' nxt p' evs"
proof -
  let ?p = "pageSize cfg"
  have p0: "0 < ?p" "hdrSize \<le> ?p" using cfg cfg_ok_pos [OF cfg] by (auto simp: cfg_ok_def)
  have pos: "pos = 0" and full: "ps_fullyConsumed p" using so by auto
  have u': "int (numChunks ?p (length (wr_data r))) * int ?p \<le> u" using u by simp
  note scn = scan_large [OF cfg refl rh ok sc u' fl [unfolded slot_pages.simps], of press intr now,
      unfolded scan [unfolded pos]]
  have len: "?p \<le> length (slot_bytes ?p (Large c r))" if "slot_ok ?p (Large c r)" for c
    using length_slot_bytes [OF p0(1) that] slot_pages_pos [OF p0(1) that] by (simp del: slot_bytes.simps)
  show ?thesis
  proof (cases "b \<and> resolve cfg press intr now r = None \<or> \<not> b")
    case True
    then have "scan_effect cfg press intr now (Large b r) p (Large b r) nxt p' evs"
      using scn ok sc len [OF ok] full
      by (auto simp: scan_effect_def scan_result_def simp del: slot_bytes.simps slot_ok.simps)
    then show ?thesis ..
  next
    case False
    then obtain oc where oc: "resolve cfg press intr now r = Some oc" and b: "b" by auto
    have ok': "slot_ok ?p (Large False r)" using ok by simp
    have "slot_bytes ?p (Large False r) = take ?p (slot_bytes ?p (Large False r)) @ drop ?p (slot_bytes ?p (Large b r))"
      unfolding slot_bytes_dead [OF ok p0(2), symmetric] by simp
    then have "scan_effect cfg press intr now (Large b r) p (Large False r) nxt p' evs"
      using scn oc b ok' len [OF ok']
      by (auto simp: scan_effect_def scan_result_def simp del: slot_bytes.simps slot_ok.simps)
    then show ?thesis ..
  qed
qed

section \<open>Steps of the sweeper\<close>

text \<open>What a step of the sweeper leaves alone.\<close>

definition rest_ok :: "bufferCfg \<Rightarrow> writeReq list \<Rightarrow> bufferState \<Rightarrow> bool" where
  "rest_ok cfg staged s \<longleftrightarrow> stage_ok cfg staged (stage s) (stageN s) \<and> wpc_ok cfg staged (stage s) (wpc s) \<and>
     (\<forall>r \<in> set (writeCh s). req_ok cfg r) \<and> flags_ok s"

definition ring_inv :: "bufferCfg \<Rightarrow> slot list \<Rightarrow> bufferState \<Rightarrow> bytes option \<Rightarrow> bool" where
  "ring_inv cfg slots s hv \<longleftrightarrow>
     ring_ok cfg slots (bfile s) (used s) (rHead s) (wHead s) (uncounted cfg (stage s) (wpc s))
       (reserved cfg (wpc s)) hv"

lemma buf_inv_split:
  "buf_inv cfg slots staged s \<longleftrightarrow> rest_ok cfg staged s \<and> ring_inv cfg slots s (head_view (spc s)) \<and>
     sweeper_ok cfg slots (head_page cfg (bfile s) (rHead s)) (spc s)"
  by (auto simp: buf_inv_def rest_ok_def ring_inv_def)

lemma rest_ok_sweep [simp]:
  "rest_ok cfg staged (s\<lparr>spc := x\<rparr>) = rest_ok cfg staged s"
  "rest_ok cfg staged (s\<lparr>events := e\<rparr>) = rest_ok cfg staged s"
  "rest_ok cfg staged (s\<lparr>bfile := g\<rparr>) = rest_ok cfg staged s"
  "rest_ok cfg staged (s\<lparr>timers := ts\<rparr>) = rest_ok cfg staged s"
  "rest_ok cfg staged (s\<lparr>wakeup := w\<rparr>) = rest_ok cfg staged s"
  "rest_ok cfg staged (s\<lparr>pageFreed := w\<rparr>) = rest_ok cfg staged s"
  "rest_ok cfg staged (s\<lparr>rHead := h\<rparr>) = rest_ok cfg staged s"
  "rest_ok cfg staged (s\<lparr>used := u\<rparr>) = rest_ok cfg staged s"
  "rest_ok cfg staged (s\<lparr>clock := t\<rparr>) = rest_ok cfg staged s"
  "rest_ok cfg staged (s\<lparr>interest := i\<rparr>) = rest_ok cfg staged s"
  by (simp_all add: rest_ok_def flags_ok_def)

lemma ring_inv_sweep [simp]:
  "ring_inv cfg slots (s\<lparr>spc := x\<rparr>) = ring_inv cfg slots s"
  "ring_inv cfg slots (s\<lparr>events := e\<rparr>) = ring_inv cfg slots s"
  "ring_inv cfg slots (s\<lparr>timers := ts\<rparr>) = ring_inv cfg slots s"
  "ring_inv cfg slots (s\<lparr>wakeup := w\<rparr>) = ring_inv cfg slots s"
  "ring_inv cfg slots (s\<lparr>pageFreed := w\<rparr>) = ring_inv cfg slots s"
  "ring_inv cfg slots (s\<lparr>clock := t\<rparr>) = ring_inv cfg slots s"
  "ring_inv cfg slots (s\<lparr>interest := i\<rparr>) = ring_inv cfg slots s"
  by (simp_all add: ring_inv_def fun_eq_iff)

lemma bag_sweep [simp]:
  "bag slots staged (s\<lparr>spc := x\<rparr>) = bag slots staged s"
  "bag slots staged (s\<lparr>events := e\<rparr>) = bag slots staged s"
  "bag slots staged (s\<lparr>bfile := g\<rparr>) = bag slots staged s"
  "bag slots staged (s\<lparr>timers := ts\<rparr>) = bag slots staged s"
  "bag slots staged (s\<lparr>wakeup := w\<rparr>) = bag slots staged s"
  "bag slots staged (s\<lparr>pageFreed := w\<rparr>) = bag slots staged s"
  "bag slots staged (s\<lparr>rHead := h\<rparr>) = bag slots staged s"
  "bag slots staged (s\<lparr>used := u\<rparr>) = bag slots staged s"
  "bag slots staged (s\<lparr>clock := t\<rparr>) = bag slots staged s"
  "bag slots staged (s\<lparr>interest := i\<rparr>) = bag slots staged s"
  "bag slots staged (s\<lparr>closing := b\<rparr>) = bag slots staged s"
  "bag slots staged (s\<lparr>draining := b\<rparr>) = bag slots staged s"
  "bag slots staged (s\<lparr>closeCh := b\<rparr>) = bag slots staged s"
  by (simp_all add: bag_def)

lemma inv_read:
  assumes cfg: "cfg_ok cfg" and I: "buf_inv cfg slots staged s" and pc: "spc s = SRead"
  shows "buf_inv cfg slots staged (s\<lparr>spc := SProcess (ReadAt (bfile s) (rHead s) (pageSize cfg))\<rparr>)"
proof -
  have ok: "ring_ok cfg slots (bfile s) (used s) (rHead s) (wHead s) (uncounted cfg (stage s) (wpc s))
      (reserved cfg (wpc s)) (head_view (spc s))" using I by (simp add: buf_inv_def)
  have "ReadAt (bfile s) (rHead s) (pageSize cfg) = head_page cfg (bfile s) (rHead s)"
    unfolding head_page_def using ok ring_ok_aligned(5) [OF cfg ok] by (intro ReadAt_ring) (auto simp: ring_ok_def)
  then show ?thesis using I pc by (simp add: buf_inv_split head_view_def)
qed

lemma inv_process:
  assumes cfg: "cfg_ok cfg" and I: "buf_inv cfg slots staged s" and pc: "spc s = SProcess scratch"
  shows "buf_inv cfg slots staged (s\<lparr>spc := SScan (used s) press 0 (startScan scratch)\<rparr>)"
proof -
  have ne: "slots \<noteq> []" and sc: "scratch = head_page cfg (bfile s) (rHead s)"
    using I pc by (auto simp: buf_inv_split)
  obtain sl rest where sl: "slots = sl # rest" using ne by (cases slots) auto
  have ok: "ring_inv cfg slots s None" using I pc by (simp add: buf_inv_split head_view_def)
  then have "ring_inv cfg slots s (Some scratch)"
    unfolding ring_inv_def sc by (intro ring_copy [OF cfg _ ne])
  moreover have "int (slot_pages (pageSize cfg) sl * pageSize cfg) \<le> used s"
    using nonempty_used(2) [OF cfg ok [unfolded ring_inv_def] sl] .
  moreover have "scan_ok sl 0 (startScan scratch)"
  proof (cases sl)
    case (Small es)
    then show ?thesis using scan_okI [of es "[]" es "startScan scratch"] by (simp add: startScan_def)
  qed (simp add: startScan_def)
  ultimately show ?thesis
    using I pc sl sc by (simp add: buf_inv_split head_view_def copy_ok_def startScan_def)
qed

lemma scan_inv:
  assumes cfg: "cfg_ok cfg" and I: "buf_inv cfg slots staged s" and pc: "spc s = SScan u press pos p"
    and fit: "pos + hdrSize \<le> pageSize cfg"
    and scan: "scan_record cfg u press (bfile s) (\<lambda>_. None) (rHead s) (interest s) (clock s) pos p = (nxt, p', evs)"
  shows "\<exists>slots'. buf_inv cfg slots' staged (s\<lparr>events := events s @ evs,
      spc := (case nxt of None \<Rightarrow> SWriteback p' | Some pos' \<Rightarrow> SScan u press pos' p')\<rparr>) \<and>
    (evs = [] \<and> bag slots' staged s = bag slots staged s \<or>
     (\<exists>r oc. resolve cfg press (interest s) (clock s) r = Some oc \<and> evs = [event_of (r, oc)] \<and>
       bag slots staged s = add_mset r (bag slots' staged s)))"
    and "(ps_fullyConsumed p', ps_minRemaining p') = (ps_fullyConsumed p, ps_minRemaining p) \<or>
      (\<exists>r. r \<in># bag slots staged s \<and> resolve cfg press (interest s) (clock s) r = None \<and>
         p' = keep_waiting (rest_wait cfg (clock s) r) p)"
proof -
  have ok: "ring_inv cfg slots s (Some (ps_scratch p))" using I pc by (simp add: buf_inv_split head_view_def)
  obtain sl rest where sl: "slots = sl # rest" and u: "int (slot_pages (pageSize cfg) sl * pageSize cfg) \<le> u"
    and cp: "copy_ok cfg (head_page cfg (bfile s) (rHead s)) p"
    and ch: "ps_chunksConsumed p = 1" and so: "scan_ok sl pos p"
    using I pc by (auto simp: buf_inv_split)
  have len: "length (ps_scratch p) = pageSize cfg" using cp by (simp add: copy_ok_def)
  note v = scan_view [OF cfg ok [unfolded ring_inv_def sl] len]
  have slot: "slot_ok (pageSize cfg) sl" and rh: "int (pageSize cfg) dvd rHead s"
    using ok sl by (auto simp: ring_inv_def ring_ok_def)
  have "\<exists>sl'. scan_effect cfg press (interest s) (clock s) sl p sl' nxt p' evs"
  proof (cases sl)
    case (Small es)
    then have "ps_scratch p = slot_bytes (pageSize cfg) (Small es)"
      using v(1) slot by (simp add: pad_def)
    then show ?thesis using scan_small_effect [OF cfg _ _ _ ch fit scan] slot so Small by simp
  next
    case (Large b r)
    then show ?thesis
      using scan_large_effect [OF cfg _ v(1) [unfolded Large, symmetric] _ ch _ rh v(2) [unfolded Large] scan]
        slot so u by simp
  qed
  then obtain sl' where e: "scan_effect cfg press (interest s) (clock s) sl p sl' nxt p' evs" ..
  have "ring_inv cfg (sl' # rest) s (Some (ps_scratch p'))"
    unfolding ring_inv_def
    by (rule ring_bury [OF ok [unfolded ring_inv_def sl] len]) (use e v(3) in \<open>auto simp: scan_effect_def\<close>)
  moreover have "copy_ok cfg (head_page cfg (bfile s) (rHead s)) p'"
    using e cp by (simp add: copy_ok_def scan_effect_def)
  ultimately have "buf_inv cfg (sl' # rest) staged (s\<lparr>events := events s @ evs,
      spc := (case nxt of None \<Rightarrow> SWriteback p' | Some pos' \<Rightarrow> SScan u press pos' p')\<rparr>)"
    using I e u by (cases nxt) (simp_all add: buf_inv_split head_view_def scan_effect_def scan_result_def)
  moreover have "evs = [] \<and> bag (sl' # rest) staged s = bag slots staged s \<or>
     (\<exists>r oc. resolve cfg press (interest s) (clock s) r = Some oc \<and> evs = [event_of (r, oc)] \<and>
       bag slots staged s = add_mset r (bag (sl' # rest) staged s))"
    using e by (auto simp: scan_effect_def bag_def sl)
  ultimately show "\<exists>slots'. buf_inv cfg slots' staged (s\<lparr>events := events s @ evs,
      spc := (case nxt of None \<Rightarrow> SWriteback p' | Some pos' \<Rightarrow> SScan u press pos' p')\<rparr>) \<and>
    (evs = [] \<and> bag slots' staged s = bag slots staged s \<or>
     (\<exists>r oc. resolve cfg press (interest s) (clock s) r = Some oc \<and> evs = [event_of (r, oc)] \<and>
       bag slots staged s = add_mset r (bag slots' staged s)))" by blast
  show "(ps_fullyConsumed p', ps_minRemaining p') = (ps_fullyConsumed p, ps_minRemaining p) \<or>
      (\<exists>r. r \<in># bag slots staged s \<and> resolve cfg press (interest s) (clock s) r = None \<and>
         p' = keep_waiting (rest_wait cfg (clock s) r) p)"
    using e by (auto simp: scan_effect_def bag_def sl)
qed

lemma inv_scan_end:
  assumes cfg: "cfg_ok cfg" and I: "buf_inv cfg slots staged s" and pc: "spc s = SScan u press pos p"
    and fit: "\<not> pos + hdrSize \<le> pageSize cfg"
  shows "buf_inv cfg slots staged (s\<lparr>spc := SWriteback p\<rparr>)"
proof -
  obtain sl rest where sl: "slots = sl # rest" and ch: "ps_chunksConsumed p = 1" and so: "scan_ok sl pos p"
    and cp: "copy_ok cfg (head_page cfg (bfile s) (rHead s)) p"
    using I pc by (auto simp: buf_inv_split)
  have ok: "ring_inv cfg slots s (Some (ps_scratch p))" using I pc by (simp add: buf_inv_split head_view_def)
  then have slot: "slot_ok (pageSize cfg) sl" using sl by (auto simp: ring_inv_def ring_ok_def)
  have "hdrSize \<le> pageSize cfg" using cfg by (simp add: cfg_ok_def)
  then obtain es where es: "sl = Small es" using so fit by (cases sl) auto
  then obtain es1 es2 where e12: "es = es1 @ es2" "pos = length (enc_entries es1)"
    and fc: "ps_fullyConsumed p \<longleftrightarrow> filter fst es1 = []" using so by auto
  have "es2 = []"
  proof (cases es2)
    case (Cons e es3)
    obtain b r where e: "e = (b, r)" by (cases e)
    have "length (wr_traceID r) = 16" using slot es e12 Cons e by (auto simp: storable_len)
    then show ?thesis using slot es e12 Cons e fit by simp
  qed
  then show ?thesis
    using I ok sl ch cp es e12 fc by (simp add: buf_inv_split head_view_def)
qed

lemma inv_writeback:
  assumes cfg: "cfg_ok cfg" and I: "buf_inv cfg slots staged s" and pc: "spc s = SWriteback p"
  shows "buf_inv cfg slots staged (scan_done cfg None p s)"
proof -
  obtain sl rest where sl: "slots = sl # rest" and cp: "copy_ok cfg (head_page cfg (bfile s) (rHead s)) p"
    and full: "ps_fullyConsumed p \<longrightarrow> slot_live sl = [] \<and> ps_chunksConsumed p = slot_pages (pageSize cfg) sl"
    using I pc by (auto simp: buf_inv_split)
  have ok: "ring_inv cfg slots s (Some (ps_scratch p))" using I pc by (simp add: buf_inv_split head_view_def)
  define f' where "f' = (if ps_needsWriteback p then file_write (bfile s) (rHead s) (ps_scratch p) else bfile s)"
  have "ring_inv cfg slots (s\<lparr>bfile := f'\<rparr>) None"
  proof (cases "ps_needsWriteback p")
    case True
    then show ?thesis
      using ring_writeback [OF cfg ok [unfolded ring_inv_def]] cp by (simp add: f'_def ring_inv_def copy_ok_def)
  next
    case False
    then have "ps_scratch p = head_page cfg (bfile s) (rHead s)" using cp by (simp add: copy_ok_def)
    then show ?thesis
      using ring_keep_copy ok False by (simp add: f'_def ring_inv_def)
  qed
  moreover have "scan_done cfg None p s = (s\<lparr>bfile := f'\<rparr>)\<lparr>
      timers := (if \<not> ps_fullyConsumed p \<and> ps_minRemaining p > 0 then timers s @ [clock s + ps_minRemaining p]
                 else timers s),
      spc := (if ps_fullyConsumed p then SFree (ps_chunksConsumed p) else SPageWait)\<rparr>"
    by (simp add: scan_done_def f'_def WriteAt_def)
  ultimately show ?thesis
    using I sl full by (simp add: buf_inv_split head_view_def)
qed

lemma scan_done_bag [simp]:
  "bag slots staged (scan_done cfg fault p s) = bag slots staged s"
  "events (scan_done cfg fault p s) = events s" "closeCh (scan_done cfg fault p s) = closeCh s"
  "interest (scan_done cfg fault p s) = interest s" "clock (scan_done cfg fault p s) = clock s"
  by (simp_all add: scan_done_def bag_def)

lemma inv_free:
  assumes cfg: "cfg_ok cfg" and I: "buf_inv cfg slots staged s" and pc: "spc s = SFree n"
  shows "\<exists>slots'. buf_inv cfg slots' staged (free_pages cfg n s) \<and>
    bag slots' staged (free_pages cfg n s) = bag slots staged s"
proof -
  obtain sl rest where sl: "slots = sl # rest" and lv: "slot_live sl = []"
    and n: "n = slot_pages (pageSize cfg) sl" using I pc by (auto simp: buf_inv_split)
  have "ring_inv cfg (sl # rest) s None" using I pc sl by (simp add: buf_inv_split head_view_def)
  note ring_free [OF cfg this [unfolded ring_inv_def] refl]
  then have "ring_inv cfg rest (free_pages cfg n s) None"
    by (simp add: ring_inv_def free_pages_def n)
  moreover have "rest_ok cfg staged (free_pages cfg n s)"
    using I by (simp add: buf_inv_split free_pages_def)
  moreover have "bag rest staged (free_pages cfg n s) = bag slots staged s"
    using lv by (simp add: sl bag_def free_pages_def)
  ultimately show ?thesis
    by (intro exI [of _ rest]) (simp add: buf_inv_split free_pages_def head_view_def)
qed

end
