(* ===== verification/Buffer_Simulation.thy ===== *)
theory Buffer_Simulation
  imports Buffer_Sweep
begin

text \<open>
  Every step of the span buffer that no I/O fault hits is a step of \<open>BufferSpec\<close>. \<open>buf_rel\<close> relates
  the two states; the interpretation \<open>buf\<close> of the locale \<open>simulation\<close> carries it to whole runs,
  and the properties of the buffer are read off the specification.
\<close>

fun storable_label :: "bufLabel \<Rightarrow> bool" where
  "storable_label (LWrite r ok) = storable r"
| "storable_label _ = True"

definition sound_label :: "bufLabel \<Rightarrow> bool" where
  "sound_label l \<longleftrightarrow> no_fault l \<and> storable_label l"

definition buf_rel :: "bufferCfg \<Rightarrow> bufferState \<Rightarrow> BufferSpec \<Rightarrow> bool" where
  "buf_rel cfg s a \<longleftrightarrow> cfg_ok cfg \<and> inv_bag cfg (pending a) s \<and> events s = map event_of (resolved a) \<and>
     interest_inv (clock s) (interest s) \<and> addedAt_of (interest s) = decided a \<and>
     clock s = spec_clock a \<and> closeCh s = shut a"

lemma addedAt_empty: "addedAt_of empty_interest = (\<lambda>_. None)"
  by (simp add: addedAt_of_def empty_interest_def fun_eq_iff)

lemma init_rel: "cfg_ok cfg \<Longrightarrow> buf_rel cfg (initState cfg f0 now) (initSpec now)"
  using inv_bagI [OF init_inv, of cfg f0 now "{#}"]
  by (auto simp: buf_rel_def bag_def initState_def initSpec_def empty_interest_inv addedAt_empty)

text \<open>The frame of the writer's and the sweeper's steps: what the specification sees of them.\<close>

definition outside :: "bufferState \<Rightarrow> bufEvent list \<times> interestSet \<times> time \<times> bool" where
  "outside s = (events s, interest s, clock s, closeCh s)"

lemma outside_ops [simp]:
  "outside (stage_record cfg r s) = outside s" "outside (enter_flush cfg k s) = outside s"
  "outside (writer_exit s) = outside s" "outside (large_start cfg r s) = outside s"
  "outside (handle cfg r s) = outside s" "outside (flush_returned cfg k s) = outside s"
  "outside (flush_closed k s) = outside s" "outside (flush_count cfg k s) = outside s"
  "outside (flush_write cfg None k s) = outside s" "outside (write_first cfg None r s) = outside s"
  "outside (write_cont cfg None r off s) = outside s" "outside (commit_large cfg r s) = outside s"
  "outside (scan_done cfg None p s) = outside s" "outside (free_pages cfg n s) = outside s"
  by (simp_all add: outside_def stage_record_def enter_flush_def writer_exit_def large_start_def handle_def
      flush_returned_def flush_closed_def flush_count_def flush_write_def write_first_def write_cont_def
      commit_large_def scan_done_def free_pages_def Let_def split: afterFlush.split)

lemma stutter:
  assumes "buf_rel cfg s a" and "inv_bag cfg (pending a) t" and "outside t = outside s" and "internal l"
  shows "\<exists>b. spec_step (decisionWait cfg) a l b \<and> buf_rel cfg t b"
  using assms by (intro exI [of _ a]) (auto simp: buf_rel_def outside_def intro: spec_stutter)

lemma stutter_inv:
  assumes "buf_rel cfg s a" and "buf_inv cfg slots staged t" and "bag slots staged t = pending a"
    and "outside t = outside s" and "internal l"
  shows "\<exists>b. spec_step (decisionWait cfg) a l b \<and> buf_rel cfg t b"
  using assms inv_bagI by (intro stutter) auto

lemma lose:
  assumes "buf_rel cfg s a" and "closeCh s" and "p \<subseteq># pending a" and "inv_bag cfg p t"
    and "outside t = outside s"
  shows "\<exists>b. spec_step (decisionWait cfg) a LWriter b \<and> buf_rel cfg t b"
  using assms
  by (intro exI [of _ "a\<lparr>pending := p\<rparr>"]) (auto simp: buf_rel_def outside_def intro: spec_lose)

lemma in_time_interest:
  "in_time dw (addedAt_of i) r \<longleftrightarrow> hasInterestForSpanRLocked dw i (wr_traceID r) (wr_insertedAt r)"
  by (auto simp: in_time_def hasInterestForSpan_iff split: option.split)

lemma resolve_outcome:
  "resolve cfg press (interest s) (clock s) r = Some oc \<Longrightarrow> buf_rel cfg s a \<Longrightarrow>
   oc = spec_outcome (decisionWait cfg) a r"
  by (auto simp: resolve_def spec_outcome_def buf_rel_def in_time_interest dest!: sym [of "addedAt_of _"]
      split: if_splits)

section \<open>Callers\<close>

lemma Write_rel:
  assumes rel: "buf_rel cfg s a" and st: "storable r" and w: "Write cfg r s = Some t"
  shows "buf_rel cfg t (a\<lparr>pending := add_mset r (pending a)\<rparr>)"
proof -
  obtain slots staged where I: "buf_inv cfg slots staged s" and B: "bag slots staged s = pending a"
    using rel by (auto simp: buf_rel_def elim: inv_bagE)
  have t: "t = s\<lparr>writeCh := writeCh s @ [r]\<rparr>" and r: "req_ok cfg r"
    using w st by (auto simp: Write_def req_ok_def is_large_def try_send_def split: if_splits)
  have "buf_inv cfg slots staged t" using I r by (auto simp: t buf_inv_def flags_ok_def)
  moreover have "bag slots staged t = add_mset r (pending a)" using B by (simp add: t bag_def)
  ultimately show ?thesis using rel by (auto simp: buf_rel_def t intro: inv_bagI)
qed

lemma decide_rel:
  assumes "buf_rel cfg s a"
  shows "buf_rel cfg (buf_AddInterest cfg tid s) (a\<lparr>decided := (\<lambda>u. if u = tid then Some (spec_clock a)
    else drop_expired (decisionWait cfg) (spec_clock a) (decided a u))\<rparr>)"
proof -
  obtain slots staged where I: "buf_inv cfg slots staged s" and B: "bag slots staged s = pending a"
    using assms by (auto simp: buf_rel_def elim: inv_bagE)
  have "buf_inv cfg slots staged (buf_AddInterest cfg tid s)"
    using I by (simp add: buf_inv_split buf_AddInterest_def)
  moreover have "bag slots staged (buf_AddInterest cfg tid s) = pending a"
    using B by (simp add: buf_AddInterest_def)
  ultimately have "inv_bag cfg (pending a) (buf_AddInterest cfg tid s)" by (rule inv_bagI)
  moreover have "interest_inv (clock s) (interest s)" "addedAt_of (interest s) = decided a"
    "clock s = spec_clock a" using assms by (auto simp: buf_rel_def)
  ultimately show ?thesis
    using assms by (auto simp: buf_rel_def buf_AddInterest_def AddInterest_spec fun_eq_iff)
qed

section \<open>The simulation\<close>

lemma writer_sim:
  assumes cfg: "cfg_ok cfg" and rel: "buf_rel cfg s a" and I: "buf_inv cfg slots staged s"
    and B: "bag slots staged s = pending a" and st: "buf_step cfg s LWriter t"
  shows "\<exists>b. spec_step (decisionWait cfg) a LWriter b \<and> buf_rel cfg t b"
  using st
proof cases
  case (w_recv r ch)
  have ch: "writeCh s = r # ch" using w_recv(3) by (auto simp: chan_recv_def split: list.splits)
  let ?s = "s\<lparr>writeCh := ch\<rparr>"
  have "buf_inv cfg slots staged ?s" "req_ok cfg r" using I ch by (auto simp: buf_inv_def flags_ok_def)
  then have "inv_bag cfg (bag slots staged ?s + {#r#}) (handle cfg r ?s)"
    using w_recv(2) by (intro handle_inv) auto
  moreover have "bag slots staged ?s + {#r#} = pending a" using B ch by (simp add: bag_def)
  ultimately show ?thesis using w_recv(1) by (intro stutter [OF rel]) (auto simp: outside_def [of ?s] outside_def [of s])
next
  case w_tick
  show ?thesis
  proof (cases "stageN s > 0")
    case True
    note e = inv_enter_flush [OF I w_tick(2), of FTick]
    have "bag slots staged (enter_flush cfg FTick s) = pending a"
      using e(2) B w_tick(2) by (simp add: bag_def) (simp add: enter_flush_def)
    then show ?thesis using e(1) w_tick True by (intro stutter_inv [OF rel]) auto
  next
    case False
    then show ?thesis using I B w_tick by (intro stutter_inv [OF rel]) auto
  qed
next
  case w_closing
  have "buf_inv cfg slots staged t" using I w_closing by (auto simp: buf_inv_def flags_ok_def)
  then show ?thesis using B w_closing by (intro stutter_inv [OF rel]) (auto simp: outside_def)
next
  case w_drained
  show ?thesis
  proof (cases "stageN s > 0")
    case True
    note e = inv_enter_flush [OF I w_drained(2), of FExit]
    have "bag slots staged (enter_flush cfg FExit s) = pending a"
      using e(2) B w_drained by (simp add: bag_def) (simp add: enter_flush_def)
    then show ?thesis using e(1) w_drained True by (intro stutter_inv [OF rel]) auto
  next
    case False
    then have "stage_ok cfg staged (stage s) 0" using I by (simp add: buf_inv_def)
    then have e: "staged = []" by (rule stage_zero)
    have "buf_inv cfg slots [] (writer_exit s)" using I w_drained e by (intro inv_writer_exit) auto
    moreover have "bag slots [] (writer_exit s) = pending a" using B w_drained e by (simp add: bag_def writer_exit_def)
    ultimately show ?thesis using w_drained False by (intro stutter_inv [OF rel]) auto
  qed
next
  case (w_flush_freed k)
  then show ?thesis using I B by (intro stutter_inv [OF rel, of slots staged]) (auto simp: buf_inv_split outside_def)
next
  case (w_flush_closed k)
  then show ?thesis using flush_closed_inv [OF I w_flush_closed(2)] B by (auto intro: lose [OF rel])
next
  case (w_flush_write k)
  have "bag slots staged t = pending a"
    using B w_flush_write by (simp add: bag_def flush_write_def)
  then show ?thesis
    using inv_flush_write [OF cfg I w_flush_write(2,3)] w_flush_write by (intro stutter_inv [OF rel]) auto
next
  case (w_flush_count k)
  then show ?thesis using flush_count_inv [OF I w_flush_count(2)] B by (intro stutter [OF rel]) auto
next
  case (w_large_freed r)
  then show ?thesis using I B by (intro stutter_inv [OF rel, of slots staged]) (auto simp: buf_inv_split outside_def)
next
  case (w_large_closed r)
  have "buf_inv cfg slots staged t"
    using I w_large_closed by (auto simp: buf_inv_def flags_ok_def)
  moreover have "bag slots staged t \<subseteq># pending a"
    unfolding B [symmetric] using w_large_closed by (simp add: bag_def)
  ultimately show ?thesis
    using w_large_closed by (intro lose [OF rel, of "bag slots staged t"]) (auto simp: outside_def intro: inv_bagI)
next
  case (w_large_room r)
  have "ring_ok cfg slots (bfile s) (used s) (rHead s) (wHead s) [] (chunkBytes cfg r) (head_view (spc s))"
    by (rule ring_reserve) (use I w_large_room in \<open>simp_all add: buf_inv_def room_for_def chunkBytes_def\<close>)
  then have "buf_inv cfg slots staged t" using I w_large_room by (simp add: buf_inv_def flags_ok_def)
  moreover have "bag slots staged t = pending a" using B w_large_room by (simp add: bag_def)
  ultimately show ?thesis using w_large_room by (intro stutter_inv [OF rel]) (auto simp: outside_def)
next
  case (w_first r)
  have "bag slots staged t = pending a" using B w_first by (simp add: bag_def write_first_def Let_def)
  then show ?thesis using inv_write_first [OF cfg I w_first(2)] w_first by (intro stutter_inv [OF rel]) auto
next
  case (w_cont r off)
  have "bag slots staged t = pending a" using B w_cont by (simp add: bag_def write_cont_def Let_def)
  then show ?thesis using inv_write_cont [OF cfg I w_cont(2)] w_cont by (intro stutter_inv [OF rel]) auto
next
  case (w_commit r)
  have "bag (slots @ [Large True r]) staged t = pending a" using B w_commit by (simp add: bag_def commit_large_def)
  then show ?thesis using inv_commit [OF cfg I w_commit(2)] w_commit by (intro stutter_inv [OF rel]) auto
qed

lemma sweeper_sim:
  assumes cfg: "cfg_ok cfg" and rel: "buf_rel cfg s a" and I: "buf_inv cfg slots staged s"
    and B: "bag slots staged s = pending a" and st: "buf_step cfg s LSweeper t"
  shows "\<exists>b. spec_step (decisionWait cfg) a LSweeper b \<and> buf_rel cfg t b"
  using st
proof cases
  case s_check_wait
  then show ?thesis using I B by (intro stutter_inv [OF rel, of slots staged])
      (auto simp: buf_inv_split head_view_def outside_def)
next
  case s_check_exit
  then show ?thesis using I B by (intro stutter_inv [OF rel, of slots staged])
      (auto simp: buf_inv_split head_view_def outside_def)
next
  case s_check_read
  have "ring_inv cfg slots s (head_view (spc s))" using I by (simp add: buf_inv_split)
  then have "slots \<noteq> []" using nonempty_used(1) [OF cfg] s_check_read by (simp add: ring_inv_def)
  then show ?thesis using s_check_read I B by (intro stutter_inv [OF rel, of slots staged])
      (auto simp: buf_inv_split head_view_def outside_def)
next
  case s_wakeup
  then show ?thesis using I B by (intro stutter_inv [OF rel, of slots staged])
      (auto simp: buf_inv_split head_view_def outside_def)
next
  case s_writer_done
  have "rest_ok cfg staged (s\<lparr>closing := True\<rparr>)"
    using I s_writer_done by (auto simp: buf_inv_split rest_ok_def flags_ok_def)
  then show ?thesis using s_writer_done I B by (intro stutter_inv [OF rel, of slots staged])
      (auto simp: buf_inv_split head_view_def outside_def ring_inv_def)
next
  case s_read
  then show ?thesis using inv_read [OF cfg I] B by (intro stutter_inv [OF rel]) (auto simp: outside_def)
next
  case (s_process scratch)
  then show ?thesis using inv_process [OF cfg I] B by (intro stutter_inv [OF rel]) (auto simp: outside_def)
next
  case (s_scan u press pos p nxt p' evs)
  from scan_inv(1) [OF cfg I s_scan(2-4)] obtain slots' where J: "buf_inv cfg slots' staged t"
    and ev: "evs = [] \<and> bag slots' staged s = bag slots staged s \<or>
     (\<exists>r oc. resolve cfg press (interest s) (clock s) r = Some oc \<and> evs = [event_of (r, oc)] \<and>
       bag slots staged s = add_mset r (bag slots' staged s))"
    unfolding s_scan(1) by blast
  have bt: "bag slots' staged t = bag slots' staged s" using s_scan(1) by simp
  from ev show ?thesis
  proof
    assume "evs = [] \<and> bag slots' staged s = bag slots staged s"
    then show ?thesis using bt B s_scan(1) by (intro stutter_inv [OF rel J]) (auto simp: outside_def)
  next
    assume "\<exists>r oc. resolve cfg press (interest s) (clock s) r = Some oc \<and> evs = [event_of (r, oc)] \<and>
       bag slots staged s = add_mset r (bag slots' staged s)"
    then obtain r oc where oc: "resolve cfg press (interest s) (clock s) r = Some oc"
      and evs: "evs = [event_of (r, oc)]" and pa: "pending a = add_mset r (bag slots' staged t)"
      using B bt by auto
    let ?b = "a\<lparr>pending := pending a - {#r#}, resolved := resolved a @ [(r, spec_outcome (decisionWait cfg) a r)]\<rparr>"
    have "spec_step (decisionWait cfg) a LSweeper ?b" using pa by (intro spec_resolve) simp
    moreover have "inv_bag cfg (pending a - {#r#}) t" using inv_bagI [OF J] pa by simp
    then have "buf_rel cfg t ?b"
      using rel evs resolve_outcome [OF oc rel] s_scan(1) by (auto simp: buf_rel_def)
    ultimately show ?thesis by blast
  qed
next
  case (s_scan_end u press pos p)
  then show ?thesis using inv_scan_end [OF cfg I] B by (intro stutter_inv [OF rel]) (auto simp: outside_def)
next
  case (s_writeback p)
  then show ?thesis using inv_writeback [OF cfg I] B by (intro stutter_inv [OF rel]) auto
next
  case (s_free n)
  then show ?thesis using inv_free [OF cfg I] B by (auto intro!: stutter_inv [OF rel])
qed

lemma caller_sim:
  assumes rel: "buf_rel cfg s a" and I: "buf_inv cfg slots staged s" and B: "bag slots staged s = pending a"
    and st: "buf_step cfg s l t" and good: "sound_label l" and l: "l \<noteq> LWriter" "l \<noteq> LSweeper"
  shows "\<exists>b. spec_step (decisionWait cfg) a l b \<and> buf_rel cfg t b"
  using st
proof cases
  case (write_ok r)
  then show ?thesis using Write_rel [OF rel] good spec_accept [of "decisionWait cfg" a r]
    by (auto simp: sound_label_def)
next
  case (write_full r)
  then show ?thesis using rel spec_stutter [of "LWrite r False" "decisionWait cfg" a] by auto
next
  case (add_interest tid)
  then show ?thesis using decide_rel [OF rel] spec_decide by blast
next
  case (time now)
  have "inv_bag cfg (pending a) t" using I B time by (intro inv_bagI) (auto simp: buf_inv_split)
  then have "buf_rel cfg t (a\<lparr>spec_clock := now\<rparr>)"
    using rel time by (auto simp: buf_rel_def intro: interest_inv_mono)
  moreover have "spec_step (decisionWait cfg) a LTime (a\<lparr>spec_clock := now\<rparr>)"
    using rel time by (intro spec_time) (auto simp: buf_rel_def)
  ultimately show ?thesis using time by blast
next
  case (timer d)
  then show ?thesis using I B
    by (intro stutter_inv [OF rel, of slots staged]) (auto simp: buf_inv_split outside_def)
next
  case close
  have "inv_bag cfg (pending a) t"
    using I B close by (intro inv_bagI [of cfg slots staged]) (auto simp: buf_inv_def flags_ok_def)
  then have "buf_rel cfg t (a\<lparr>shut := True\<rparr>)" using rel close by (auto simp: buf_rel_def)
  then show ?thesis using close spec_close by blast
qed (use good l in \<open>auto simp: sound_label_def\<close>)

lemma buf_sim:
  assumes "buf_step cfg s l t" and "sound_label l" and rel: "buf_rel cfg s a"
  shows "\<exists>b. spec_step (decisionWait cfg) a l b \<and> buf_rel cfg t b"
proof -
  obtain slots staged where IB: "buf_inv cfg slots staged s" "bag slots staged s = pending a"
    using rel by (auto simp: buf_rel_def elim: inv_bagE)
  have cfg: "cfg_ok cfg" using rel by (simp add: buf_rel_def)
  show ?thesis
    using writer_sim [OF cfg rel IB] sweeper_sim [OF cfg rel IB] caller_sim [OF rel IB] assms(1,2) by blast
qed

interpretation buf: simulation "buf_step cfg" "spec_step (decisionWait cfg)" "buf_rel cfg" sound_label for cfg
  by unfold_locales (rule buf_sim)

end
