(* ===== verification/Buffer_Example.thy ===== *)
theory Buffer_Example
  imports Buffer_Machine
begin

text \<open>
  A complete run of the span buffer on concrete input, for the properties about runs: a record is
  written, a trace decided, and the record staged, flushed and read back; then it is delivered and
  freed if it was its own trace, and evicted after the decision wait if it was another one.
\<close>

definition exCfg :: bufferCfg where
  "exCfg = \<lparr>pageSize = 30, maxBytes = 60, decisionWait = 10\<rparr>"

definition exID :: TraceID where
  "exID = [1, 0, 0, 0, 0, 0, 0, 0, 0, 0, 0, 0, 0, 0, 0, 2]"

definition exReq :: writeReq where
  "exReq = \<lparr>wr_traceID = exID, wr_data = [7, 8], wr_insertedAt = 5\<rparr>"

definition exPage :: bytes where
  "exPage = exID @ [0, 0, 0, 0, 0, 0, 0, 5, 0, 0, 0, 2, 7, 8]"

definition exDone :: bytes where
  "exDone = tombstoneID @ [0, 0, 0, 0, 0, 0, 0, 5, 0, 0, 0, 2, 7, 8]"

definition exWrites :: "TraceID \<Rightarrow> bufLabel list" where
  "exWrites t = [LWrite exReq True, LAddInterest t, LWriter, LWriter, LWriter, LWriter,
     LSweeper, LSweeper, LSweeper]"

definition exLabels :: "bufLabel list" where
  "exLabels = exWrites exID @ [LSweeper, LSweeper, LSweeper, LSweeper]"

definition exOther :: TraceID where
  "exOther = [2, 0, 0, 0, 0, 0, 0, 0, 0, 0, 0, 0, 0, 0, 0, 2]"

definition exLate :: "bufLabel list" where
  "exLate = exWrites exOther @ [LTime]"

definition exInit :: bufferState where
  "exInit = initState exCfg (\<lambda>_. 0) 5"

definition exDecided :: "TraceID \<Rightarrow> bufferState" where
  "exDecided t = exInit\<lparr>writeCh := [exReq], interest := AddInterest 10 5 t empty_interest, wakeup := True\<rparr>"

definition exStaged :: "TraceID \<Rightarrow> bufferState" where
  "exStaged t = exDecided t\<lparr>writeCh := [], stage := exPage, stageN := 30\<rparr>"

definition exCounted :: "TraceID \<Rightarrow> bufferState" where
  "exCounted t = exStaged t\<lparr>bfile := file_write (\<lambda>_. 0) 0 exPage, wHead := 30, used := 30, stageN := 0\<rparr>"

definition exScanned :: bufferState where
  "exScanned = exCounted exID\<lparr>spc := SScan 30 False 30 \<lparr>ps_scratch = exDone, ps_fullyConsumed = True,
     ps_chunksConsumed = 1, ps_minRemaining = 0, ps_needsWriteback = True\<rparr>, events := [OnMatch exID [7, 8]]\<rparr>"

definition exFinal :: bufferState where
  "exFinal = exScanned\<lparr>bfile := file_write (file_write (\<lambda>_. 0) 0 exPage) 0 exDone, rHead := 30, used := 0,
     pageFreed := True, spc := SCheck\<rparr>"

lemmas ex_states = exInit_def exDecided_def exStaged_def exCounted_def exScanned_def exFinal_def initState_def

lemma ex_staged:
  "copy_at (put_header (replicate 30 0) 0 exReq) hdrSize [7, 8] = exPage"
  by code_simp

lemma ex_read: "ReadAt (file_write (\<lambda>_. 0) 0 exPage) 0 30 = exPage"
  by code_simp

lemma ex_scan:
  "scan_record exCfg 30 False f rf 0 (AddInterest 10 5 exID empty_interest) 5 0 (startScan exPage) =
     (Some 30, \<lparr>ps_scratch = exDone, ps_fullyConsumed = True, ps_chunksConsumed = 1, ps_minRemaining = 0,
        ps_needsWriteback = True\<rparr>, [OnMatch exID [7, 8]])"
  by code_simp

section \<open>The steps\<close>

lemma ex_write: "buf_step exCfg exInit (LWrite exReq True) (exInit\<lparr>writeCh := [exReq]\<rparr>)"
  by (rule buf_step.write_ok) (simp add: Write_def exCfg_def exReq_def hdrSize_def try_send_def pageCount_def ex_states)

lemma ex_decide: "buf_step exCfg (exInit\<lparr>writeCh := [exReq]\<rparr>) (LAddInterest t) (exDecided t)"
proof -
  have "buf_AddInterest exCfg t (exInit\<lparr>writeCh := [exReq]\<rparr>) = exDecided t"
    by (simp add: buf_AddInterest_def exCfg_def ex_states)
  then show ?thesis by (metis buf_step.add_interest)
qed

lemma ex_recv: "buf_step exCfg (exDecided t) LWriter (exStaged t)"
proof -
  have "handle exCfg exReq ((exDecided t)\<lparr>writeCh := []\<rparr>) = (exStaged t)"
    using ex_staged by (simp add: handle_def stage_record_def exCfg_def exReq_def hdrSize_def ex_states)
  moreover have "chan_recv (writeCh (exDecided t)) = Some (exReq, [])" by (simp add: chan_recv_def ex_states)
  ultimately show ?thesis using buf_step.w_recv [of "exDecided t" exReq "[]" exCfg] by (simp add: ex_states)
qed

lemma ex_tick: "buf_step exCfg (exStaged t) LWriter ((exStaged t)\<lparr>wpc := WFlush FTick\<rparr>)"
proof -
  have "enter_flush exCfg FTick (exStaged t) = (exStaged t)\<lparr>wpc := WFlush FTick\<rparr>"
    by (simp add: enter_flush_def clear_from_def exCfg_def exPage_def exID_def ex_states)
  then show ?thesis using buf_step.w_tick [of "exStaged t" exCfg] by (simp add: ex_states)
qed

lemma ex_flush: "buf_step exCfg ((exStaged t)\<lparr>wpc := WFlush FTick\<rparr>) LWriter
    ((exStaged t)\<lparr>wpc := WFlushed FTick, bfile := file_write (\<lambda>_. 0) 0 exPage, wHead := 30\<rparr>)"
proof -
  have "flush_write exCfg None FTick ((exStaged t)\<lparr>wpc := WFlush FTick\<rparr>) =
      (exStaged t)\<lparr>wpc := WFlushed FTick, bfile := file_write (\<lambda>_. 0) 0 exPage, wHead := 30\<rparr>"
    by (simp add: flush_write_def WriteAt_def next_page_def exCfg_def ex_states)
  then show ?thesis
    using buf_step.w_flush_write [of "(exStaged t)\<lparr>wpc := WFlush FTick\<rparr>" FTick exCfg]
    by (simp add: room_for_def exCfg_def ex_states)
qed

lemma ex_count: "buf_step exCfg
    ((exStaged t)\<lparr>wpc := WFlushed FTick, bfile := file_write (\<lambda>_. 0) 0 exPage, wHead := 30\<rparr>) LWriter (exCounted t)"
proof -
  let ?s = "(exStaged t)\<lparr>wpc := WFlushed FTick, bfile := file_write (\<lambda>_. 0) 0 exPage, wHead := 30\<rparr>"
  have "flush_count exCfg FTick ?s = (exCounted t)"
    by (simp add: flush_count_def flush_returned_def exCfg_def ex_states)
  then show ?thesis using buf_step.w_flush_count [of ?s FTick exCfg] by simp
qed

lemma ex_sweep_read:
  "buf_step exCfg (exCounted t) LSweeper ((exCounted t)\<lparr>spc := SRead\<rparr>)"
  "buf_step exCfg ((exCounted t)\<lparr>spc := SRead\<rparr>) LSweeper ((exCounted t)\<lparr>spc := SProcess exPage\<rparr>)"
  using buf_step.s_check_read [of "exCounted t" exCfg] buf_step.s_read [of "(exCounted t)\<lparr>spc := SRead\<rparr>" exCfg] ex_read
  by (simp_all add: exCfg_def ex_states)

lemma ex_sweep_process: "buf_step exCfg ((exCounted t)\<lparr>spc := SProcess exPage\<rparr>) LSweeper
    ((exCounted t)\<lparr>spc := SScan 30 False 0 (startScan exPage)\<rparr>)"
proof -
  have "pressure exCfg 30 False = False" by (simp add: pressure_def exCfg_def wrap64_def signed_divide_int_def)
  then show ?thesis
    using buf_step.s_process [of "(exCounted t)\<lparr>spc := SProcess exPage\<rparr>" exPage exCfg] by (simp add: ex_states)
qed

lemma ex_sweep_scan: "buf_step exCfg ((exCounted exID)\<lparr>spc := SScan 30 False 0 (startScan exPage)\<rparr>) LSweeper exScanned"
proof -
  let ?s = "(exCounted exID)\<lparr>spc := SScan 30 False 0 (startScan exPage)\<rparr>"
  have "scan_record exCfg 30 False (bfile ?s) (\<lambda>_. None) (rHead ?s) (interest ?s) (clock ?s) 0 (startScan exPage) =
     (Some 30, \<lparr>ps_scratch = exDone, ps_fullyConsumed = True, ps_chunksConsumed = 1, ps_minRemaining = 0,
        ps_needsWriteback = True\<rparr>, [OnMatch exID [7, 8]])"
    using ex_scan by (simp add: ex_states)
  from buf_step.s_scan [OF _ _ this] show ?thesis
    by (simp add: exCfg_def hdrSize_def ex_states)
qed

lemma ex_sweep_end: "\<exists>t. buf_step exCfg exScanned LSweeper t \<and> (\<exists>u. buf_step exCfg t LSweeper u \<and>
    buf_step exCfg u LSweeper exFinal)"
proof -
  let ?p = "\<lparr>ps_scratch = exDone, ps_fullyConsumed = True, ps_chunksConsumed = 1, ps_minRemaining = 0,
        ps_needsWriteback = True\<rparr>"
  let ?t = "exScanned\<lparr>spc := SWriteback ?p\<rparr>"
  let ?u = "exScanned\<lparr>bfile := file_write (file_write (\<lambda>_. 0) 0 exPage) 0 exDone, spc := SFree 1\<rparr>"
  have "buf_step exCfg exScanned LSweeper ?t"
    using buf_step.s_scan_end [of exScanned 30 False 30 ?p exCfg] by (simp add: exCfg_def hdrSize_def ex_states)
  moreover have "scan_done exCfg None ?p ?t = ?u" by (simp add: scan_done_def WriteAt_def ex_states)
  then have "buf_step exCfg ?t LSweeper ?u" using buf_step.s_writeback [of ?t ?p exCfg] by simp
  moreover have "free_pages exCfg 1 ?u = exFinal" by (simp add: free_pages_def exCfg_def ex_states)
  then have "buf_step exCfg ?u LSweeper exFinal" using buf_step.s_free [of ?u 1 exCfg] by simp
  ultimately show ?thesis by blast
qed

lemma ex_run_process: "run (buf_step exCfg) (initState exCfg (\<lambda>_. 0) 5) (exWrites t)
    ((exCounted t)\<lparr>spc := SScan 30 False 0 (startScan exPage)\<rparr>)"
proof -
  note r = run_snoc [OF run_nil [of "buf_step exCfg"] ex_write]
  note r = run_snoc [OF run_snoc [OF r ex_decide] ex_recv]
  note r = run_snoc [OF run_snoc [OF run_snoc [OF r ex_tick] ex_flush] ex_count]
  note r = run_snoc [OF run_snoc [OF run_snoc [OF r ex_sweep_read(1)] ex_sweep_read(2)] ex_sweep_process]
  show ?thesis using r by (simp add: exWrites_def exInit_def)
qed

lemma ex_run: "run (buf_step exCfg) (initState exCfg (\<lambda>_. 0) 5) exLabels exFinal"
proof -
  obtain t u where e: "buf_step exCfg exScanned LSweeper t" "buf_step exCfg t LSweeper u"
    "buf_step exCfg u LSweeper exFinal" using ex_sweep_end by blast
  note r = run_snoc [OF run_snoc [OF ex_run_process ex_sweep_scan] e(1)]
  note r = run_snoc [OF run_snoc [OF r e(2)] e(3)]
  show ?thesis using r by (simp add: exLabels_def)
qed

text \<open>The decision was for another trace: the record is evicted once its window is over.\<close>

definition exWaited :: bufferState where
  "exWaited = (exCounted exOther)\<lparr>clock := 15, spc := SScan 30 False 0 (startScan exPage)\<rparr>"

lemma ex_late: "run (buf_step exCfg) (initState exCfg (\<lambda>_. 0) 5) exLate exWaited"
proof -
  have "buf_step exCfg ((exCounted exOther)\<lparr>spc := SScan 30 False 0 (startScan exPage)\<rparr>) LTime exWaited"
    using buf_step.time [of "(exCounted exOther)\<lparr>spc := SScan 30 False 0 (startScan exPage)\<rparr>" 15 exCfg]
    by (simp add: exWaited_def ex_states)
  from run_snoc [OF ex_run_process this] show ?thesis by (simp add: exLate_def)
qed

lemma ex_evict: "buf_step exCfg exWaited LSweeper (exWaited\<lparr>events := [EvictObs 10], spc := SScan 30 False 30
   \<lparr>ps_scratch = exDone, ps_fullyConsumed = True, ps_chunksConsumed = 1, ps_minRemaining = 0,
        ps_needsWriteback = True\<rparr>\<rparr>)"
proof -
  have "scan_record exCfg 30 False f rf 0 (AddInterest 10 5 exOther empty_interest) 15 0 (startScan exPage) =
     (Some 30, \<lparr>ps_scratch = exDone, ps_fullyConsumed = True, ps_chunksConsumed = 1, ps_minRemaining = 0,
        ps_needsWriteback = True\<rparr>, [EvictObs 10])" for f rf
    by code_simp
  then have "scan_record exCfg 30 False (bfile exWaited) (\<lambda>_. None) (rHead exWaited) (interest exWaited)
      (clock exWaited) 0 (startScan exPage) =
     (Some 30, \<lparr>ps_scratch = exDone, ps_fullyConsumed = True, ps_chunksConsumed = 1, ps_minRemaining = 0,
        ps_needsWriteback = True\<rparr>, [EvictObs 10])"
    by (simp add: exWaited_def ex_states)
  from buf_step.s_scan [OF _ _ this] show ?thesis by (simp add: exWaited_def exCfg_def hdrSize_def ex_states)
qed

text \<open>The same record looked at before its window is over: it stays, and a timer is armed.\<close>

definition exSleeping :: bufferState where
  "exSleeping = (exCounted exOther)\<lparr>spc := SPageWait, timers := [15]\<rparr>"

lemma ex_sleeping: "run (buf_step exCfg) (initState exCfg (\<lambda>_. 0) 5)
    (exWrites exOther @ [LSweeper, LSweeper, LSweeper]) exSleeping"
proof -
  let ?p = "\<lparr>ps_scratch = exPage, ps_fullyConsumed = False, ps_chunksConsumed = 1, ps_minRemaining = 10,
        ps_needsWriteback = False\<rparr>"
  let ?s = "\<lambda>pc. (exCounted exOther)\<lparr>spc := pc\<rparr>"
  let ?start = "?s (SScan 30 False 0 (startScan exPage))"
  have "scan_record exCfg 30 False f rf 0 (AddInterest 10 5 exOther empty_interest) 5 0 (startScan exPage) =
     (Some 30, ?p, [])" for f rf
    by code_simp
  then have "scan_record exCfg 30 False (bfile ?start) (\<lambda>_. None) (rHead ?start) (interest ?start) (clock ?start) 0
      (startScan exPage) = (Some 30, ?p, [])"
    by (simp add: ex_states)
  from buf_step.s_scan [OF _ _ this] have
    a: "buf_step exCfg ?start LSweeper (?s (SScan 30 False 30 ?p))"
    by (simp add: exCfg_def hdrSize_def ex_states)
  have b: "buf_step exCfg (?s (SScan 30 False 30 ?p)) LSweeper (?s (SWriteback ?p))"
    using buf_step.s_scan_end [of "?s (SScan 30 False 30 ?p)" 30 False 30 ?p exCfg]
    by (simp add: exCfg_def hdrSize_def ex_states)
  have "scan_done exCfg None ?p (?s (SWriteback ?p)) = exSleeping"
    by (simp add: scan_done_def exSleeping_def ex_states)
  then have c: "buf_step exCfg (?s (SWriteback ?p)) LSweeper exSleeping"
    using buf_step.s_writeback [of "?s (SWriteback ?p)" ?p exCfg] by simp
  from run_snoc [OF run_snoc [OF run_snoc [OF ex_run_process a] b] c] show ?thesis by simp
qed

end
