(* ===== verification/Buffer_Properties.thy ===== *)
theory Buffer_Properties
  imports Buffer_Simulation Buffer_Example
begin

text \<open>
  What the span buffer guarantees its callers, for every interleaving of its goroutines, as long
  as no file operation fails: the properties follow from the simulation \<open>buf\<close> and from the
  specification alone, apart from the wake-up discipline (\<open>wake_ok\<close>), which is an invariant of
  its own.
\<close>

section \<open>Runs of the specification\<close>

fun accepted :: "bufLabel list \<Rightarrow> writeReq list" where
  "accepted [] = []"
| "accepted (LWrite r True # ls) = r # accepted ls"
| "accepted (_ # ls) = accepted ls"

lemma accepted_append [simp]: "accepted (xs @ ys) = accepted xs @ accepted ys"
  by (induction xs rule: accepted.induct) auto

definition conserves :: "writeReq list \<Rightarrow> BufferSpec \<Rightarrow> bool" where
  "conserves acc a \<longleftrightarrow> pending a + mset (map fst (resolved a)) \<subseteq># mset acc \<and>
     (\<not> shut a \<longrightarrow> pending a + mset (map fst (resolved a)) = mset acc)"

lemma spec_step_conserves:
  assumes "spec_step dw a l b" and "conserves (accepted ls) a"
  shows "conserves (accepted (ls @ [l])) b"
  using assms
proof cases
  case (spec_lose p)
  have "p + mset (map fst (resolved a)) \<subseteq># pending a + mset (map fst (resolved a))"
    using spec_lose by simp
  also have "\<dots> \<subseteq># mset (accepted ls)" using assms(2) by (simp add: conserves_def)
  finally show ?thesis using spec_lose by (simp add: conserves_def)
next
  case (spec_resolve r)
  then have "pending b + mset (map fst (resolved b)) = pending a + mset (map fst (resolved a))"
    by (simp add: insert_DiffM)
  moreover have "accepted (ls @ [l]) = accepted ls" "shut b = shut a" using spec_resolve by simp_all
  ultimately show ?thesis using assms(2) unfolding conserves_def by metis
next
  case (spec_stutter)
  then have "accepted [l] = []" by (cases l) auto
  then show ?thesis using spec_stutter assms(2) by simp
qed (auto simp: conserves_def)

lemma spec_run_conserves:
  "run (spec_step dw) (initSpec now) ls a \<Longrightarrow> conserves (accepted ls) a"
proof (induction rule: run.induct)
  case run_nil
  show ?case by (simp add: conserves_def initSpec_def)
next
  case (run_snoc ls s l t)
  then show ?case by (blast intro: spec_step_conserves)
qed

lemma spec_run_shut:
  "run (spec_step dw) (initSpec now) ls a \<Longrightarrow> shut a \<longleftrightarrow> LClose \<in> set ls"
proof (induction rule: run.induct)
  case (run_snoc ls s l t)
  from run_snoc.hyps(2) show ?case using run_snoc.IH by cases auto
qed (simp add: initSpec_def)

section \<open>Reachable states\<close>

definition buf_reach :: "bufferCfg \<Rightarrow> bufLabel list \<Rightarrow> bufferState \<Rightarrow> bool" where
  "buf_reach cfg ls s \<longleftrightarrow> cfg_ok cfg \<and> (\<forall>l \<in> set ls. sound_label l) \<and>
     (\<exists>f0 now. run (buf_step cfg) (initState cfg f0 now) ls s)"

lemma reach_spec:
  assumes "buf_reach cfg ls s"
  obtains a now where "run (spec_step (decisionWait cfg)) (initSpec now) ls a" and "buf_rel cfg s a"
proof -
  obtain f0 now where r: "run (buf_step cfg) (initState cfg f0 now) ls s" and c: "cfg_ok cfg"
    and g: "\<forall>l \<in> set ls. sound_label l" using assms by (auto simp: buf_reach_def)
  from buf.run_sim [OF r init_rel [OF c] g] that show thesis by blast
qed

lemma reach_inv:
  assumes "buf_reach cfg ls s"
  obtains slots staged where "buf_inv cfg slots staged s"
  using assms by (auto simp: buf_rel_def elim!: reach_spec inv_bagE)

definition quiescent :: "bufferState \<Rightarrow> bool" where
  "quiescent s \<longleftrightarrow> wpc s = WSelect \<and> stageN s = 0 \<and> writeCh s = [] \<and> used s = 0"

lemma quiescent_empty:
  assumes cfg: "cfg_ok cfg" and I: "buf_inv cfg slots staged s" and q: "quiescent s"
  shows "bag slots staged s = {#}"
proof -
  have "stage_ok cfg staged (stage s) 0" using I q by (simp add: buf_inv_def quiescent_def)
  then have "staged = []" by (rule stage_zero)
  moreover have "slots = []"
    using nonempty_used(1) [OF cfg, of slots] I q by (auto simp: buf_inv_def quiescent_def)
  ultimately show ?thesis using q by (simp add: bag_def quiescent_def)
qed

text \<open>The calls of \<open>onMatch\<close> in a list of callbacks.\<close>

fun deliveries :: "bufEvent list \<Rightarrow> (TraceID \<times> bytes) list" where
  "deliveries [] = []"
| "deliveries (OnMatch t d # es) = (t, d) # deliveries es"
| "deliveries (EvictObs age # es) = deliveries es"

lemma deliveries_resolved:
  "mset (deliveries (map event_of res)) \<subseteq># image_mset (\<lambda>r. (wr_traceID r, wr_data r)) (mset (map fst res))"
proof (induction res)
  case (Cons x res)
  obtain r oc where "x = (r, oc)" by (cases x)
  with Cons show ?case by (cases oc) (auto intro: subset_mset.order_trans)
qed simp

lemma reach_deliveries:
  assumes "buf_reach cfg ls s"
  shows "mset (deliveries (events s)) \<subseteq># image_mset (\<lambda>r. (wr_traceID r, wr_data r)) (mset (accepted ls))"
proof -
  obtain a now where r: "run (spec_step (decisionWait cfg)) (initSpec now) ls a" and rel: "buf_rel cfg s a"
    using assms by (rule reach_spec)
  have "mset (map fst (resolved a)) \<subseteq># mset (accepted ls)"
    using spec_run_conserves [OF r] unfolding conserves_def
    by (meson mset_subset_eq_add_right subset_mset.order_trans)
  then show ?thesis
    using rel deliveries_resolved [of "resolved a"] image_mset_subseteq_mono
    by (metis (no_types, lifting) buf_rel_def subset_mset.order_trans)
qed

section \<open>Wake-ups\<close>

text \<open>
  The sweeper sleeps on one token (\<open>wakeup\<close>) and on timers it arms itself. \<open>wake_ok\<close>: while it
  sleeps on an empty ring, pages counted since are announced by the token; while it sleeps on a
  page, the token is there, or a timer is armed and the buffer is not under pressure.
\<close>

definition wake_ok :: "bufferCfg \<Rightarrow> bufferState \<Rightarrow> bool" where
  "wake_ok cfg s \<longleftrightarrow> (case spc s of
       SEmptyWait \<Rightarrow> used s \<noteq> 0 \<longrightarrow> wakeup s
     | SScan u press pos p \<Rightarrow> press = pressure cfg u (closing s) \<and> (press \<longrightarrow> ps_fullyConsumed p) \<and>
         (\<not> ps_fullyConsumed p \<longrightarrow> 0 < ps_minRemaining p) \<and> 0 \<le> ps_minRemaining p \<and> (wakeup s \<or> used s \<le> u)
     | SWriteback p \<Rightarrow> \<not> ps_fullyConsumed p \<longrightarrow>
         0 < ps_minRemaining p \<and> (wakeup s \<or> \<not> pressure cfg (used s) (closing s))
     | SPageWait \<Rightarrow> wakeup s \<or> timers s \<noteq> [] \<and> \<not> pressure cfg (used s) (closing s)
     | _ \<Rightarrow> True)"

lemma pressure_mono: "pressure cfg u c \<Longrightarrow> u \<le> v \<Longrightarrow> pressure cfg v c"
  by (auto simp: pressure_def)

text \<open>The writer counts pages only together with the token, and leaves the sweeper's state alone.\<close>

lemma writer_wakes:
  assumes "buf_step cfg s LWriter t"
  shows "spc t = spc s \<and> closing t = closing s \<and> timers t = timers s \<and> (wakeup s \<longrightarrow> wakeup t) \<and>
    (used t = used s \<or> wakeup t)"
proof -
  have fr: "spc (flush_returned cfg k s) = spc s \<and> closing (flush_returned cfg k s) = closing s \<and>
      timers (flush_returned cfg k s) = timers s \<and> wakeup (flush_returned cfg k s) = wakeup s \<and>
      used (flush_returned cfg k s) = used s" for k s
    by (simp add: flush_returned_def stage_record_def large_start_def writer_exit_def split: afterFlush.split)
  show ?thesis
    using assms
    by cases (simp_all add: handle_def enter_flush_def stage_record_def large_start_def writer_exit_def
      flush_closed_def flush_write_def flush_count_def fr write_first_def write_cont_def commit_large_def
      Let_def split: afterFlush.split)
qed

lemma writer_wake_ok:
  assumes st: "buf_step cfg s LWriter t" and ok: "wake_ok cfg s"
  shows "wake_ok cfg t"
  using writer_wakes [OF st] ok by (auto simp: wake_ok_def split: spc.splits)

text \<open>A kept record has a positive waiting time, unless the clock arithmetic overflows.\<close>

lemma rest_wait_pos:
  assumes "resolve cfg press intr now r = None" and "0 \<le> now" and "0 < decisionWait cfg"
    and "decisionWait cfg \<le> maxDuration" and "wr_insertedAt r + decisionWait cfg < 2 ^ 63"
  shows "0 < rest_wait cfg now r" and "\<not> press"
proof -
  define age where "age = span_age now r"
  have young: "age < decisionWait cfg" using assms(1) by (auto simp: resolve_def age_def split: if_splits)
  have "decisionWait cfg - age < 2 ^ 63"
    using assms(2-5) by (auto simp: age_def span_age_def time_Sub_def minDuration_def maxDuration_def)
  then show "0 < rest_wait cfg now r"
    using young by (simp add: rest_wait_def age_def [symmetric] wrap64_id)
  show "\<not> press" using assms(1) by (auto simp: resolve_def split: if_splits)
qed

definition timely :: "bufferCfg \<Rightarrow> writeReq \<Rightarrow> bool" where
  "timely cfg r \<longleftrightarrow> decisionWait cfg \<le> maxDuration \<and> wr_insertedAt r + decisionWait cfg < 2 ^ 63"

lemma sweeper_wake_ok:
  assumes st: "buf_step cfg s LSweeper t" and ok: "wake_ok cfg s" and rel: "buf_rel cfg s a"
    and tm: "\<forall>r \<in># pending a. timely cfg r" and now: "0 \<le> clock s"
  shows "wake_ok cfg t"
  using st
proof cases
  case (s_scan u press pos p nxt p' evs)
  obtain slots staged where I: "buf_inv cfg slots staged s" and B: "bag slots staged s = pending a"
    using rel by (auto simp: buf_rel_def elim: inv_bagE)
  have cfg: "cfg_ok cfg" using rel by (simp add: buf_rel_def)
  have w: "press = pressure cfg u (closing s)" "press \<longrightarrow> ps_fullyConsumed p"
    "\<not> ps_fullyConsumed p \<longrightarrow> 0 < ps_minRemaining p" "0 \<le> ps_minRemaining p" "wakeup s \<or> used s \<le> u"
    using ok s_scan(2) by (auto simp: wake_ok_def)
  have p': "(press \<longrightarrow> ps_fullyConsumed p') \<and> (\<not> ps_fullyConsumed p' \<longrightarrow> 0 < ps_minRemaining p') \<and>
      0 \<le> ps_minRemaining p'"
    using scan_inv(2) [OF cfg I s_scan(2-4)]
  proof
    assume "\<exists>r. r \<in># bag slots staged s \<and> resolve cfg press (interest s) (clock s) r = None \<and>
         p' = keep_waiting (rest_wait cfg (clock s) r) p"
    then obtain r where "timely cfg r" and n: "resolve cfg press (interest s) (clock s) r = None"
      and p': "p' = keep_waiting (rest_wait cfg (clock s) r) p" using B tm by auto
    then have "0 < rest_wait cfg (clock s) r" "\<not> press"
      using rest_wait_pos [OF n now] cfg by (auto simp: timely_def cfg_ok_def)
    with w(4) show ?thesis unfolding p' by (auto simp: keep_waiting_def)
  qed (use w in auto)
  have "wakeup s \<or> \<not> pressure cfg (used s) (closing s)" if "\<not> ps_fullyConsumed p'"
    using that p' w pressure_mono by auto
  then show ?thesis
    using s_scan(1) p' w by (cases nxt) (auto simp: wake_ok_def)
next
  case (s_scan_end u press pos p)
  have w: "press = pressure cfg u (closing s)" "press \<longrightarrow> ps_fullyConsumed p"
    "\<not> ps_fullyConsumed p \<longrightarrow> 0 < ps_minRemaining p" "wakeup s \<or> used s \<le> u"
    using ok s_scan_end(2) by (auto simp: wake_ok_def)
  then have "wakeup s \<or> \<not> pressure cfg (used s) (closing s)" if "\<not> ps_fullyConsumed p"
    using that pressure_mono by auto
  then show ?thesis using s_scan_end(1) w by (auto simp: wake_ok_def)
next
  case (s_writeback p)
  then show ?thesis using ok by (auto simp: wake_ok_def scan_done_def)
qed (auto simp: wake_ok_def startScan_def free_pages_def)

lemma caller_wake_ok:
  assumes st: "buf_step cfg s l t" and l: "l \<noteq> LWriter" "l \<noteq> LSweeper" and g: "sound_label l" and ok: "wake_ok cfg s"
  shows "wake_ok cfg t"
proof -
  have "spc t = spc s \<and> closing t = closing s \<and> used t = used s \<and> (wakeup t \<or> timers t = timers s \<and> wakeup t = wakeup s)"
    using st by cases (use l g in \<open>auto simp: sound_label_def Write_def buf_AddInterest_def split: if_splits\<close>)
  then show ?thesis using ok by (auto simp: wake_ok_def split: spc.splits)
qed

fun timely_label :: "bufferCfg \<Rightarrow> bufLabel \<Rightarrow> bool" where
  "timely_label cfg (LWrite r b) = timely cfg r"
| "timely_label cfg _ = True"

lemma spec_step_timely:
  assumes "spec_step dw a l b" and "timely_label cfg l" and "\<forall>r \<in># pending a. timely cfg r"
  shows "\<forall>r \<in># pending b. timely cfg r"
  using assms by cases (auto dest: mset_subset_eqD in_diffD)

lemma clock_forward: "buf_step cfg s l t \<Longrightarrow> sound_label l \<Longrightarrow> buf_rel cfg s a \<Longrightarrow> clock s \<le> clock t"
proof -
  assume st: "buf_step cfg s l t" and "sound_label l" "buf_rel cfg s a"
  then obtain b where "spec_step (decisionWait cfg) a l b" "buf_rel cfg t b" "buf_rel cfg s a"
    using buf_sim by blast
  then show ?thesis by (auto simp: buf_rel_def elim!: spec_step.cases)
qed

lemma reach_wake_ok:
  assumes "cfg_ok cfg" and "run (buf_step cfg) (initState cfg f0 now) ls s" and "0 \<le> now"
    and "\<forall>l \<in> set ls. sound_label l \<and> timely_label cfg l"
  shows "wake_ok cfg s \<and> (\<exists>a. buf_rel cfg s a)"
proof -
  define I where "I s \<longleftrightarrow> wake_ok cfg s \<and> 0 \<le> clock s \<and>
    (\<exists>a. buf_rel cfg s a \<and> (\<forall>r \<in># pending a. timely cfg r))" for s
  have "I s"
  proof (rule run_invariant [OF assms(2)])
    show "I (initState cfg f0 now)"
      using init_rel [OF assms(1)] assms(3)
      by (auto simp: I_def wake_ok_def initState_def initSpec_def intro!: exI [of _ "initSpec now"])
  next
    fix s l t assume st: "buf_step cfg s l t" and l: "l \<in> set ls" and "I s"
    then obtain a where a: "wake_ok cfg s" "0 \<le> clock s" "buf_rel cfg s a" "\<forall>r \<in># pending a. timely cfg r"
      by (auto simp: I_def)
    have g: "sound_label l" "timely_label cfg l" using l assms(4) by auto
    obtain b where b: "spec_step (decisionWait cfg) a l b" "buf_rel cfg t b"
      using buf_sim [OF st g(1) a(3)] by blast
    have "wake_ok cfg t"
    proof (cases "l = LWriter \<or> l = LSweeper")
      case True
      then show ?thesis using writer_wake_ok [OF _ a(1)] sweeper_wake_ok [OF _ a(1,3,4,2)] st by auto
    next
      case False
      then show ?thesis using caller_wake_ok [OF st _ _ g(1) a(1)] by simp
    qed
    then show "I t"
      using b spec_step_timely [OF b(1) g(2) a(4)] clock_forward [OF st g(1) a(3)] a(2) by (auto simp: I_def)
  qed
  then show ?thesis by (auto simp: I_def)
qed

section \<open>Progress\<close>

text \<open>The sweeper blocks only in its two waits, the writer only for want of room.\<close>

lemma sweeper_ready:
  "spc s \<noteq> SDone \<Longrightarrow> \<not> (spc s \<in> {SEmptyWait, SPageWait} \<and> \<not> wakeup s) \<Longrightarrow> \<exists>t. buf_step cfg s LSweeper t"
proof (cases "spc s")
  case SCheck
  then show ?thesis by (cases "used s = 0"; cases "closing s") (blast intro: buf_step.intros)+
next
  case (SScan u press pos p)
  then show ?thesis
    by (cases "scan_record cfg u press (bfile s) (\<lambda>_. None) (rHead s) (interest s) (clock s) pos p";
        cases "pos + hdrSize \<le> pageSize cfg") (blast intro: buf_step.intros)+
qed (auto intro: buf_step.intros)

lemma writer_ready:
  assumes cfg: "cfg_ok cfg" and I: "buf_inv cfg slots staged s" and "used s = 0" and "wpc s \<noteq> WDone"
  shows "\<exists>t. buf_step cfg s LWriter t"
proof (cases "wpc s")
  case WSelect
  then show ?thesis
    by (cases "draining s"; cases "chan_recv (writeCh s)") (auto intro: buf_step.intros)
next
  case (WFlush k)
  then have "room_for cfg (int (pageSize cfg)) s" using assms by (auto simp: room_for_def cfg_ok_def)
  then show ?thesis using WFlush by (blast intro: buf_step.intros)
next
  case (WLargeWait r)
  then have "room_for cfg (chunkBytes cfg r) s"
    using I assms(3) by (auto simp: room_for_def buf_inv_def large_ok_def req_ok_def)
  then show ?thesis using WLargeWait by (blast intro: buf_step.intros)
qed (use assms in \<open>auto simp: buf_inv_def intro: buf_step.intros\<close>)

text \<open>The writer returns once, and the sweeper only after it.\<close>

lemma writer_done_frame:
  assumes "buf_step cfg s l t" and "l \<in> {LWriter, LWriterFault}"
  shows "wpc s \<noteq> WDone \<and> spc t = spc s \<and> closing t = closing s \<and> (writerDone t \<longrightarrow> writerDone s \<or> wpc t = WDone)"
proof -
  have fr: "spc (flush_returned cfg k s) = spc s" "closing (flush_returned cfg k s) = closing s"
    "writerDone (flush_returned cfg k s) \<longrightarrow> writerDone s \<or> wpc (flush_returned cfg k s) = WDone" for k s
    by (simp_all add: flush_returned_def stage_record_def large_start_def writer_exit_def split: afterFlush.split)
  have ef: "spc (enter_flush cfg k s) = spc s" "closing (enter_flush cfg k s) = closing s"
    "writerDone (enter_flush cfg k s) = writerDone s" for k s
    by (simp_all add: enter_flush_def)
  have hd: "spc (handle cfg r s) = spc s" "closing (handle cfg r s) = closing s"
    "writerDone (handle cfg r s) = writerDone s" for r s
    by (simp_all add: handle_def ef stage_record_def large_start_def)
  have fc: "spc (flush_closed k s) = spc s" "closing (flush_closed k s) = closing s"
    "writerDone (flush_closed k s) \<longrightarrow> writerDone s \<or> wpc (flush_closed k s) = WDone" for k s
    by (simp_all add: flush_closed_def writer_exit_def split: afterFlush.split)
  have fw: "writerDone (flush_write cfg fault k s) \<longrightarrow> writerDone s \<or> wpc (flush_write cfg fault k s) = WDone" for fault k
    using fr(3) [of k "s\<lparr>bfile := WriteAt fault (bfile s) (wHead s) (stage s)\<rparr>"] by (simp add: flush_write_def Let_def)
  have fn: "writerDone (flush_count cfg k s) \<longrightarrow> writerDone s \<or> wpc (flush_count cfg k s) = WDone" for k
    using fr(3) [of k "s\<lparr>used := used s + int (pageSize cfg), stageN := 0, wakeup := True\<rparr>"]
    by (simp add: flush_count_def)
  have sp: "spc (flush_write cfg fault k s) = spc s" "closing (flush_write cfg fault k s) = closing s"
    "spc (flush_count cfg k s) = spc s" "closing (flush_count cfg k s) = closing s" for fault k
    by (simp_all add: flush_write_def flush_count_def Let_def fr(1,2))
  from assms(1) show ?thesis
    by cases (use assms(2) in \<open>simp_all add: hd ef fc fw fn sp writer_exit_def write_first_def write_cont_def
        commit_large_def Let_def\<close>)
qed

lemma sweeper_done_writer_done:
  assumes "run (buf_step cfg) (initState cfg f0 now) ls s"
  shows "(spc s = SDone \<longrightarrow> closing s) \<and> (closing s \<longrightarrow> writerDone s) \<and> (writerDone s \<longrightarrow> wpc s = WDone)"
  using assms
proof (rule run_invariant)
  fix s l t
  assume st: "buf_step cfg s l t"
    and I: "(spc s = SDone \<longrightarrow> closing s) \<and> (closing s \<longrightarrow> writerDone s) \<and> (writerDone s \<longrightarrow> wpc s = WDone)"
  show "(spc t = SDone \<longrightarrow> closing t) \<and> (closing t \<longrightarrow> writerDone t) \<and> (writerDone t \<longrightarrow> wpc t = WDone)"
  proof (cases "l \<in> {LWriter, LWriterFault}")
    case True
    then show ?thesis using writer_done_frame [OF st True] I by auto
  next
    case False
    from st show ?thesis
      by cases (use I False in \<open>auto simp: Write_def buf_AddInterest_def scan_done_def free_pages_def Let_def
          split: option.splits if_splits\<close>)
  qed
qed (simp add: initState_def)

section \<open>The example run\<close>

lemma exCfg_ok: "cfg_ok exCfg"
  by (simp add: cfg_ok_def exCfg_def hdrSize_def)

lemma exReq_storable: "storable exReq" "timely exCfg exReq"
proof -
  have "exID \<noteq> emptyID" "exID \<noteq> tombstoneID" by code_simp+
  then show "storable exReq" by (simp add: storable_def exReq_def) (simp add: exID_def)
  show "timely exCfg exReq" by (simp add: timely_def exReq_def exCfg_def maxDuration_def)
qed

lemma exLabels_sound:
  "\<forall>l \<in> set exLabels. sound_label l \<and> timely_label exCfg l" "\<forall>l \<in> set exLate. sound_label l \<and> timely_label exCfg l"
  using exReq_storable by (auto simp: exLabels_def exLate_def exWrites_def sound_label_def)

lemma ex_reach: "buf_reach exCfg exLabels exFinal"
  using ex_run exCfg_ok exLabels_sound by (auto simp: buf_reach_def)

lemma ex_fields:
  "events exFinal = [OnMatch exID [7, 8]]" "quiescent exFinal" "accepted exLabels = [exReq]"
  "LClose \<notin> set exLabels" "spc exFinal = SCheck" "wpc exFinal = WSelect" "used exFinal = 0"
  by (simp_all add: quiescent_def exLabels_def exWrites_def ex_states)

section \<open>Properties\<close>

text \<open>C1: The buffer implements its specification. Every run of the goroutines and their callers
  from the initial state, in any interleaving, in which no file operation fails and every written
  request has a trace ID of 16 bytes other than the two reserved ones, makes exactly the
  callbacks, in the same order, of a run of \<open>BufferSpec\<close> with the same labels: each accepted
  request is resolved at most once, with \<open>onMatch\<close> on its own trace ID and data if a decision
  recorded for the trace at that moment came within its window and \<open>evictObs\<close> with its age
  otherwise, and requests are lost only after \<open>Close\<close>.\<close>

theorem buffer_refines_spec:
  assumes "cfg_ok cfg" and "run (buf_step cfg) (initState cfg f0 now) ls s"
    and "\<forall>l \<in> set ls. no_fault l \<and> storable_label l"
  shows "\<exists>a. run (spec_step (decisionWait cfg)) (initSpec now) ls a \<and> events s = map event_of (resolved a) \<and>
    addedAt_of (interest s) = decided a"
  using buf.run_sim [OF assms(2) init_rel [OF assms(1)]] assms(3)
  by (auto simp: sound_label_def buf_rel_def)

theorem buffer_refines_spec_witness:
  "\<exists>a. run (spec_step 10) (initSpec 5) exLabels a \<and> map event_of (resolved a) = [OnMatch exID [7, 8]]"
proof -
  have "\<forall>l \<in> set exLabels. no_fault l \<and> storable_label l" using exLabels_sound(1) by (auto simp: sound_label_def)
  then show ?thesis
    using buffer_refines_spec [OF exCfg_ok ex_run] ex_fields(1) by (simp add: exCfg_def) metis
qed

text \<open>C2: At most once and unaltered: the trace IDs and payloads given to \<open>onMatch\<close>, counted with
  multiplicity, are among those of the requests \<open>Write\<close> accepted.\<close>

theorem buffer_delivers_once:
  assumes "buf_reach cfg ls s"
  shows "mset (deliveries (events s)) \<subseteq>#
    image_mset (\<lambda>r. (wr_traceID r, wr_data r)) (mset (accepted ls))"
  using assms by (rule reach_deliveries)

theorem buffer_delivers_once_witness:
  "mset (deliveries [OnMatch exID [7, 8]]) \<subseteq># {#(exID, [7, 8])#}"
  using buffer_delivers_once [OF ex_reach] by (simp add: ex_fields exReq_def)

lemma quiescent_resolved:
  assumes "buf_reach cfg ls s" and "LClose \<notin> set ls" and "quiescent s"
  shows "\<exists>res. events s = map event_of res \<and> mset (map fst res) = mset (accepted ls)"
proof -
  obtain a now where r: "run (spec_step (decisionWait cfg)) (initSpec now) ls a" and rel: "buf_rel cfg s a"
    using assms(1) by (rule reach_spec)
  have "pending a = {#}"
    using rel assms(3) quiescent_empty by (auto simp: buf_rel_def elim!: inv_bagE)
  then have "mset (map fst (resolved a)) = mset (accepted ls)"
    using spec_run_conserves [OF r] spec_run_shut [OF r] assms(2) by (simp add: conserves_def)
  then show ?thesis using rel by (auto simp: buf_rel_def)
qed



text \<open>C12: The ring never overflows and the writer never panics: in every reachable state the
  occupancy is between 0 and \<open>maxBytes\<close>, occupancy and both heads are page-aligned, both heads
  lie inside the file, and the writer's slice expressions stay in range.\<close>

theorem buffer_ring_safe:
  assumes "buf_reach cfg ls s"
  shows "0 \<le> used s \<and> used s \<le> maxBytes cfg \<and> int (pageSize cfg) dvd used s \<and>
    0 \<le> rHead s \<and> rHead s < maxBytes cfg \<and> int (pageSize cfg) dvd rHead s \<and>
    0 \<le> wHead s \<and> wHead s < maxBytes cfg \<and> int (pageSize cfg) dvd wHead s \<and>
    stageN s \<le> length (stage s) \<and> wpc s \<noteq> WPanic"
proof -
  have cfg: "cfg_ok cfg" using assms by (simp add: buf_reach_def)
  obtain slots staged where I: "buf_inv cfg slots staged s" using assms by (rule reach_inv)
  then have ok: "ring_ok cfg slots (bfile s) (used s) (rHead s) (wHead s) (uncounted cfg (stage s) (wpc s))
      (reserved cfg (wpc s)) (head_view (spc s))" by (simp add: buf_inv_def)
  note al = ring_ok_aligned [OF cfg ok] ring_ok_used [OF ok] cfg_ok_pos [OF cfg]
  moreover have "0 \<le> rHead s" "rHead s < maxBytes cfg" "int (pageSize cfg) dvd rHead s"
    using ok by (auto simp: ring_ok_def)
  moreover have "stageN s \<le> length (stage s)" using I by (simp add: buf_inv_def stage_ok_def)
  moreover have "wpc s \<noteq> WPanic" using I by (auto simp: buf_inv_def)
  ultimately show ?thesis by simp
qed

theorem buffer_ring_safe_witness: "rHead exFinal < 60 \<and> wHead exFinal < 60 \<and> wpc exFinal \<noteq> WPanic"
  using buffer_ring_safe [OF ex_reach] by (simp add: exCfg_def)





text \<open>C16: No eviction without a reason. When a step of the sweeper reports an eviction, the evicted
  request is one that was accepted, no decision in time for it is recorded at that moment, the age
  reported is its own, and either its decision window is over or, when the scan of its page began,
  the buffer was more than three quarters full or shutting down.\<close>

theorem buffer_eviction_justified:
  assumes "cfg_ok cfg" and "run (buf_step cfg) (initState cfg f0 now) ls s" and "0 \<le> now"
    and "\<forall>l \<in> set ls. sound_label l \<and> timely_label cfg l"
    and "buf_step cfg s LSweeper t" and "events t = events s @ [EvictObs age]"
  shows "\<exists>r \<in> set (accepted ls). age = span_age (clock s) r \<and>
    \<not> in_time (decisionWait cfg) (addedAt_of (interest s)) r \<and>
    (decisionWait cfg \<le> age \<or> (\<exists>u press pos p. spc s = SScan u press pos p \<and> pressure cfg u (closing s)))"
proof -
  have "buf_reach cfg ls s" using assms by (auto simp: buf_reach_def)
  then obtain a now where r: "run (spec_step (decisionWait cfg)) (initSpec now) ls a" and rel: "buf_rel cfg s a"
    by (rule reach_spec)
  obtain slots staged where I: "buf_inv cfg slots staged s" and B: "bag slots staged s = pending a"
    using rel by (auto simp: buf_rel_def elim: inv_bagE)
  have w: "wake_ok cfg s" using reach_wake_ok [OF assms(1-4)] by simp
  from assms(5) show ?thesis
  proof cases
    case (s_scan u press pos p nxt p' evs)
    have "evs = [EvictObs age]" using s_scan(1) assms(6) by simp
    with scan_inv(1) [OF assms(1) I s_scan(2-4)] obtain q oc where oc: "event_of (q, oc) = EvictObs age"
      "resolve cfg press (interest s) (clock s) q = Some oc" and q: "q \<in># pending a"
      using B by auto
    have "q \<in> set (accepted ls)"
      using q spec_run_conserves [OF r] by (metis conserves_def mset_subset_eqD set_mset_mset union_iff)
    moreover have "press = pressure cfg u (closing s)" using w s_scan(2) by (simp add: wake_ok_def)
    ultimately show ?thesis
      using oc s_scan(2) by (cases oc) (auto simp: resolve_def in_time_interest split: if_splits)
  qed (use assms(6) in \<open>simp_all add: free_pages_def\<close>)
qed

theorem buffer_eviction_justified_witness:
  "\<exists>r \<in> set (accepted exLate). (10 :: int) = span_age (clock exWaited) r"
proof -
  have "events (exWaited\<lparr>events := [EvictObs 10], spc := x\<rparr>) = events exWaited @ [EvictObs 10]" for x
    by (simp add: exWaited_def ex_states)
  then show ?thesis
    using buffer_eviction_justified [OF exCfg_ok ex_late _ exLabels_sound(2) ex_evict] by auto
qed

end
