(* ===== verification/Buffer_Limits.thy ===== *)
theory Buffer_Limits
  imports Buffer_Properties
begin

text \<open>
  The edges of the span buffer: what \<open>New\<close> checks and establishes, when \<open>Write\<close> refuses, and what
  happens outside the assumptions of \<open>Buffer_Properties\<close>, that is with a record whose trace ID is
  empty and after a file operation has failed.
\<close>

section \<open>Construction and refusal\<close>

lemma sdiv_round:
  fixes m :: int
  assumes "0 < p" and "0 \<le> m"
  shows "m sdiv p * p = m - m mod p"
  using assms by (cases "m = 0") (simp_all add: signed_divide_int_def minus_mod_eq_div_mult)

text \<open>A successful \<open>New\<close> has checked everything the buffer needs: the configuration it
  returns satisfies \<open>cfg_ok\<close>, its size is the requested one rounded down to whole pages, the file is
  locked, and the state is the initial one, so every property about runs applies from there.\<close>

theorem New_establishes:
  assumes "New pg os f0 now maxB wait = Inr (cfg, s)" and "hdrSize \<le> pg"
  shows "cfg_ok cfg \<and> maxBytes cfg \<le> maxB \<and> maxB < maxBytes cfg + int pg \<and> decisionWait cfg = wait \<and>
    flock_res os = FlockOk \<and> s = initState cfg f0 now \<and> 2 \<le> pageCount cfg"
proof -
  define m where "m = (maxB sdiv int pg) * int pg"
  have cfg: "cfg = \<lparr>pageSize = pg, maxBytes = m, decisionWait = wait\<rparr>" and s: "s = initState cfg f0 now"
    and m2: "2 * int pg \<le> m" and w: "0 < wait" and fl: "flock_res os = FlockOk"
    using assms(1) by (auto simp: New_def m_def Let_def split: if_splits flockResult.splits)
  have pg: "0 < int pg" using assms(2) by (simp add: hdrSize_def)
  have "0 \<le> maxB"
  proof (rule ccontr)
    assume "\<not> 0 \<le> maxB"
    then have "maxB sdiv int pg \<le> 0" using pg by (simp add: signed_divide_int_def sgn_if div_int_pos_iff)
    then have "m \<le> 0" unfolding m_def using pg by (simp add: mult_nonpos_nonneg)
    with m2 pg show False by linarith
  qed
  then have r: "m = maxB - maxB mod int pg" unfolding m_def using pg by (intro sdiv_round)
  have "m \<le> maxB" "maxB < m + int pg" using r pg by simp_all
  moreover have "int pg dvd m" by (simp add: m_def)
  moreover have "2 \<le> m sdiv int pg"
    using zdiv_mono1 [OF m2 pg] m2 pg by (simp add: signed_divide_int_def)
  ultimately show ?thesis
    using assms(2) m2 w fl s by (simp add: cfg cfg_ok_def pageCount_def le_nat_iff)
qed

theorem New_establishes_witness:
  "case New 4096 \<lparr>open_ok = True, flock_res = FlockOk, truncate_ok = True\<rparr> (\<lambda>_. 0) 0 10000 5 of
     Inl e \<Rightarrow> False | Inr (cfg, s) \<Rightarrow> cfg_ok cfg \<and> 2 \<le> pageCount cfg"
proof -
  let ?os = "\<lparr>open_ok = True, flock_res = FlockOk, truncate_ok = True\<rparr>"
  let ?cfg = "\<lparr>pageSize = 4096, maxBytes = 8192, decisionWait = 5\<rparr>"
  have "New 4096 ?os (\<lambda>_. 0) 0 10000 5 = Inr (?cfg, initState ?cfg (\<lambda>_. 0) 0)"
    by (simp add: New_def signed_divide_int_def Let_def)
  with New_establishes [OF this] show ?thesis by (simp add: hdrSize_def)
qed

text \<open>\<open>Write\<close> refuses a request exactly when the channel holds one request per page of the ring
  or the record would not fit into the whole ring, and then changes nothing; an accepted request is
  queued last.\<close>

theorem Write_refuses_iff:
  "Write cfg r s = None \<longleftrightarrow> pageCount cfg \<le> length (writeCh s) \<or>
     pageSize cfg < hdrSize + length (wr_data r) \<and>
     maxBytes cfg < int (numChunks (pageSize cfg) (length (wr_data r))) * int (pageSize cfg)"
  using chan.send_None_iff [of "pageCount cfg" r "writeCh s"] by (auto simp: Write_def chunkBytes_def)

text \<open>What the writer lays out, the sweeper reads back: at any position of a page where the
  header fits, the trace ID, insertion time and data length of a storable request survive the
  encoding.\<close>

theorem header_roundtrip:
  assumes "storable r" and "pos + hdrSize \<le> length page"
  shows "rec_tid (put_header page pos r) pos = wr_traceID r \<and>
    rec_insertedAt (put_header page pos r) pos = wr_insertedAt r \<and>
    rec_dataLen (put_header page pos r) pos = length (wr_data r) \<and>
    length (put_header page pos r) = length page"
proof -
  have l: "length (take pos page) = pos" using assms(2) by simp
  have h: "put_header page pos r = take pos page @ enc_header True r @ drop (pos + 28) page"
    using put_header_bytes [OF storable_len [OF assms(1)] assms(2)] .
  have "length (put_header page pos r) = length page"
    unfolding h using assms storable_len [OF assms(1)] by (simp add: hdrSize_def)
  then show ?thesis
    using rec_fields [OF l assms(1), of True "drop (pos + 28) page"] by (simp add: h)
qed

theorem header_roundtrip_witness:
  "rec_insertedAt (put_header (replicate 30 9) 2 exReq) 2 = 5"
  using header_roundtrip [OF exReq_storable(1), of 2 "replicate 30 9"] by (simp add: hdrSize_def exReq_def)

section \<open>Outside the assumptions\<close>

text \<open>C38: A record with an empty trace ID at the start of a page makes the sweeper discard the
  whole page: \<open>processPage\<close> takes the ID for the end of the records, reports the page as consumed
  and makes no callback for any record after it.\<close>

theorem processPage_empty_id_hides:
  assumes "hdrSize \<le> pageSize cfg" and "wr_traceID r = emptyID"
  shows "processPage cfg u f rf wfault obs (enc_entry True r @ rest) rh clos = (True, 1, 0, f, [])"
proof -
  have "rec_tid (enc_entry True r @ rest) 0 = emptyID"
    using assms(2) by (simp add: rec_tid_def enc_entry_def enc_header_def slice_def)
  then have "scan_record cfg u press f rf rh intr now 0 (startScan (enc_entry True r @ rest)) =
      (None, startScan (enc_entry True r @ rest), [])" for press intr now
    by (simp add: scan_record_def startScan_def)
  then have "page_loop cfg u press f rf rh obs 0 0 (startScan (enc_entry True r @ rest)) =
      (startScan (enc_entry True r @ rest), [])" for press
    using assms(1) by (subst page_loop.simps) simp
  then show ?thesis by (simp add: processPage_def startScan_def)
qed

theorem processPage_empty_id_hides_witness:
  "processPage \<lparr>pageSize = 58, maxBytes = 116, decisionWait = 10\<rparr> 58 (\<lambda>_. 0) (\<lambda>_. None) None
     (\<lambda>_. (AddInterest 10 5 exID empty_interest, 5))
     (enc_entry True (exReq\<lparr>wr_traceID := emptyID, wr_data := []\<rparr>) @ exPage) 0 False = (True, 1, 0, \<lambda>_. 0, [])"
  by (rule processPage_empty_id_hides) (simp_all add: hdrSize_def)

text \<open>C39: A failed flush takes the process down. When the page write of a flush fails that was to
  make room for a small record, the error is ignored and the stage stays full: the writer panics
  on a slice out of range at once, or it stages the record past the end of the page and panics in
  the next flush.\<close>

theorem flush_fault_panics:
  assumes "wpc s = WFlush (FSmall r)" and "length (stage s) = pageSize cfg"
    and "pageSize cfg < stageN s + (hdrSize + length (wr_data r))"
    and "buf_step cfg s LWriterFault t"
  shows "wpc t = WPanic \<or> pageSize cfg < stageN t \<and> (\<forall>k. wpc (enter_flush cfg k t) = WPanic)"
proof -
  obtain n where "t = flush_write cfg (Some n) (FSmall r) s"
    using assms(4,1) by cases auto
  then show ?thesis
    using assms(3) by (auto simp: flush_write_def flush_returned_def stage_record_def enter_flush_def Let_def)
qed

theorem flush_fault_panics_witness:
  "\<exists>t. buf_step exCfg ((exStaged exID)\<lparr>wpc := WFlush (FSmall exReq)\<rparr>) LWriterFault t \<and> wpc t = WPanic"
proof -
  let ?s = "(exStaged exID)\<lparr>wpc := WFlush (FSmall exReq)\<rparr>"
  let ?t = "flush_write exCfg (Some 0) (FSmall exReq) ?s"
  have st: "buf_step exCfg ?s LWriterFault ?t"
    by (rule buf_step.w_flush_fault) (simp_all add: room_for_def exCfg_def ex_states)
  have "wpc ?t = WPanic \<or> pageSize exCfg < stageN ?t \<and> (\<forall>k. wpc (enter_flush exCfg k ?t) = WPanic)"
    by (rule flush_fault_panics [OF _ _ _ st, of exReq])
      (simp_all add: exCfg_def exPage_def exID_def ex_states hdrSize_def exReq_def)
  moreover have "stageN ?t = 30"
    by (simp add: flush_write_def flush_returned_def stage_record_def exCfg_def hdrSize_def ex_states)
  ultimately have "wpc ?t = WPanic" by (simp add: exCfg_def)
  with st show ?thesis by blast
qed

end
