(* ===== verification/Trace_Model.thy ===== *)
theory Trace_Model
  imports Prelude
begin

text \<open>
  The trace data the processor handles (\<open>ptrace.Traces\<close>), as far as the code looks into it. A value
  of an attribute is what its accessors \<open>Str\<close>, \<open>Int\<close> and \<open>Bool\<close> return; everything the
  code only copies (names, kinds, links, scopes) is an opaque byte string. Slices are lists, and
  a \<open>pcommon.Map\<close> is an association list read with \<open>map_of\<close>.

  \<open>groupByTrace\<close> (\<open>split.go\<close>) is translated with its three maps; \<open>project\<close> is what it computes.
\<close>

record Value =
  v_Str :: string
  v_Int :: int
  v_Bool :: bool

datatype StatusCode = StatusCodeUnset | StatusCodeOk | StatusCodeError

type_synonym Attributes = "(string \<times> Value) list"

record Span =
  sp_traceID :: TraceID
  sp_start :: nat
  sp_end :: nat
  sp_status :: StatusCode
  sp_flags :: "32 word"
  sp_traceState :: string
  sp_attributes :: Attributes
  sp_events :: "bytes list"
  sp_rest :: bytes

record ScopeSpans =
  ss_scope :: bytes
  ss_schemaUrl :: string
  ss_spans :: "Span list"

record Resource =
  res_attributes :: Attributes
  res_rest :: bytes

record ResourceSpans =
  rs_resource :: Resource
  rs_schemaUrl :: string
  rs_scopes :: "ScopeSpans list"

type_synonym Traces = "ResourceSpans list"

definition spans_of :: "Traces \<Rightarrow> Span list" where
  "spans_of td = concat (map (\<lambda>rs. concat (map ss_spans (rs_scopes rs))) td)"

definition SpanCount :: "Traces \<Rightarrow> nat" where
  "SpanCount td = length (spans_of td)"

lemma spans_of_simps [simp]:
  "spans_of [] = []" "spans_of (rs # td) = concat (map ss_spans (rs_scopes rs)) @ spans_of td"
  "spans_of (td @ td') = spans_of td @ spans_of td'"
  by (simp_all add: spans_of_def)

section \<open>groupByTrace\<close>

text \<open>
  The handles \<open>outRS\<close> and \<open>outSS\<close> that \<open>rsMap\<close> and \<open>ssMap\<close> keep are positions in
  \<open>out[tid]\<close>: elements are only ever appended there.
\<close>

record groupState =
  g_out :: "TraceID \<Rightarrow> Traces option"
  rsMap :: "TraceID \<times> nat \<Rightarrow> nat option"
  ssMap :: "TraceID \<times> nat \<times> nat \<Rightarrow> (nat \<times> nat) option"

definition modify_rs :: "nat \<Rightarrow> (ResourceSpans \<Rightarrow> ResourceSpans) \<Rightarrow> Traces \<Rightarrow> Traces" where
  "modify_rs i h t = (if i < length t then t[i := h (t ! i)] else t)"

definition modify_ss :: "nat \<Rightarrow> (ScopeSpans \<Rightarrow> ScopeSpans) \<Rightarrow> ResourceSpans \<Rightarrow> ResourceSpans" where
  "modify_ss j h rs =
     (if j < length (rs_scopes rs) then rs\<lparr>rs_scopes := (rs_scopes rs)[j := h (rs_scopes rs ! j)]\<rparr> else rs)"

text \<open>The \<open>ResourceSpans\<close> for a trace, found or appended: the output and its position.\<close>

definition find_rs :: "nat \<Rightarrow> ResourceSpans \<Rightarrow> TraceID \<Rightarrow> Traces \<Rightarrow> groupState \<Rightarrow> nat \<times> Traces \<times> groupState" where
  "find_rs rsIdx rs tid t g =
     (case rsMap g (tid, rsIdx) of
        Some k \<Rightarrow> (k, t, g)
      | None \<Rightarrow> (length t, t @ [rs\<lparr>rs_scopes := []\<rparr>], g\<lparr>rsMap := (rsMap g)((tid, rsIdx) := Some (length t))\<rparr>))"

text \<open>The \<open>ScopeSpans\<close> for a trace, found or appended.\<close>

definition find_ss :: "nat \<Rightarrow> ResourceSpans \<Rightarrow> nat \<Rightarrow> ScopeSpans \<Rightarrow> TraceID \<Rightarrow> groupState \<Rightarrow> (nat \<times> nat) \<times> groupState" where
  "find_ss rsIdx rs ssIdx ss tid g =
     (case ssMap g (tid, rsIdx, ssIdx) of
        Some kl \<Rightarrow> (kl, g)
      | None \<Rightarrow>
          let t = (case g_out g tid of None \<Rightarrow> [] | Some t \<Rightarrow> t) in
          (case find_rs rsIdx rs tid t g of (k, t', g') \<Rightarrow>
             let l = length (rs_scopes (t' ! k));
                 t'' = modify_rs k (\<lambda>r. r\<lparr>rs_scopes := rs_scopes r @ [ss\<lparr>ss_spans := []\<rparr>]\<rparr>) t' in
             ((k, l), g'\<lparr>g_out := (g_out g')(tid := Some t''),
                         ssMap := (ssMap g')((tid, rsIdx, ssIdx) := Some (k, l))\<rparr>)))"

definition group_span :: "nat \<Rightarrow> ResourceSpans \<Rightarrow> nat \<Rightarrow> ScopeSpans \<Rightarrow> Span \<Rightarrow> groupState \<Rightarrow> groupState" where
  "group_span rsIdx rs ssIdx ss span g =
     (let tid = sp_traceID span in
      case find_ss rsIdx rs ssIdx ss tid g of ((k, l), g') \<Rightarrow>
        g'\<lparr>g_out := (g_out g')(tid := map_option
             (modify_rs k (modify_ss l (\<lambda>s. s\<lparr>ss_spans := ss_spans s @ [span]\<rparr>))) (g_out g' tid))\<rparr>)"

definition group_scope :: "nat \<Rightarrow> ResourceSpans \<Rightarrow> nat \<times> ScopeSpans \<Rightarrow> groupState \<Rightarrow> groupState" where
  "group_scope rsIdx rs = (\<lambda>(ssIdx, ss). fold (group_span rsIdx rs ssIdx ss) (ss_spans ss))"

definition group_resource :: "nat \<times> ResourceSpans \<Rightarrow> groupState \<Rightarrow> groupState" where
  "group_resource = (\<lambda>(rsIdx, rs). fold (group_scope rsIdx rs) (enumerate 0 (rs_scopes rs)))"

definition groupByTrace :: "Traces \<Rightarrow> TraceID \<Rightarrow> Traces option" where
  "groupByTrace td =
     g_out (fold group_resource (enumerate 0 td) \<lparr>g_out = Map.empty, rsMap = Map.empty, ssMap = Map.empty\<rparr>)"

section \<open>What it computes\<close>

text \<open>
  The spans of one trace in their resources and scopes; a scope or resource without spans of
  the trace is left out.
\<close>

definition keep_scopes :: "TraceID \<Rightarrow> ScopeSpans list \<Rightarrow> ScopeSpans list" where
  "keep_scopes tid sss = filter (\<lambda>ss. ss_spans ss \<noteq> [])
     (map (\<lambda>ss. ss\<lparr>ss_spans := filter (\<lambda>s. sp_traceID s = tid) (ss_spans ss)\<rparr>) sss)"

definition project :: "TraceID \<Rightarrow> Traces \<Rightarrow> Traces" where
  "project tid td = filter (\<lambda>rs. rs_scopes rs \<noteq> [])
     (map (\<lambda>rs. rs\<lparr>rs_scopes := keep_scopes tid (rs_scopes rs)\<rparr>) td)"

lemma keep_scopes_append [simp]: "keep_scopes tid (xs @ ys) = keep_scopes tid xs @ keep_scopes tid ys"
  by (simp add: keep_scopes_def)

lemma project_append [simp]: "project tid (xs @ ys) = project tid xs @ project tid ys"
  by (simp add: project_def)

lemma keep_scopes_one:
  "keep_scopes tid [ss] = (if filter (\<lambda>s. sp_traceID s = tid) (ss_spans ss) = [] then []
     else [ss\<lparr>ss_spans := filter (\<lambda>s. sp_traceID s = tid) (ss_spans ss)\<rparr>])"
  by (simp add: keep_scopes_def)

lemma project_one:
  "project tid [rs] = (if keep_scopes tid (rs_scopes rs) = [] then []
     else [rs\<lparr>rs_scopes := keep_scopes tid (rs_scopes rs)\<rparr>])"
  by (simp add: project_def)

lemma spans_keep_scopes:
  "concat (map ss_spans (keep_scopes tid sss)) = filter (\<lambda>s. sp_traceID s = tid) (concat (map ss_spans sss))"
  by (induction sss) (auto simp: keep_scopes_def)

lemma spans_project: "spans_of (project tid td) = filter (\<lambda>s. sp_traceID s = tid) (spans_of td)"
proof (induction td)
  case (Cons rs td)
  have "spans_of (project tid [rs]) = filter (\<lambda>s. sp_traceID s = tid) (spans_of [rs])"
    using spans_keep_scopes [of tid "rs_scopes rs"] by (auto simp: project_one filter_empty_conv)
  then show ?case using Cons project_append [of tid "[rs]" td] by simp
qed (simp add: project_def)

lemma keep_scopes_Nil_iff:
  "keep_scopes tid sss = [] \<longleftrightarrow> filter (\<lambda>s. sp_traceID s = tid) (concat (map ss_spans sss)) = []"
  by (induction sss) (auto simp: keep_scopes_def)

lemma project_Nil_iff: "project tid td = [] \<longleftrightarrow> (\<forall>s \<in> set (spans_of td). sp_traceID s \<noteq> tid)"
proof (induction td)
  case (Cons rs td)
  have "project tid [rs] = [] \<longleftrightarrow> (\<forall>s \<in> set (spans_of [rs]). sp_traceID s \<noteq> tid)"
    by (simp add: project_one keep_scopes_Nil_iff filter_empty_conv)
  then show ?case using Cons project_append [of tid "[rs]" td] by auto
qed (simp add: project_def)

section \<open>The loop invariant\<close>

text \<open>
  While the loops stand at span \<open>length xs\<close> of scope \<open>length S\<close> of resource \<open>length R\<close>, the output
  is the projection of what has been seen, and the handles for the current resource and scope are
  the last ones appended.
\<close>

abbreviation of_trace :: "TraceID \<Rightarrow> Span list \<Rightarrow> Span list" where
  "of_trace tid xs \<equiv> filter (\<lambda>s. sp_traceID s = tid) xs"

definition seen :: "Traces \<Rightarrow> ResourceSpans \<Rightarrow> ScopeSpans list \<Rightarrow> ScopeSpans \<Rightarrow> Span list \<Rightarrow> Traces" where
  "seen R rs S ss xs = R @ [rs\<lparr>rs_scopes := S @ [ss\<lparr>ss_spans := xs\<rparr>]\<rparr>]"

definition some_if :: "'a list \<Rightarrow> 'a list option" where
  "some_if t = (if t = [] then None else Some t)"

definition g_inv :: "Traces \<Rightarrow> ResourceSpans \<Rightarrow> ScopeSpans list \<Rightarrow> ScopeSpans \<Rightarrow> Span list \<Rightarrow> groupState \<Rightarrow> bool" where
  "g_inv R rs S ss xs g \<longleftrightarrow> (\<forall>tid.
     g_out g tid = some_if (project tid (seen R rs S ss xs)) \<and>
     rsMap g (tid, length R) =
       (if keep_scopes tid S = [] \<and> of_trace tid xs = [] then None else Some (length (project tid R))) \<and>
     ssMap g (tid, length R, length S) =
       (if of_trace tid xs = [] then None else Some (length (project tid R), length (keep_scopes tid S))) \<and>
     (\<forall>i > length R. rsMap g (tid, i) = None) \<and>
     (\<forall>i j. length R < i \<or> i = length R \<and> length S < j \<longrightarrow> ssMap g (tid, i, j) = None))"

lemma project_seen:
  "project tid (seen R rs S ss xs) = project tid R @
     (if keep_scopes tid S = [] \<and> of_trace tid xs = [] then []
      else [rs\<lparr>rs_scopes := keep_scopes tid S @
        (if of_trace tid xs = [] then [] else [ss\<lparr>ss_spans := of_trace tid xs\<rparr>])\<rparr>])"
  by (simp add: seen_def project_one keep_scopes_one)

lemma modify_rs_last [simp]: "modify_rs (length t) h (t @ [r]) = t @ [h r]"
  by (simp add: modify_rs_def)

lemma modify_ss_last [simp]:
  "modify_ss (length S) h (rs\<lparr>rs_scopes := S @ [x]\<rparr>) = rs\<lparr>rs_scopes := S @ [h x]\<rparr>"
  by (simp add: modify_ss_def)

lemma group_span_other:
  assumes "tid \<noteq> sp_traceID x"
  shows "g_out (group_span i rs j ss x g) tid = g_out g tid"
    and "rsMap (group_span i rs j ss x g) (tid, i') = rsMap g (tid, i')"
    and "ssMap (group_span i rs j ss x g) (tid, k) = ssMap g (tid, k)"
  using assms by (auto simp: group_span_def find_ss_def find_rs_def Let_def split: option.split prod.split)

lemma group_span_same:
  fixes x :: Span
  defines "tid \<equiv> sp_traceID x"
  assumes I: "g_inv R rs S ss xs g"
  shows "g_out (group_span (length R) rs (length S) ss x g) tid = some_if (project tid (seen R rs S ss (xs @ [x])))"
    and "rsMap (group_span (length R) rs (length S) ss x g) (tid, i) =
      (if i = length R then Some (length (project tid R)) else rsMap g (tid, i))"
    and "ssMap (group_span (length R) rs (length S) ss x g) (tid, k) =
      (if k = (length R, length S) then Some (length (project tid R), length (keep_scopes tid S)) else ssMap g (tid, k))"
proof -
  let ?g = "group_span (length R) rs (length S) ss x g"
  have out: "g_out g tid = some_if (project tid (seen R rs S ss xs))"
    and rm: "rsMap g (tid, length R) =
       (if keep_scopes tid S = [] \<and> of_trace tid xs = [] then None else Some (length (project tid R)))"
    and sm: "ssMap g (tid, length R, length S) =
       (if of_trace tid xs = [] then None else Some (length (project tid R), length (keep_scopes tid S)))"
    using I by (auto simp: g_inv_def)
  have goal: "g_out ?g tid = some_if (project tid (seen R rs S ss (xs @ [x]))) \<and>
      rsMap ?g (tid, i) = (if i = length R then Some (length (project tid R)) else rsMap g (tid, i)) \<and>
      ssMap ?g (tid, k) = (if k = (length R, length S)
        then Some (length (project tid R), length (keep_scopes tid S)) else ssMap g (tid, k))"
  proof (cases "of_trace tid xs = []")
    case False
    then show ?thesis
      using out rm sm
      by (auto simp: group_span_def find_ss_def tid_def [symmetric] project_seen some_if_def Let_def)
  next
    case fresh: True
    show ?thesis
    proof (cases "keep_scopes tid S = []")
      case True
      then show ?thesis
        using out rm sm fresh
        by (auto simp: group_span_def find_ss_def find_rs_def tid_def [symmetric] project_seen some_if_def
            Let_def modify_ss_def modify_rs_def nth_append split: option.split)
    next
      case False
      then show ?thesis
        using out rm sm fresh
        by (auto simp: group_span_def find_ss_def find_rs_def tid_def [symmetric] project_seen some_if_def
            Let_def nth_append)
    qed
  qed
  then show "g_out ?g tid = some_if (project tid (seen R rs S ss (xs @ [x])))"
    and "rsMap ?g (tid, i) = (if i = length R then Some (length (project tid R)) else rsMap g (tid, i))"
    and "ssMap ?g (tid, k) = (if k = (length R, length S)
        then Some (length (project tid R), length (keep_scopes tid S)) else ssMap g (tid, k))"
    by blast+
qed

lemma group_span_inv:
  assumes I: "g_inv R rs S ss xs g"
  shows "g_inv R rs S ss (xs @ [x]) (group_span (length R) rs (length S) ss x g)"
  unfolding g_inv_def
proof (intro allI)
  fix tid
  note J = I [unfolded g_inv_def, rule_format, of tid]
  show "g_out (group_span (length R) rs (length S) ss x g) tid = some_if (project tid (seen R rs S ss (xs @ [x]))) \<and>
     rsMap (group_span (length R) rs (length S) ss x g) (tid, length R) =
       (if keep_scopes tid S = [] \<and> of_trace tid (xs @ [x]) = [] then None else Some (length (project tid R))) \<and>
     ssMap (group_span (length R) rs (length S) ss x g) (tid, length R, length S) =
       (if of_trace tid (xs @ [x]) = [] then None else Some (length (project tid R), length (keep_scopes tid S))) \<and>
     (\<forall>i > length R. rsMap (group_span (length R) rs (length S) ss x g) (tid, i) = None) \<and>
     (\<forall>i j. length R < i \<or> i = length R \<and> length S < j \<longrightarrow>
        ssMap (group_span (length R) rs (length S) ss x g) (tid, i, j) = None)"
  proof (cases "tid = sp_traceID x")
    case True
    then show ?thesis using J group_span_same [OF I] by simp
  next
    case False
    then show ?thesis using J group_span_other [of tid x] by (simp add: project_seen)
  qed
qed

lemma group_spans_inv:
  "g_inv R rs S ss xs g \<Longrightarrow> g_inv R rs S ss (xs @ ys) (fold (group_span (length R) rs (length S) ss) ys g)"
proof (induction ys arbitrary: xs g)
  case (Cons y ys)
  from Cons.IH [OF group_span_inv [OF Cons.prems]] show ?case by simp
qed simp

text \<open>Moving on to the next scope and to the next resource.\<close>

lemma g_inv_next_scope: "g_inv R rs S ss (ss_spans ss) g \<Longrightarrow> g_inv R rs (S @ [ss]) ss' [] g"
  by (auto simp: g_inv_def project_seen keep_scopes_one)

lemma g_inv_next_resource: "g_inv R rs (rs_scopes rs) ss [] g \<Longrightarrow> g_inv (R @ [rs]) rs' [] ss' [] g"
  by (auto simp: g_inv_def project_seen project_one keep_scopes_def)

lemma g_inv_any: "g_inv R rs S ss [] g \<Longrightarrow> g_inv R rs S ss' [] g"
  by (simp add: g_inv_def project_seen)

lemma g_inv_any_resource: "g_inv R rs [] ss [] g \<Longrightarrow> g_inv R rs' [] ss' [] g"
  by (simp add: g_inv_def project_seen keep_scopes_def)

lemma group_scopes_inv:
  "g_inv R rs S ss0 [] g \<Longrightarrow>
   g_inv R rs (S @ sss) ss0 [] (fold (group_scope (length R) rs) (enumerate (length S) sss) g)"
proof (induction sss arbitrary: S g)
  case (Cons ss sss)
  have "g_inv R rs S ss (ss_spans ss) (group_scope (length R) rs (length S, ss) g)"
    using group_spans_inv [OF g_inv_any [OF Cons.prems, of ss], of "ss_spans ss"] by (simp add: group_scope_def)
  then have "g_inv R rs (S @ [ss]) ss0 [] (group_scope (length R) rs (length S, ss) g)"
    by (rule g_inv_next_scope)
  from Cons.IH [OF this] show ?case by simp
qed simp

lemma group_resources_inv:
  "g_inv R rs0 [] ss0 [] g \<Longrightarrow>
   g_inv (R @ td) rs0 [] ss0 [] (fold group_resource (enumerate (length R) td) g)"
proof (induction td arbitrary: R g)
  case (Cons rs td)
  have "g_inv R rs ([] @ rs_scopes rs) ss0 [] (group_resource (length R, rs) g)"
    using group_scopes_inv [OF g_inv_any_resource [OF Cons.prems, of rs ss0], of "rs_scopes rs"]
    by (simp add: group_resource_def)
  then have "g_inv (R @ [rs]) rs0 [] ss0 [] (group_resource (length R, rs) g)"
    by (intro g_inv_next_resource) simp
  from Cons.IH [OF this] show ?case by simp
qed simp

lemma groupByTrace_project: "groupByTrace td tid = some_if (project tid td)"
proof -
  define rs0 where "rs0 = (undefined :: ResourceSpans)"
  define ss0 where "ss0 = (undefined :: ScopeSpans)"
  have "g_inv [] rs0 [] ss0 [] \<lparr>g_out = Map.empty, rsMap = Map.empty, ssMap = Map.empty\<rparr>"
    by (simp add: g_inv_def project_seen some_if_def) (simp add: project_def keep_scopes_def)
  from group_resources_inv [OF this, of td] show ?thesis
    by (simp add: g_inv_def project_seen keep_scopes_def groupByTrace_def)
qed

lemma of_trace_conserves:
  assumes "distinct tids" and "sp_traceID ` set xs \<subseteq> set tids"
  shows "mset (concat (map (\<lambda>tid. of_trace tid xs) tids)) = mset xs"
  using assms(2)
proof (induction xs)
  case (Cons x xs)
  obtain us vs where tids: "tids = us @ sp_traceID x # vs"
    using Cons.prems split_list [of "sp_traceID x" tids] by auto
  have us: "sp_traceID x \<notin> set us" and vs: "sp_traceID x \<notin> set vs" using assms(1) tids by auto
  have eq: "map (\<lambda>tid. of_trace tid (x # xs)) ws = map (\<lambda>tid. of_trace tid xs) ws" if "sp_traceID x \<notin> set ws" for ws
    using that by (intro map_cong) auto
  have "mset (concat (map (\<lambda>tid. of_trace tid (x # xs)) tids)) =
      add_mset x (mset (concat (map (\<lambda>tid. of_trace tid xs) tids)))"
    unfolding tids map_append concat_append list.map concat.simps eq [OF us] eq [OF vs] by simp
  then show ?case using Cons by simp
qed simp

section \<open>Properties\<close>

text \<open>C25: \<open>groupByTrace\<close> splits a batch exactly by trace: a trace has an entry if and only if some
  span of the batch belongs to it, and its entry holds the spans of that trace, all of them, in
  their order, inside copies of their own resource and scope, with no empty scope or resource.\<close>

theorem groupByTrace_exact:
  "groupByTrace td tid =
    (if tid \<in> sp_traceID ` set (spans_of td) then Some (project tid td) else None)"
  by (auto simp: groupByTrace_project some_if_def project_Nil_iff image_iff)

text \<open>No span is lost or duplicated by \<open>groupByTrace\<close>: however the traces of a batch are
  enumerated, the spans of their entries together are the spans of the batch.\<close>

theorem groupByTrace_conserves:
  assumes "distinct tids" and "set tids = {tid. groupByTrace td tid \<noteq> None}"
  shows "mset (concat (map (\<lambda>tid. spans_of (the (groupByTrace td tid))) tids)) = mset (spans_of td)"
proof -
  have eq: "map (\<lambda>tid. spans_of (the (groupByTrace td tid))) tids = map (\<lambda>tid. of_trace tid (spans_of td)) tids"
    using assms(2) by (intro map_cong) (auto simp: groupByTrace_project some_if_def spans_project split: if_splits)
  have "sp_traceID ` set (spans_of td) \<subseteq> set tids"
    using assms(2) by (auto simp: groupByTrace_project some_if_def project_Nil_iff)
  then show ?thesis unfolding eq using assms(1) by (intro of_trace_conserves)
qed

definition exSpan :: "byte \<Rightarrow> nat \<Rightarrow> nat \<Rightarrow> Span" where
  "exSpan t a b = \<lparr>sp_traceID = replicate 16 t, sp_start = a, sp_end = b, sp_status = StatusCodeUnset, sp_flags = 0,
     sp_traceState = [], sp_attributes = [], sp_events = [], sp_rest = []\<rparr>"

definition exTraces :: Traces where
  "exTraces = [\<lparr>rs_resource = \<lparr>res_attributes = [], res_rest = [1]\<rparr>, rs_schemaUrl = [],
     rs_scopes = [\<lparr>ss_scope = [2], ss_schemaUrl = [], ss_spans = [exSpan 1 10 20, exSpan 2 11 12, exSpan 1 15 40]\<rparr>]\<rparr>]"

theorem groupByTrace_conserves_witness:
  "mset (concat (map (\<lambda>tid. spans_of (the (groupByTrace exTraces tid))) [replicate 16 1, replicate 16 2])) =
     {#exSpan 1 10 20, exSpan 2 11 12, exSpan 1 15 40#}"
proof -
  have ids: "sp_traceID ` set (spans_of exTraces) = {replicate 16 1, replicate 16 2}"
    by (auto simp: exTraces_def exSpan_def)
  have "set [replicate 16 1, replicate 16 2] = {tid. groupByTrace exTraces tid \<noteq> None}"
  proof -
    have "{tid. groupByTrace exTraces tid \<noteq> None} = sp_traceID ` set (spans_of exTraces)"
      by (auto simp: groupByTrace_project some_if_def project_Nil_iff)
    then show ?thesis using ids by simp
  qed
  moreover have "distinct [replicate 16 1, replicate 16 (2 :: byte)]" by simp
  ultimately have "mset (concat (map (\<lambda>tid. spans_of (the (groupByTrace exTraces tid)))
      [replicate 16 1, replicate 16 2])) = mset (spans_of exTraces)"
    by (intro groupByTrace_conserves)
  then show ?thesis by (simp add: exTraces_def)
qed

end
