(* ===== verification/Evaluator.thy ===== *)
theory Evaluator
  imports Trace_Model
begin

unbundle bit_operations_syntax

text \<open>
  The sampling policies (\<open>internal/evaluator\<close>). \<open>Evaluator\<close> has one constructor per policy type with
  the fields of its struct; \<open>Evaluate\<close> is its \<open>Evaluate\<close> method, which returns the decision, the
  error if any, and the evaluator afterwards, because a regex filter keeps a cache. Closures with
  state (the running window of the latency policy, that cache) are passed through the helpers
  of \<open>util.go\<close> explicitly.

  Code of other packages is a parameter (\<open>evalEnv\<close>): regular expressions, the LRU cache,
  OTTL conditions, the parser of the \<open>tracestate\<close> header and the conversion of timestamps.
\<close>

datatype Decision = NotSampled | Sampled | SampledLocal | Dropped

datatype evalError = ErrNestedDrop | ErrNotDrop | ErrOTTL

text \<open>A sequence of parsed OTTL conditions and the mode in which its errors are treated.\<close>

datatype 'q condSeq = ConditionSequence (cs_conditions: "'q list") (cs_errorMode: string)

record ('r, 'c, 'q) evalEnv =
  re_Compile :: "string \<Rightarrow> 'r option"
  re_MatchString :: "'r \<Rightarrow> string \<Rightarrow> bool"
  lru_New :: "int \<Rightarrow> 'c"
  lru_Get :: "string \<Rightarrow> 'c \<Rightarrow> bool option \<times> 'c"
  lru_Add :: "string \<Rightarrow> bool \<Rightarrow> 'c \<Rightarrow> 'c"
  ottl_NewSpanParser :: "(string list \<Rightarrow> 'q list option) option"
  ottl_NewEventParser :: "(string list \<Rightarrow> 'q list option) option"
  ottl_EvalSpan :: "'q condSeq \<Rightarrow> ResourceSpans \<Rightarrow> ScopeSpans \<Rightarrow> Span \<Rightarrow> bool option"
  ottl_EvalEvent :: "'q condSeq \<Rightarrow> ResourceSpans \<Rightarrow> ScopeSpans \<Rightarrow> Span \<Rightarrow> bytes \<Rightarrow> bool option"
  ts_ParseGet :: "string \<Rightarrow> string \<Rightarrow> string option"
  ts_AsTime :: "nat \<Rightarrow> time"

datatype ('r, 'c) matcher = MRegex "'r list" 'c | MValues "string list"

datatype ('r, 'c, 'q) Evaluator =
    alwaysSample
  | latency int int
  | statusCodeFilter "StatusCode list"
  | stringAttributeFilter string "('r, 'c) matcher"
  | numericAttributeFilter string "int option" "int option"
  | booleanAttributeFilter string bool
  | probabilisticSampler "32 word" "32 word"
  | traceFlags
  | traceStateFilter string "string list"
  | ottlConditionFilter "'q condSeq option" "'q condSeq option"
  | andPolicy "('r, 'c, 'q) Evaluator list"
  | notPolicy "('r, 'c, 'q) Evaluator"
  | dropPolicy "('r, 'c, 'q) Evaluator list"

section \<open>util.go\<close>

text \<open>A loop that returns at the first element with the property, threading the closure's state.\<close>

fun any_st :: "('a \<Rightarrow> 's \<Rightarrow> bool \<times> 's) \<Rightarrow> 'a list \<Rightarrow> 's \<Rightarrow> bool \<times> 's" where
  "any_st f [] s = (False, s)"
| "any_st f (x # xs) s = (case f x s of (b, s') \<Rightarrow> if b then (True, s') else any_st f xs s')"

definition decide :: "bool \<times> 's \<Rightarrow> Decision \<times> 's" where
  "decide bs = (if fst bs then Sampled else NotSampled, snd bs)"

definition hasSpanWithCondition :: "Traces \<Rightarrow> (Span \<Rightarrow> 's \<Rightarrow> bool \<times> 's) \<Rightarrow> 's \<Rightarrow> Decision \<times> 's" where
  "hasSpanWithCondition td shouldSample s =
     decide (any_st (\<lambda>rs. any_st (\<lambda>ss. any_st shouldSample (ss_spans ss)) (rs_scopes rs)) td s)"

definition hasResourceOrSpanWithCondition :: "Traces \<Rightarrow> (Resource \<Rightarrow> 's \<Rightarrow> bool \<times> 's) \<Rightarrow>
    (Span \<Rightarrow> 's \<Rightarrow> bool \<times> 's) \<Rightarrow> 's \<Rightarrow> Decision \<times> 's" where
  "hasResourceOrSpanWithCondition td shouldSampleResource shouldSampleSpan s =
     decide (any_st (\<lambda>rs s. case shouldSampleResource (rs_resource rs) s of (b, s') \<Rightarrow>
         if b then (True, s')
         else any_st (\<lambda>ss. any_st shouldSampleSpan (ss_spans ss)) (rs_scopes rs) s') td s)"

text \<open>A closure without state.\<close>

definition pure_st :: "('a \<Rightarrow> bool) \<Rightarrow> 'a \<Rightarrow> unit \<Rightarrow> bool \<times> unit" where
  "pure_st f x u = (f x, u)"

section \<open>Leaf policies\<close>

text \<open>\<open>latency\<close>: the window over the spans seen so far, restarted while its start is 0.\<close>

definition latency_span :: "('r, 'c, 'q) evalEnv \<Rightarrow> int \<Rightarrow> int \<Rightarrow> Span \<Rightarrow> nat \<times> nat \<Rightarrow> bool \<times> nat \<times> nat" where
  "latency_span env thresholdMs upperThresholdMs span w =
     (let w' = (if fst w = 0 then (sp_start span, sp_end span)
                else (min (fst w) (sp_start span), max (snd w) (sp_end span)));
          ms = time_Sub (ts_AsTime env (snd w')) (ts_AsTime env (fst w')) sdiv 1000000 in
      (if upperThresholdMs = 0 then ms \<ge> thresholdMs else thresholdMs < ms \<and> ms \<le> upperThresholdMs, w'))"

definition cached_match :: "('r, 'c, 'q) evalEnv \<Rightarrow> 'r list \<Rightarrow> string \<Rightarrow> 'c \<Rightarrow> bool \<times> 'c" where
  "cached_match env filterList s cache =
     (case lru_Get env s cache of
        (Some v, cache') \<Rightarrow> (v, cache')
      | (None, cache') \<Rightarrow>
          let b = list_ex (\<lambda>r. re_MatchString env r s) filterList in (b, lru_Add env s b cache'))"

fun run_matcher :: "('r, 'c, 'q) evalEnv \<Rightarrow> string \<Rightarrow> ('r, 'c) matcher \<Rightarrow> bool \<times> ('r, 'c) matcher" where
  "run_matcher env s (MRegex rs c) = (case cached_match env rs s c of (b, c') \<Rightarrow> (b, MRegex rs c'))"
| "run_matcher env s (MValues vs) = (s \<in> set vs, MValues vs)"

definition string_resource :: "('r, 'c, 'q) evalEnv \<Rightarrow> string \<Rightarrow> Resource \<Rightarrow> ('r, 'c) matcher \<Rightarrow> bool \<times> ('r, 'c) matcher" where
  "string_resource env key r m =
     (case map_of (res_attributes r) key of None \<Rightarrow> (False, m) | Some v \<Rightarrow> run_matcher env (v_Str v) m)"

definition string_span :: "('r, 'c, 'q) evalEnv \<Rightarrow> string \<Rightarrow> Span \<Rightarrow> ('r, 'c) matcher \<Rightarrow> bool \<times> ('r, 'c) matcher" where
  "string_span env key span m =
     (case map_of (sp_attributes span) key of
        None \<Rightarrow> (False, m)
      | Some v \<Rightarrow> if v_Str v = [] then (False, m) else run_matcher env (v_Str v) m)"

definition MinInt64 :: int where "MinInt64 = - (2 ^ 63)"
definition MaxInt64 :: int where "MaxInt64 = 2 ^ 63 - 1"

definition in_range :: "int option \<Rightarrow> int option \<Rightarrow> int \<Rightarrow> bool" where
  "in_range mn mx v \<longleftrightarrow> v \<ge> (case mn of None \<Rightarrow> MinInt64 | Some m \<Rightarrow> m) \<and> v \<le> (case mx of None \<Rightarrow> MaxInt64 | Some m \<Rightarrow> m)"

definition has_value :: "string \<Rightarrow> (Value \<Rightarrow> bool) \<Rightarrow> Attributes \<Rightarrow> bool" where
  "has_value key f as = (case map_of as key of None \<Rightarrow> False | Some v \<Rightarrow> f v)"

text \<open>FNV-1a over the seed (little endian) and the bytes, reduced to \<open>2 ^ 14\<close> buckets.\<close>

definition numHashBuckets :: "32 word" where "numHashBuckets = 16384"

fun le_put :: "nat \<Rightarrow> nat \<Rightarrow> bytes" where
  "le_put 0 v = []"
| "le_put (Suc n) v = word_of_nat (v mod 256) # le_put n (v div 256)"

definition fnv32a :: "bytes \<Rightarrow> 32 word" where
  "fnv32a bs = foldl (\<lambda>h b. (h XOR ucast b) * 16777619) 2166136261 bs"

definition hashTraceID :: "32 word \<Rightarrow> bytes \<Rightarrow> 32 word" where
  "hashTraceID seed b = fnv32a (le_put 4 (unat seed) @ b) AND (numHashBuckets - 1)"

definition probabilistic :: "32 word \<Rightarrow> 32 word \<Rightarrow> Traces \<Rightarrow> Decision" where
  "probabilistic threshold seed td =
     (case td of [] \<Rightarrow> NotSampled
      | rs # _ \<Rightarrow> (case rs_scopes rs of [] \<Rightarrow> NotSampled
          | ss # _ \<Rightarrow> (case ss_spans ss of [] \<Rightarrow> NotSampled
              | span # _ \<Rightarrow>
                  if hashTraceID seed (sp_traceID span) < threshold then SampledLocal else NotSampled)))"

definition flags_sampled :: "Span \<Rightarrow> bool" where
  "flags_sampled span \<longleftrightarrow> (ucast (sp_flags span) AND 1 :: byte) \<noteq> 0"

definition state_matches :: "('r, 'c, 'q) evalEnv \<Rightarrow> string \<Rightarrow> string list \<Rightarrow> Span \<Rightarrow> bool" where
  "state_matches env key vals span =
     (case ts_ParseGet env (sp_traceState span) key of None \<Rightarrow> False | Some v \<Rightarrow> v \<in> set vals)"

text \<open>
  OTTL: a condition over the span, then one over each of its events; \<open>None\<close> goes on with the next
  span, \<open>Some\<close> is what the method returns.
\<close>

fun ottl_events :: "(bytes \<Rightarrow> bool option) \<Rightarrow> bytes list \<Rightarrow> (Decision \<times> evalError option) option" where
  "ottl_events ev [] = None"
| "ottl_events ev (e # es) = (case ev e of None \<Rightarrow> Some (NotSampled, Some ErrOTTL)
     | Some True \<Rightarrow> Some (Sampled, None) | Some False \<Rightarrow> ottl_events ev es)"

definition ottl_span :: "('r, 'c, 'q) evalEnv \<Rightarrow> 'q condSeq option \<Rightarrow> 'q condSeq option \<Rightarrow> ResourceSpans \<Rightarrow> ScopeSpans \<Rightarrow> Span \<Rightarrow>
    (Decision \<times> evalError option) option" where
  "ottl_span env sexpr eexpr rs ss span =
     (let evs = (case eexpr of None \<Rightarrow> None
          | Some q \<Rightarrow> ottl_events (ottl_EvalEvent env q rs ss span) (sp_events span)) in
      case sexpr of None \<Rightarrow> evs
      | Some q \<Rightarrow> (case ottl_EvalSpan env q rs ss span of None \<Rightarrow> Some (NotSampled, Some ErrOTTL)
          | Some True \<Rightarrow> Some (Sampled, None) | Some False \<Rightarrow> evs))"

fun first_some :: "('a \<Rightarrow> 'b option) \<Rightarrow> 'a list \<Rightarrow> 'b option" where
  "first_some f [] = None"
| "first_some f (x # xs) = (case f x of None \<Rightarrow> first_some f xs | Some y \<Rightarrow> Some y)"

definition ottl_traces :: "('r, 'c, 'q) evalEnv \<Rightarrow> 'q condSeq option \<Rightarrow> 'q condSeq option \<Rightarrow> Traces \<Rightarrow> Decision \<times> evalError option" where
  "ottl_traces env sexpr eexpr td =
     (case first_some (\<lambda>rs. first_some (\<lambda>ss. first_some (ottl_span env sexpr eexpr rs ss) (ss_spans ss)) (rs_scopes rs)) td
      of None \<Rightarrow> (NotSampled, None) | Some r \<Rightarrow> r)"

section \<open>Evaluate\<close>

text \<open>The \<open>Evaluate\<close> methods of the leaf policies.\<close>

definition alwaysSample_Evaluate :: "Traces \<Rightarrow> Decision" where
  [simp]: "alwaysSample_Evaluate t = SampledLocal"

definition latency_Evaluate :: "('r, 'c, 'q) evalEnv \<Rightarrow> int \<Rightarrow> int \<Rightarrow> Traces \<Rightarrow> Decision" where
  [simp]: "latency_Evaluate env lo up t = fst (hasSpanWithCondition t (latency_span env lo up) (0, 0))"

definition statusCode_Evaluate :: "StatusCode list \<Rightarrow> Traces \<Rightarrow> Decision" where
  [simp]: "statusCode_Evaluate codes t =
     fst (hasSpanWithCondition t (pure_st (\<lambda>span. sp_status span \<in> set codes)) ())"

definition stringAttribute_Evaluate :: "('r, 'c, 'q) evalEnv \<Rightarrow> string \<Rightarrow> ('r, 'c) matcher \<Rightarrow> Traces \<Rightarrow>
    Decision \<times> ('r, 'c) matcher" where
  [simp]: "stringAttribute_Evaluate env key m t =
     hasResourceOrSpanWithCondition t (string_resource env key) (string_span env key) m"

definition numericAttribute_Evaluate :: "string \<Rightarrow> int option \<Rightarrow> int option \<Rightarrow> Traces \<Rightarrow> Decision" where
  [simp]: "numericAttribute_Evaluate key mn mx t =
     fst (hasResourceOrSpanWithCondition t
       (pure_st (\<lambda>r. has_value key (\<lambda>v. in_range mn mx (v_Int v)) (res_attributes r)))
       (pure_st (\<lambda>span. has_value key (\<lambda>v. in_range mn mx (v_Int v)) (sp_attributes span))) ())"

definition booleanAttribute_Evaluate :: "string \<Rightarrow> bool \<Rightarrow> Traces \<Rightarrow> Decision" where
  [simp]: "booleanAttribute_Evaluate key val t =
     fst (hasResourceOrSpanWithCondition t
       (pure_st (\<lambda>r. has_value key (\<lambda>v. v_Bool v = val) (res_attributes r)))
       (pure_st (\<lambda>span. has_value key (\<lambda>v. v_Bool v = val) (sp_attributes span))) ())"

definition traceFlags_Evaluate :: "Traces \<Rightarrow> Decision" where
  [simp]: "traceFlags_Evaluate t = fst (hasSpanWithCondition t (pure_st flags_sampled) ())"

definition traceState_Evaluate :: "('r, 'c, 'q) evalEnv \<Rightarrow> string \<Rightarrow> string list \<Rightarrow> Traces \<Rightarrow> Decision" where
  [simp]: "traceState_Evaluate env key vals t = fst (hasSpanWithCondition t (pure_st (state_matches env key vals)) ())"

text \<open>What \<open>andPolicy\<close>, \<open>dropPolicy\<close> and \<open>notPolicy\<close> make of the answers of their sub-policies.\<close>

definition and_result :: "bool \<Rightarrow> evalError option \<Rightarrow> Decision \<times> evalError option" where
  [simp]: "and_result ok err = (if \<not> ok \<or> err \<noteq> None then (NotSampled, err) else (Sampled, None))"

definition drop_result :: "bool \<Rightarrow> evalError option \<Rightarrow> Decision \<times> evalError option" where
  [simp]: "drop_result ok err = (if \<not> ok \<or> err \<noteq> None then (NotSampled, err) else (Dropped, None))"

definition not_result :: "Decision \<Rightarrow> evalError option \<Rightarrow> Decision \<times> evalError option" where
  [simp]: "not_result d err =
     (if err \<noteq> None then (NotSampled, err)
      else case d of Sampled \<Rightarrow> (NotSampled, None) | SampledLocal \<Rightarrow> (NotSampled, None)
         | NotSampled \<Rightarrow> (Sampled, None) | Dropped \<Rightarrow> (NotSampled, Some ErrNotDrop))"

text \<open>The interface method, dispatched on the policy.\<close>

fun Evaluate :: "('r, 'c, 'q) evalEnv \<Rightarrow> ('r, 'c, 'q) Evaluator \<Rightarrow> Traces \<Rightarrow>
      (Decision \<times> evalError option) \<times> ('r, 'c, 'q) Evaluator"
  and allSubsMatch :: "('r, 'c, 'q) evalEnv \<Rightarrow> ('r, 'c, 'q) Evaluator list \<Rightarrow> Traces \<Rightarrow>
      bool \<times> evalError option \<times> ('r, 'c, 'q) Evaluator list" where
  "Evaluate env alwaysSample t = ((alwaysSample_Evaluate t, None), alwaysSample)"
| "Evaluate env (latency lo up) t = ((latency_Evaluate env lo up t, None), latency lo up)"
| "Evaluate env (statusCodeFilter codes) t = ((statusCode_Evaluate codes t, None), statusCodeFilter codes)"
| "Evaluate env (stringAttributeFilter key m) t =
     (case stringAttribute_Evaluate env key m t of (d, m') \<Rightarrow> ((d, None), stringAttributeFilter key m'))"
| "Evaluate env (numericAttributeFilter key mn mx) t =
     ((numericAttribute_Evaluate key mn mx t, None), numericAttributeFilter key mn mx)"
| "Evaluate env (booleanAttributeFilter key val) t =
     ((booleanAttribute_Evaluate key val t, None), booleanAttributeFilter key val)"
| "Evaluate env (probabilisticSampler threshold seed) t =
     ((probabilistic threshold seed t, None), probabilisticSampler threshold seed)"
| "Evaluate env traceFlags t = ((traceFlags_Evaluate t, None), traceFlags)"
| "Evaluate env (traceStateFilter key vals) t = ((traceState_Evaluate env key vals t, None), traceStateFilter key vals)"
| "Evaluate env (ottlConditionFilter sexpr eexpr) t = (ottl_traces env sexpr eexpr t, ottlConditionFilter sexpr eexpr)"
| "Evaluate env (andPolicy subs) t =
     (case allSubsMatch env subs t of (ok, err, subs') \<Rightarrow> (and_result ok err, andPolicy subs'))"
| "Evaluate env (notPolicy sub) t =
     (case Evaluate env sub t of ((d, err), sub') \<Rightarrow> (not_result d err, notPolicy sub'))"
| "Evaluate env (dropPolicy subs) t =
     (case allSubsMatch env subs t of (ok, err, subs') \<Rightarrow> (drop_result ok err, dropPolicy subs'))"
| "allSubsMatch env [] t = (True, None, [])"
| "allSubsMatch env (sub # subs) t =
     (case Evaluate env sub t of ((d, err), sub') \<Rightarrow>
        if err \<noteq> None then (False, err, sub' # subs)
        else (case d of
            NotSampled \<Rightarrow> (False, None, sub' # subs)
          | Dropped \<Rightarrow> (False, Some ErrNestedDrop, sub' # subs)
          | _ \<Rightarrow> (case allSubsMatch env subs t of (ok, err', subs') \<Rightarrow> (ok, err', sub' # subs'))))"

section \<open>Chain\<close>

text \<open>\<open>Chain.Evaluate\<close>, over any implementation of the interface.\<close>

fun Chain_Evaluate :: "('e \<Rightarrow> 't \<Rightarrow> (Decision \<times> 'x option) \<times> 'e) \<Rightarrow> 'e list \<Rightarrow> 't \<Rightarrow>
    (Decision \<times> 'x option) \<times> 'e list" where
  "Chain_Evaluate ev [] t = ((NotSampled, None), [])"
| "Chain_Evaluate ev (e # es) t =
     (case ev e t of ((d, err), e') \<Rightarrow>
        if err \<noteq> None then ((NotSampled, err), e' # es)
        else if d \<noteq> NotSampled then ((d, None), e' # es)
        else (case Chain_Evaluate ev es t of (r, es') \<Rightarrow> (r, e' # es')))"

text \<open>The contract of the interface: an error always comes with \<open>NotSampled\<close>.\<close>

locale evaluator_contract =
  fixes evaluate :: "'e \<Rightarrow> 't \<Rightarrow> (Decision \<times> 'x option) \<times> 'e"
  assumes error_not_sampled: "evaluate e t = ((d, Some x), e') \<Longrightarrow> d = NotSampled"
begin

text \<open>The first policy with an answer, or with an error, decides.\<close>

lemma chain_first:
  "fst (Chain_Evaluate evaluate es t) =
     (case dropWhile (\<lambda>e. fst (evaluate e t) = (NotSampled, None)) es of
        [] \<Rightarrow> (NotSampled, None) | e # _ \<Rightarrow> fst (evaluate e t))"
proof (induction es)
  case (Cons e es)
  obtain d err e' where e: "evaluate e t = ((d, err), e')" by (metis prod.exhaust)
  then show ?case using Cons error_not_sampled [of e t d] by (cases err) (auto split: prod.split)
qed simp

lemma chain_error: "Chain_Evaluate evaluate es t = ((d, Some x), es') \<Longrightarrow> d = NotSampled"
  by (induction es arbitrary: es') (auto split: prod.splits if_splits)

end

lemma ottl_events_error: "ottl_events ev es = Some (d, Some x) \<Longrightarrow> d = NotSampled"
  by (induction es) (auto split: option.splits bool.splits)

lemma ottl_span_error: "ottl_span env a b rs ss span = Some (d, Some x) \<Longrightarrow> d = NotSampled"
  by (auto simp: ottl_span_def Let_def split: option.splits bool.splits dest: ottl_events_error)

lemma first_some_sat: "first_some f xs = Some y \<Longrightarrow> \<exists>x \<in> set xs. f x = Some y"
  by (induction xs) (auto split: option.splits)

lemma ottl_traces_error: "ottl_traces env a b td = (d, Some x) \<Longrightarrow> d = NotSampled"
  by (auto simp: ottl_traces_def split: option.splits dest!: first_some_sat ottl_span_error)

lemma Evaluate_error: "Evaluate env e t = ((d, Some x), e') \<Longrightarrow> d = NotSampled"
  by (cases e) (auto split: prod.splits if_splits Decision.splits dest: ottl_traces_error)

interpretation ev: evaluator_contract "Evaluate env" for env
  by unfold_locales (rule Evaluate_error)

interpretation chain: evaluator_contract "Chain_Evaluate (Evaluate env)" for env
  by unfold_locales (rule ev.chain_error)

end
