(* ===== verification/Evaluator_Properties.thy ===== *)
theory Evaluator_Properties
  imports Evaluator
begin

text \<open>
  What the sampling policies decide: the chain, the latency window, the probabilistic sampler,
  the agreement of collectors on local decisions, and the transparency of the regex cache.
\<close>

section \<open>Loops over spans\<close>

lemma any_st_append: "any_st f (xs @ ys) s = (case any_st f xs s of (b, s') \<Rightarrow> if b then (True, s') else any_st f ys s')"
  by (induction xs arbitrary: s) (auto split: prod.split)

lemma any_st_concat: "any_st (\<lambda>x. any_st f (g x)) xs s = any_st f (concat (map g xs)) s"
  by (induction xs arbitrary: s) (auto simp: any_st_append split: prod.split)

lemma hasSpan_flat: "hasSpanWithCondition td f s = decide (any_st f (spans_of td) s)"
proof -
  have "concat (map ss_spans (concat (map rs_scopes td))) = spans_of td"
    by (induction td) simp_all
  then show ?thesis by (simp add: hasSpanWithCondition_def any_st_concat)
qed

lemma any_st_pure [simp]: "any_st (pure_st f) xs u = (list_ex f xs, u)"
  by (induction xs) (auto simp: pure_st_def)

text \<open>A loop whose closure answers like a predicate as long as its state satisfies an invariant.\<close>

lemma any_st_pure_like:
  assumes "\<And>x s. x \<in> set xs \<Longrightarrow> I s \<Longrightarrow> fst (f x s) = p x \<and> I (snd (f x s))" and "I s"
  shows "fst (any_st f xs s) = list_ex p xs \<and> I (snd (any_st f xs s))"
  using assms
proof (induction xs arbitrary: s)
  case (Cons x xs)
  have "fst (f x s) = p x" "I (snd (f x s))" using Cons.prems(1) [of x s] Cons.prems(2) by auto
  moreover have "fst (any_st f xs (snd (f x s))) = list_ex p xs \<and> I (snd (any_st f xs (snd (f x s))))"
    using Cons.prems(1) \<open>I (snd (f x s))\<close> by (intro Cons.IH) auto
  ultimately show ?case by (auto split: prod.split)
qed simp

lemma hasResourceOrSpan_pure:
  "hasResourceOrSpanWithCondition td (pure_st p) (pure_st q) () =
     (if \<exists>rs \<in> set td. p (rs_resource rs) \<or> (\<exists>x \<in> set (spans_of [rs]). q x) then Sampled else NotSampled, ())"
proof -
  define F where "F = (\<lambda>(rs :: ResourceSpans) u. case pure_st p (rs_resource rs) u of (b, u') \<Rightarrow>
    if b then (True, u') else any_st (\<lambda>ss. any_st (pure_st q) (ss_spans ss)) (rs_scopes rs) u')"
  have "fst (F rs u) = (p (rs_resource rs) \<or> list_ex q (concat (map ss_spans (rs_scopes rs))))" for rs u
    by (simp add: F_def pure_st_def [of p] any_st_concat)
  then have "fst (any_st F td ()) = list_ex (\<lambda>rs. p (rs_resource rs) \<or> list_ex q (concat (map ss_spans (rs_scopes rs)))) td"
    using any_st_pure_like [of td "\<lambda>_. True" F] by simp
  then show ?thesis
    unfolding hasResourceOrSpanWithCondition_def F_def [symmetric] by (simp add: decide_def list_ex_iff)
qed

section \<open>Latency\<close>

fun window :: "nat \<times> nat \<Rightarrow> Span list \<Rightarrow> nat \<times> nat" where
  "window w [] = w"
| "window w (x # xs) = window (if fst w = 0 then (sp_start x, sp_end x)
     else (min (fst w) (sp_start x), max (snd w) (sp_end x))) xs"

definition window_ms :: "('r, 'c, 'q) evalEnv \<Rightarrow> nat \<times> nat \<Rightarrow> int" where
  "window_ms env w = time_Sub (ts_AsTime env (snd w)) (ts_AsTime env (fst w)) sdiv 1000000"

definition latency_hit :: "int \<Rightarrow> int \<Rightarrow> int \<Rightarrow> bool" where
  "latency_hit lo up ms \<longleftrightarrow> (if up = 0 then ms \<ge> lo else lo < ms \<and> ms \<le> up)"

text \<open>The policy looks at the window of every non-empty prefix of the spans.\<close>

lemma latency_prefixes:
  "fst (any_st (latency_span env lo up) xs w) \<longleftrightarrow>
     (\<exists>n < length xs. latency_hit lo up (window_ms env (window w (take (Suc n) xs))))"
proof (induction xs arbitrary: w)
  case (Cons x xs)
  define w' where "w' = (if fst w = 0 then (sp_start x, sp_end x)
     else (min (fst w) (sp_start x), max (snd w) (sp_end x)))"
  have "latency_span env lo up x w = (latency_hit lo up (window_ms env w'), w')"
    by (simp add: latency_span_def w'_def latency_hit_def window_ms_def Let_def)
  then have "fst (any_st (latency_span env lo up) (x # xs) w) \<longleftrightarrow>
      latency_hit lo up (window_ms env w') \<or>
      (\<exists>n < length xs. latency_hit lo up (window_ms env (window w' (take (Suc n) xs))))"
    using Cons.IH [of w'] by auto
  also have "\<dots> \<longleftrightarrow> (\<exists>n < Suc (length xs). latency_hit lo up (window_ms env (window w' (take n xs))))"
    by (auto simp: less_Suc_eq_0_disj)
  finally show ?case by (simp add: w'_def)
qed simp

lemma window_Min_Max:
  assumes "xs \<noteq> []" and "\<forall>x \<in> set xs. 0 < sp_start x"
  shows "window (0, 0) xs = (Min (sp_start ` set xs), Max (sp_end ` set xs))"
proof -
  have *: "window (a, b) ys = (Min (insert a (sp_start ` set ys)), Max (insert b (sp_end ` set ys)))"
    if "0 < a" "\<forall>x \<in> set ys. 0 < sp_start x" for a b ys
    using that
  proof (induction ys arbitrary: a b)
    case (Cons y ys)
    have "window (a, b) (y # ys) = window (min a (sp_start y), max b (sp_end y)) ys"
      using Cons.prems by simp
    also have "\<dots> = (Min (insert (min a (sp_start y)) (sp_start ` set ys)),
        Max (insert (max b (sp_end y)) (sp_end ` set ys)))"
      using Cons by simp
    also have "\<dots> = (Min (insert a (sp_start ` set (y # ys))), Max (insert b (sp_end ` set (y # ys))))"
      by (cases "ys = []") (simp_all add: min.assoc max.assoc)
    finally show ?case .
  qed simp
  obtain x ys where xs: "xs = x # ys" using assms(1) by (cases xs) auto
  show ?thesis using assms(2) * [of "sp_start x" ys "sp_end x"] by (simp add: xs)
qed

lemma sdiv_mono: "0 < c \<Longrightarrow> a \<le> b \<Longrightarrow> a sdiv c \<le> b sdiv (c :: int)"
proof -
  assume c: "0 < c" and ab: "a \<le> b"
  have neg: "x sdiv c = - ((- x) div c)" if "x < 0" for x using c that by (simp add: signed_divide_int_def)
  have pos: "x sdiv c = x div c" if "0 \<le> x" for x using c that by (cases "x = 0") (simp_all add: signed_divide_int_def)
  show ?thesis
  proof (cases "0 \<le> a")
    case True
    then show ?thesis using pos [of a] pos [of b] ab c by (simp add: zdiv_mono1)
  next
    case False
    show ?thesis
    proof (cases "0 \<le> b")
      case True
      have "0 \<le> (- a) div c" using False c by (simp add: pos_imp_zdiv_nonneg_iff)
      moreover have "0 \<le> b div c" using True c by (simp add: pos_imp_zdiv_nonneg_iff)
      ultimately show ?thesis using neg [of a] pos [of b] True False by simp
    next
      case False2: False
      have "(- b) div c \<le> (- a) div c" using ab c by (intro zdiv_mono1) auto
      then show ?thesis using neg [of a] neg [of b] False False2 by simp
    qed
  qed
qed

definition AsTime_ok :: "('r, 'c, 'q) evalEnv \<Rightarrow> bool" where
  "AsTime_ok env \<longleftrightarrow> (\<forall>t < 2 ^ 63. ts_AsTime env t = int t)"

lemma window_ms_exact:
  assumes "AsTime_ok env" and "a < 2 ^ 63" and "b < 2 ^ 63"
  shows "window_ms env (a, b) = (int b - int a) sdiv 1000000"
proof -
  have "int a < 2 ^ 63" "int b < 2 ^ 63" using assms(2,3) by (metis of_nat_less_iff of_nat_numeral of_nat_power)+
  then have "time_Sub (int b) (int a) = int b - int a"
    by (intro time_Sub_exact) (simp_all add: minDuration_def maxDuration_def)
  then show ?thesis using assms by (simp add: window_ms_def AsTime_ok_def)
qed

text \<open>The latency policy without an upper threshold decides by the whole trace: it samples if and
  only if the time from the earliest start to the latest end of the spans seen, in whole
  milliseconds, reaches the threshold, in whatever order the spans come.\<close>

theorem latency_whole_window:
  assumes env: "AsTime_ok env" and ne: "spans_of td \<noteq> []"
    and rng: "\<forall>s \<in> set (spans_of td). 0 < sp_start s \<and> sp_start s < 2 ^ 63 \<and> sp_end s < 2 ^ 63"
  shows "fst (Evaluate env (latency lo 0) td) =
    (if lo \<le> (int (Max (sp_end ` set (spans_of td))) - int (Min (sp_start ` set (spans_of td)))) sdiv 1000000
     then Sampled else NotSampled, None)"
proof -
  define xs where "xs = spans_of td"
  define pre where "pre n = take (Suc n) xs" for n
  define ms where "ms ys = (int (Max (sp_end ` set ys)) - int (Min (sp_start ` set ys))) sdiv 1000000" for ys :: "Span list"
  have win: "window_ms env (window (0, 0) ys) = ms ys" if "ys \<noteq> []" "set ys \<subseteq> set xs" for ys
  proof -
    have "Min (sp_start ` set ys) \<in> sp_start ` set ys" "Max (sp_end ` set ys) \<in> sp_end ` set ys"
      using that(1) by (auto intro!: Min_in Max_in)
    then have "Min (sp_start ` set ys) < 2 ^ 63" "Max (sp_end ` set ys) < 2 ^ 63"
      using that(2) rng by (auto simp: xs_def)
    from window_ms_exact [OF env this] show ?thesis
      using window_Min_Max [OF that(1)] that(2) rng by (simp add: xs_def ms_def subset_iff)
  qed
  have mono: "ms ys \<le> ms xs" if "ys \<noteq> []" "set ys \<subseteq> set xs" for ys
    unfolding ms_def
  proof (rule sdiv_mono)
    have "Max (sp_end ` set ys) \<le> Max (sp_end ` set xs)" "Min (sp_start ` set xs) \<le> Min (sp_start ` set ys)"
      using that by (auto intro!: Max_mono Min_antimono)
    then show "int (Max (sp_end ` set ys)) - int (Min (sp_start ` set ys))
        \<le> int (Max (sp_end ` set xs)) - int (Min (sp_start ` set xs))" by linarith
  qed simp
  have pre: "pre n \<noteq> []" "set (pre n) \<subseteq> set xs" if "n < length xs" for n
    using that by (auto simp: pre_def dest: in_set_takeD)
  have last: "pre (length xs - 1) = xs" using ne by (simp add: pre_def xs_def)
  have "(\<exists>n < length xs. lo \<le> window_ms env (window (0, 0) (pre n))) \<longleftrightarrow> lo \<le> ms xs"
    using win mono pre last ne by (metis (no_types, lifting) diff_less length_greater_0_conv less_numeral_extra(1)
        order_trans subset_refl xs_def)
  then show ?thesis
    by (simp add: hasSpan_flat decide_def latency_prefixes latency_hit_def xs_def [symmetric] pre_def [symmetric]
        ms_def [symmetric])
qed

definition exEnv :: "(string, (string \<times> bool) list, unit) evalEnv" where
  "exEnv = \<lparr>re_Compile = Some, re_MatchString = (\<lambda>r s. r = take (length r) s), lru_New = (\<lambda>_. []),
     lru_Get = (\<lambda>s c. (map_of c s, c)), lru_Add = (\<lambda>s b c. take 2 ((s, b) # c)),
     ottl_NewSpanParser = None, ottl_NewEventParser = None, ottl_EvalSpan = (\<lambda>_ _ _ _. None),
     ottl_EvalEvent = (\<lambda>_ _ _ _ _. None), ts_ParseGet = (\<lambda>_ _. Some []), ts_AsTime = int\<rparr>"

theorem latency_whole_window_witness:
  "fst (Evaluate exEnv (latency 3 0) [\<lparr>rs_resource = \<lparr>res_attributes = [], res_rest = []\<rparr>, rs_schemaUrl = [],
     rs_scopes = [\<lparr>ss_scope = [], ss_schemaUrl = [], ss_spans = [exSpan 1 1000000 2000000, exSpan 1 3000000 4000000]\<rparr>]\<rparr>])
   = (Sampled, None)"
  by (subst latency_whole_window) (simp_all add: AsTime_ok_def exEnv_def exSpan_def signed_divide_int_def)

text \<open>C34: With an upper threshold the latency policy samples if and only if the window of some
  non-empty prefix of the spans lies above the threshold and not above the upper one, so the
  decision depends on the order of the spans and a trace that outgrows the upper threshold may
  be sampled for its beginning.\<close>

theorem latency_upper_prefix:
  assumes "up \<noteq> 0"
  shows "fst (Evaluate env (latency lo up) td) =
    (if \<exists>n < length (spans_of td). lo < window_ms env (window (0, 0) (take (Suc n) (spans_of td))) \<and>
         window_ms env (window (0, 0) (take (Suc n) (spans_of td))) \<le> up
     then Sampled else NotSampled, None)"
  using assms by (simp add: hasSpan_flat decide_def latency_prefixes latency_hit_def)

theorem latency_upper_prefix_witness:
  "\<exists>td td'. mset (spans_of td) = mset (spans_of td') \<and>
     fst (Evaluate exEnv (latency 1 5) td) = (Sampled, None) \<and> fst (Evaluate exEnv (latency 1 5) td') = (NotSampled, None)"
proof -
  let ?a = "exSpan 1 1000000 4000000" and ?b = "exSpan 1 1000000 9000000"
  let ?t = "\<lambda>xs. [\<lparr>rs_resource = \<lparr>res_attributes = [], res_rest = []\<rparr>, rs_schemaUrl = [],
     rs_scopes = [\<lparr>ss_scope = [], ss_schemaUrl = [], ss_spans = xs\<rparr>]\<rparr>]"
  have ms: "window_ms exEnv (1000000, 4000000) = 3" "window_ms exEnv (1000000, 9000000) = 8"
    by (simp_all add: window_ms_def exEnv_def time_Sub_def minDuration_def maxDuration_def signed_divide_int_def)
  have "fst (Evaluate exEnv (latency 1 5) (?t [?a, ?b])) = (Sampled, None)"
    using latency_upper_prefix [of 5 exEnv 1 "?t [?a, ?b]"] ms by (auto simp: exSpan_def intro!: exI [of _ 0])
  moreover have "window_ms exEnv (window (0, 0) (take (Suc n) (spans_of (?t [?b, ?a])))) = 8" for n
    using ms by (cases n) (simp_all add: exSpan_def)
  then have "fst (Evaluate exEnv (latency 1 5) (?t [?b, ?a])) = (NotSampled, None)"
    using latency_upper_prefix [of 5 exEnv 1 "?t [?b, ?a]"] by simp
  moreover have "mset (spans_of (?t [?a, ?b])) = mset (spans_of (?t [?b, ?a]))" by simp
  ultimately show ?thesis by blast
qed

section \<open>Policies in a chain\<close>

text \<open>The first policy of a chain that answers, or fails, decides: the result of the chain is that
  of the first policy whose result is not \<open>NotSampled\<close> without error, and \<open>NotSampled\<close> if there
  is none.\<close>

theorem policy_chain_first:
  "fst (Chain_Evaluate (Evaluate env) policies t) =
     (case dropWhile (\<lambda>e. fst (Evaluate env e t) = (NotSampled, None)) policies of
        [] \<Rightarrow> (NotSampled, None) | e # _ \<Rightarrow> fst (Evaluate env e t))"
  by (rule ev.chain_first)

lemma hashTraceID_bucket: "hashTraceID seed b < numHashBuckets"
proof -
  have "unat (hashTraceID seed b) \<le> unat (numHashBuckets - 1)"
    unfolding hashTraceID_def by (metis word_and_le1 word_le_nat_alt)
  then show ?thesis by (simp add: word_less_nat_alt numHashBuckets_def)
qed

lemma project_head:
  assumes "project tid td \<noteq> []"
  shows "probabilistic threshold seed (project tid td) = (if hashTraceID seed tid < threshold then SampledLocal else NotSampled)"
proof -
  obtain rs rest where p: "project tid td = rs # rest" using assms by (cases "project tid td") auto
  then have "rs \<in> set (project tid td)" by simp
  then obtain rs' where "rs = rs'\<lparr>rs_scopes := keep_scopes tid (rs_scopes rs')\<rparr>" and "rs_scopes rs \<noteq> []"
    by (auto simp: project_def)
  then obtain ss scopes where ss: "rs_scopes rs = ss # scopes" and "ss \<in> set (keep_scopes tid (rs_scopes rs'))"
    by (cases "rs_scopes rs") auto
  then obtain span spans where "ss_spans ss = span # spans" and "sp_traceID span = tid"
    by (cases "ss_spans ss") (auto simp: keep_scopes_def filter_eq_Cons_iff)
  then show ?thesis by (simp add: probabilistic_def p ss)
qed

text \<open>The probabilistic policy depends on the trace ID alone: whatever batches two collectors
  receive, if both hold spans of a trace they take the same decision for it; a threshold of
  all buckets always samples, and a threshold of 0 never does.\<close>

theorem probabilistic_agrees:
  assumes "groupByTrace td tid = Some t" and "groupByTrace td' tid = Some t'"
  shows "fst (Evaluate env (probabilisticSampler threshold seed) t) = fst (Evaluate env (probabilisticSampler threshold seed) t')
    \<and> fst (Evaluate env (probabilisticSampler numHashBuckets seed) t) = (SampledLocal, None)
    \<and> fst (Evaluate env (probabilisticSampler 0 seed) t) = (NotSampled, None)"
proof -
  have "t = project tid td" "t \<noteq> []" "t' = project tid td'" "t' \<noteq> []"
    using assms by (auto simp: groupByTrace_project some_if_def split: if_splits)
  then show ?thesis using project_head hashTraceID_bucket by simp
qed

theorem probabilistic_agrees_witness:
  "\<exists>t. groupByTrace exTraces (replicate 16 2) = Some t \<and>
     fst (Evaluate exEnv (probabilisticSampler numHashBuckets 7) t) = (SampledLocal, None)"
proof -
  have "replicate 16 2 \<in> sp_traceID ` set (spans_of exTraces)" by (simp add: exTraces_def exSpan_def)
  then have "project (replicate 16 2) exTraces \<noteq> []" unfolding project_Nil_iff by auto
  then obtain t where t: "groupByTrace exTraces (replicate 16 2) = Some t"
    by (simp add: groupByTrace_project some_if_def)
  from probabilistic_agrees [OF t t] t show ?thesis by blast
qed

text \<open>Which policies return \<open>SampledLocal\<close> and \<open>Dropped\<close>.\<close>

lemma ottl_decisions: "fst (ottl_traces env a b td) \<noteq> SampledLocal" "fst (ottl_traces env a b td) \<noteq> Dropped"
proof -
  have ev: "ottl_events f es = Some r \<Longrightarrow> fst r \<in> {NotSampled, Sampled}" for f es r
    by (induction es) (auto split: option.splits bool.splits)
  have "ottl_span env a b rs ss span = Some r \<Longrightarrow> fst r \<in> {NotSampled, Sampled}" for rs ss span r
    by (auto simp: ottl_span_def Let_def split: option.splits bool.splits dest: ev)
  then have "fst (ottl_traces env a b td) \<in> {NotSampled, Sampled}"
    by (auto simp: ottl_traces_def split: option.splits dest!: first_some_sat) blast
  then show "fst (ottl_traces env a b td) \<noteq> SampledLocal" "fst (ottl_traces env a b td) \<noteq> Dropped" by auto
qed

lemma local_policies:
  "fst (fst (Evaluate env e t)) = SampledLocal \<Longrightarrow> e = alwaysSample \<or> (\<exists>th seed. e = probabilisticSampler th seed)"
  by (cases e) (auto simp: hasSpanWithCondition_def hasResourceOrSpanWithCondition_def decide_def ottl_decisions
      split: prod.splits if_splits Decision.splits)

lemma drop_policies: "fst (fst (Evaluate env e t)) = Dropped \<Longrightarrow> \<exists>subs. e = dropPolicy subs"
  by (cases e) (auto simp: hasSpanWithCondition_def hasResourceOrSpanWithCondition_def decide_def probabilistic_def
      ottl_decisions split: prod.splits if_splits Decision.splits list.splits)

text \<open>Two collectors with the same policies, whatever their caches hold.\<close>

definition same_policies :: "('r, 'c, 'q) Evaluator list \<Rightarrow> ('r, 'c, 'q) Evaluator list \<Rightarrow> bool" where
  "same_policies es es' \<longleftrightarrow>
     map (map_Evaluator id (\<lambda>_. ()) id) es = map (map_Evaluator id (\<lambda>_. ()) id) es'"

text \<open>C27: A local decision needs no coordinator. If one collector samples a trace locally, then every
  other collector with the same policies that holds spans of the trace samples it on its own as
  well, locally or not, unless a policy fails there; this holds for every chain without a drop
  policy.\<close>

theorem sampled_local_agrees:
  assumes "fst (Chain_Evaluate (Evaluate env) es t) = (SampledLocal, None)"
    and "same_policies es es'" and "\<forall>e \<in> set es. \<forall>subs. e \<noteq> dropPolicy subs"
    and "groupByTrace td tid = Some t" and "groupByTrace td' tid = Some t'"
  shows "\<exists>d err. fst (Chain_Evaluate (Evaluate env) es' t') = (d, err) \<and> (err = None \<longrightarrow> d \<in> {Sampled, SampledLocal})"
  using assms(1-3)
proof (induction es arbitrary: es')
  case (Cons e es)
  have heads: "probabilistic th seed t = probabilistic th seed t'" for th seed
    using assms(4,5) project_head [of tid] by (auto simp: groupByTrace_project some_if_def split: if_splits)
  obtain e2 es2 where es': "es' = e2 # es2" and e2: "map_Evaluator id (\<lambda>_. ()) id e = map_Evaluator id (\<lambda>_. ()) id e2"
    and rest: "same_policies es es2"
    using Cons.prems(2) by (cases es') (auto simp: same_policies_def)
  obtain d1 x1 e1' where e1: "Evaluate env e t = ((d1, x1), e1')" by (metis prod.exhaust)
  obtain d2 x2 e2' where ev2: "Evaluate env e2 t' = ((d2, x2), e2')" by (metis prod.exhaust)
  have nd: "d2 \<noteq> Dropped"
  proof
    assume "d2 = Dropped"
    then obtain subs where "e2 = dropPolicy subs" using drop_policies [of env e2 t'] ev2 by auto
    with e2 Cons.prems(3) show False by (cases e) auto
  qed
  show ?case
  proof (cases "d2 = NotSampled \<and> x2 = None")
    case False
    then show ?thesis using ev2 nd by (cases d2; cases x2) (auto simp: es')
  next
    case True
    have "\<not> (d1 = SampledLocal \<and> x1 = None)"
    proof
      assume "d1 = SampledLocal \<and> x1 = None"
      then have "e = alwaysSample \<or> (\<exists>th seed. e = probabilisticSampler th seed)"
        using local_policies [of env e t] e1 by auto
      then have "e2 = e" using e2 by (cases e2) auto
      then show False
        using True ev2 e1 \<open>d1 = SampledLocal \<and> x1 = None\<close> heads
          \<open>e = alwaysSample \<or> (\<exists>th seed. e = probabilisticSampler th seed)\<close> by auto
    qed
    then have "fst (Chain_Evaluate (Evaluate env) es t) = (SampledLocal, None)"
      using Cons.prems(1) e1 by (auto split: if_splits prod.splits)
    then have "\<exists>d err. fst (Chain_Evaluate (Evaluate env) es2 t') = (d, err) \<and> (err = None \<longrightarrow> d \<in> {Sampled, SampledLocal})"
      using Cons.IH [OF _ rest] Cons.prems(3) by auto
    then show ?thesis using True ev2 by (auto simp: es' split: prod.splits)
  qed
qed simp

theorem sampled_local_agrees_witness:
  "\<exists>t d err. groupByTrace exTraces (replicate 16 2) = Some t \<and>
     fst (Chain_Evaluate (Evaluate exEnv) [traceFlags, alwaysSample] t) = (d, err) \<and> d \<in> {Sampled, SampledLocal}"
proof -
  have "replicate 16 2 \<in> sp_traceID ` set (spans_of exTraces)" by (simp add: exTraces_def exSpan_def)
  then have "project (replicate 16 2) exTraces \<noteq> []" unfolding project_Nil_iff by auto
  then obtain t where t: "groupByTrace exTraces (replicate 16 2) = Some t" and tp: "t = project (replicate 16 2) exTraces"
    by (simp add: groupByTrace_project some_if_def)
  have "spans_of t = [exSpan 2 11 12]" unfolding tp spans_project by (simp add: exTraces_def exSpan_def)
  then have "fst (Chain_Evaluate (Evaluate exEnv) [traceFlags, alwaysSample] t) = (SampledLocal, None)"
    by (simp add: hasSpan_flat decide_def flags_sampled_def exSpan_def pure_st_def)
  from sampled_local_agrees [OF this _ _ t t, of "[traceFlags, alwaysSample]"] this t show ?thesis
    by (auto simp: same_policies_def)
qed

section \<open>The regex cache\<close>

text \<open>
  What the filter relies on of the LRU cache: \<open>Get\<close> answers with what is stored, and both
  operations may forget entries but never invent one.
\<close>

definition lru_laws :: "('r, 'c, 'q) evalEnv \<Rightarrow> ('c \<Rightarrow> string \<Rightarrow> bool option) \<Rightarrow> bool" where
  "lru_laws env entries \<longleftrightarrow>
     (\<forall>n. entries (lru_New env n) = Map.empty) \<and>
     (\<forall>s c. fst (lru_Get env s c) = entries c s \<and> entries (snd (lru_Get env s c)) \<subseteq>\<^sub>m entries c) \<and>
     (\<forall>s b c. entries (lru_Add env s b c) \<subseteq>\<^sub>m (entries c)(s \<mapsto> b))"

definition cache_sound :: "('r, 'c, 'q) evalEnv \<Rightarrow> ('c \<Rightarrow> string \<Rightarrow> bool option) \<Rightarrow> 'r list \<Rightarrow> 'c \<Rightarrow> bool" where
  "cache_sound env entries rs c \<longleftrightarrow>
     (\<forall>s b. entries c s = Some b \<longrightarrow> b = list_ex (\<lambda>r. re_MatchString env r s) rs)"

lemma cached_match_sound:
  assumes laws: "lru_laws env entries" and "cache_sound env entries rs c"
  shows "fst (cached_match env rs s c) = list_ex (\<lambda>r. re_MatchString env r s) rs"
    and "cache_sound env entries rs (snd (cached_match env rs s c))"
proof -
  obtain r c' where g: "lru_Get env s c = (r, c')" by (cases "lru_Get env s c")
  have r: "r = entries c s" and c': "entries c' \<subseteq>\<^sub>m entries c"
    using laws g unfolding lru_laws_def by (metis fst_conv, metis snd_conv)
  have s': "cache_sound env entries rs c'"
    using assms(2) c' unfolding cache_sound_def map_le_def by (metis domI)
  show "fst (cached_match env rs s c) = list_ex (\<lambda>r. re_MatchString env r s) rs"
    using assms(2) r g by (auto simp: cached_match_def cache_sound_def Let_def split: option.split)
  have add: "cache_sound env entries rs (lru_Add env s b c')" if "b = list_ex (\<lambda>r. re_MatchString env r s) rs" for b
  proof -
    have "entries (lru_Add env s b c') \<subseteq>\<^sub>m (entries c')(s \<mapsto> b)" using laws by (simp add: lru_laws_def)
    then show ?thesis
      using s' that unfolding cache_sound_def map_le_def by (metis domI fun_upd_apply option.inject)
  qed
  then show "cache_sound env entries rs (snd (cached_match env rs s c))"
    using g s' by (auto simp: cached_match_def Let_def split: option.split)
qed

text \<open>C35: The cache of a regex filter does not change its answers: with a cache that holds only
  correct entries, the string attribute policy samples a batch if and only if the attribute of
  some resource matches one of the expressions, or that of some span is non-empty and matches one,
  and the cache holds only correct entries afterwards.\<close>

theorem string_filter_cache_transparent:
  assumes laws: "lru_laws env entries" and c: "cache_sound env entries rs c"
  defines "M \<equiv> \<lambda>s. list_ex (\<lambda>r. re_MatchString env r s) rs"
  shows "\<exists>c'. cache_sound env entries rs c' \<and>
    Evaluate env (stringAttributeFilter key (MRegex rs c)) td =
      ((if \<exists>r \<in> set td. has_value key (\<lambda>v. M (v_Str v)) (res_attributes (rs_resource r)) \<or>
          (\<exists>span \<in> set (spans_of [r]). has_value key (\<lambda>v. v_Str v \<noteq> [] \<and> M (v_Str v)) (sp_attributes span))
        then Sampled else NotSampled, None), stringAttributeFilter key (MRegex rs c'))"
proof -
  define I where "I m \<longleftrightarrow> (\<exists>c. m = MRegex rs c \<and> cache_sound env entries rs c)" for m
  have m: "fst (run_matcher env s m) = M s \<and> I (snd (run_matcher env s m))" if im: "I m" for s m
  proof -
    obtain d where d: "m = MRegex rs d" "cache_sound env entries rs d" using im by (auto simp: I_def)
    obtain b d' where "cached_match env rs s d = (b, d')" by (cases "cached_match env rs s d")
    with cached_match_sound [OF laws d(2), of s] d(1) show ?thesis by (simp add: I_def M_def)
  qed
  have res: "fst (string_resource env key r m) = has_value key (\<lambda>v. M (v_Str v)) (res_attributes r) \<and>
      I (snd (string_resource env key r m))" if "I m" for r m
    using m [OF that] that by (auto simp: string_resource_def has_value_def split: option.split)
  have sp: "fst (string_span env key x m) = has_value key (\<lambda>v. v_Str v \<noteq> [] \<and> M (v_Str v)) (sp_attributes x) \<and>
      I (snd (string_span env key x m))" if "I m" for x m
    using m [OF that] that by (auto simp: string_span_def has_value_def split: option.split)
  define P where "P = (\<lambda>x :: Span. has_value key (\<lambda>v. v_Str v \<noteq> [] \<and> M (v_Str v)) (sp_attributes x))"
  have scopes: "fst (any_st (\<lambda>ss. any_st (string_span env key) (ss_spans ss)) sss m) = list_ex P (concat (map ss_spans sss)) \<and>
      I (snd (any_st (\<lambda>ss. any_st (string_span env key) (ss_spans ss)) sss m))" if "I m" for sss m
    unfolding any_st_concat using any_st_pure_like [of _ I "string_span env key" P] sp that by (simp add: P_def)
  define F where "F = (\<lambda>(r :: ResourceSpans) m. case string_resource env key (rs_resource r) m of (b, m') \<Rightarrow>
      if b then (True, m') else any_st (\<lambda>ss. any_st (string_span env key) (ss_spans ss)) (rs_scopes r) m')"
  have "fst (F r m) = (has_value key (\<lambda>v. M (v_Str v)) (res_attributes (rs_resource r)) \<or>
      list_ex P (concat (map ss_spans (rs_scopes r)))) \<and> I (snd (F r m))" if im: "I m" for r m
  proof -
    obtain b m' where rm: "string_resource env key (rs_resource r) m = (b, m')"
      by (cases "string_resource env key (rs_resource r) m")
    with res [OF im, of "rs_resource r"] scopes [of m' "rs_scopes r"] show ?thesis by (simp add: F_def)
  qed
  then have all: "fst (any_st F td (MRegex rs c)) = list_ex (\<lambda>r. has_value key (\<lambda>v. M (v_Str v)) (res_attributes (rs_resource r)) \<or>
      list_ex P (concat (map ss_spans (rs_scopes r)))) td \<and> I (snd (any_st F td (MRegex rs c)))"
    using c by (intro any_st_pure_like) (auto simp: I_def)
  then obtain c' where c': "cache_sound env entries rs c'" "snd (any_st F td (MRegex rs c)) = MRegex rs c'"
    unfolding I_def by blast
  have dec: "fst (any_st F td (MRegex rs c)) \<longleftrightarrow> (\<exists>r \<in> set td. has_value key (\<lambda>v. M (v_Str v)) (res_attributes (rs_resource r)) \<or>
          (\<exists>span \<in> set (spans_of [r]). P span))"
    unfolding all [THEN conjunct1] list_ex_iff by simp
  have ev: "Evaluate env (stringAttributeFilter key (MRegex rs c)) td =
      ((if fst (any_st F td (MRegex rs c)) then Sampled else NotSampled, None), stringAttributeFilter key (MRegex rs c'))"
    using c'(2) by (simp add: hasResourceOrSpanWithCondition_def decide_def F_def [symmetric])
  show ?thesis by (intro exI [of _ c'] conjI c'(1)) (simp only: ev dec P_def)
qed

definition exService :: "string \<Rightarrow> Traces" where
  "exService v = [\<lparr>rs_resource = \<lparr>res_attributes = [(''svc'', \<lparr>v_Str = v, v_Int = 0, v_Bool = False\<rparr>)], res_rest = []\<rparr>,
     rs_schemaUrl = [], rs_scopes = []\<rparr>]"

theorem string_filter_cache_transparent_witness:
  "fst (Evaluate exEnv (stringAttributeFilter ''svc'' (MRegex [''pay''] [(''payments'', True)])) (exService ''payments''))
     = (Sampled, None)"
proof -
  have map_le: "map_of (take 2 ((s, b) # c)) \<subseteq>\<^sub>m (map_of c)(s \<mapsto> b)" for s :: string and b :: bool and c
    by (cases c) (auto simp: map_le_def)
  have laws: "lru_laws exEnv map_of"
    unfolding lru_laws_def using map_le by (simp add: exEnv_def)
  have "cache_sound exEnv map_of [''pay''] [(''payments'', True)]"
    by (simp add: cache_sound_def exEnv_def)
  from string_filter_cache_transparent [OF laws this, of "''svc''" "exService ''payments''"] show ?thesis
    by (auto simp: exService_def has_value_def exEnv_def)
qed

end
