(* ===== verification/Registry.thy ===== *)
theory Registry
  imports Complex_Main Evaluator_Properties
begin

text \<open>
  The policy configuration (\<open>config.go\<close> of \<open>internal/evaluator\<close>), the constructors of the policies
  and \<open>Build\<close> (\<open>registry.go\<close>). Floating point is written out where it matters: a \<open>float64\<close> is its
  rational value, \<open>float64\<close> rounds to 53 significant bits, half to even; below 1/2 it rounds to
  multiples of \<open>2 ^ -53\<close>, which its only use, truncation to an integer, cannot see. What
  converting a value outside the range of \<open>uint32\<close> gives is up to the implementation of Go and is
  the parameter \<open>oob\<close>.
\<close>

section \<open>Configuration\<close>

datatype PolicyType =
    AlwaysSample | Latency | NumericAttribute | Probabilistic | StatusCode | StringAttribute | RateLimiting
  | And | Not | Drop | SpanCountType | TraceState | BooleanAttribute | OTTLCondition | BytesLimiting
  | TraceFlags | Composite | OtherType string

record LatencyCfg =
  ThresholdMs :: int
  UpperThresholdMs :: int

record NumericAttributeCfg =
  na_Key :: string
  na_MinValue :: int
  na_MaxValue :: int

record ProbabilisticCfg =
  HashSeed :: "32 word"
  SamplingPercentage :: rat

record StringAttributeCfg =
  sa_Key :: string
  sa_Values :: "string list"
  sa_EnabledRegexMatching :: bool
  sa_CacheMaxSize :: int

record StatusCodeCfg =
  sc_StatusCodes :: "string list"

record RateLimitingCfg =
  SpansPerSecond :: int

record BytesLimitingCfg =
  BytesPerSecond :: int
  BurstCapacity :: int

record SpanCountCfg =
  MinSpans :: int
  MaxSpans :: int

record BooleanAttributeCfg =
  ba_Key :: string
  ba_Value :: bool

record TraceStateCfg =
  tc_Key :: string
  tc_Values :: "string list"

record OTTLConditionCfg =
  ErrorMode :: string
  SpanConditions :: "string list"
  SpanEventConditions :: "string list"

record SharedPolicyCfg =
  pc_Name :: string
  pc_Type :: PolicyType
  pc_LatencyCfg :: LatencyCfg
  pc_NumericAttributeCfg :: NumericAttributeCfg
  pc_ProbabilisticCfg :: ProbabilisticCfg
  pc_StatusCodeCfg :: StatusCodeCfg
  pc_StringAttributeCfg :: StringAttributeCfg
  pc_RateLimitingCfg :: RateLimitingCfg
  pc_BytesLimitingCfg :: BytesLimitingCfg
  pc_SpanCountCfg :: SpanCountCfg
  pc_TraceStateCfg :: TraceStateCfg
  pc_BooleanAttributeCfg :: BooleanAttributeCfg
  pc_OTTLConditionCfg :: OTTLConditionCfg

record PolicyCfg =
  pol_Shared :: SharedPolicyCfg
  pol_And :: "SharedPolicyCfg list"
  pol_Not :: SharedPolicyCfg
  pol_Drop :: "SharedPolicyCfg list"

datatype buildError =
    ErrPolicy string buildError
  | ErrAndSub nat buildError
  | ErrNotSub buildError
  | ErrDropSub nat buildError
  | ErrNoStatusCodes
  | ErrUnknownStatusCode string
  | ErrInvalidRegex string
  | ErrNoConditions
  | ErrOTTLParser
  | ErrParseConditions
  | ErrUnsupported PolicyType
  | ErrUnknownType PolicyType

section \<open>Constructors\<close>

text \<open>The constructors that only fill in the fields of their policy.\<close>

definition NewAlwaysSample :: "('r, 'c, 'q) Evaluator" where
  [simp]: "NewAlwaysSample = alwaysSample"

definition NewLatency :: "int \<Rightarrow> int \<Rightarrow> ('r, 'c, 'q) Evaluator" where
  [simp]: "NewLatency thresholdMs upperThresholdMs = latency thresholdMs upperThresholdMs"

definition NewNumericAttributeFilter :: "string \<Rightarrow> int option \<Rightarrow> int option \<Rightarrow> ('r, 'c, 'q) Evaluator" where
  [simp]: "NewNumericAttributeFilter key minValue maxValue = numericAttributeFilter key minValue maxValue"

definition NewBooleanAttributeFilter :: "string \<Rightarrow> bool \<Rightarrow> ('r, 'c, 'q) Evaluator" where
  [simp]: "NewBooleanAttributeFilter key val = booleanAttributeFilter key val"

definition NewTraceFlags :: "('r, 'c, 'q) Evaluator" where
  [simp]: "NewTraceFlags = traceFlags"

definition NewAnd :: "('r, 'c, 'q) Evaluator list \<Rightarrow> ('r, 'c, 'q) Evaluator" where
  [simp]: "NewAnd subpolicies = andPolicy subpolicies"

definition NewNot :: "('r, 'c, 'q) Evaluator \<Rightarrow> ('r, 'c, 'q) Evaluator" where
  [simp]: "NewNot subPolicyEvaluator = notPolicy subPolicyEvaluator"

definition NewDrop :: "('r, 'c, 'q) Evaluator list \<Rightarrow> ('r, 'c, 'q) Evaluator" where
  [simp]: "NewDrop subpolicies = dropPolicy subpolicies"

fun status_codes :: "string list \<Rightarrow> buildError + StatusCode list" where
  "status_codes [] = Inr []"
| "status_codes (s # ss) =
     (if s = ''OK'' then map_sum id (Cons StatusCodeOk) (status_codes ss)
      else if s = ''ERROR'' then map_sum id (Cons StatusCodeError) (status_codes ss)
      else if s = ''UNSET'' then map_sum id (Cons StatusCodeUnset) (status_codes ss)
      else Inl (ErrUnknownStatusCode s))"

definition NewStatusCodeFilter :: "string list \<Rightarrow> buildError + ('r, 'c, 'q) Evaluator" where
  "NewStatusCodeFilter ss = (if ss = [] then Inl ErrNoStatusCodes else map_sum id statusCodeFilter (status_codes ss))"

fun compileFilters :: "('r, 'c, 'q) evalEnv \<Rightarrow> string list \<Rightarrow> buildError + 'r list" where
  "compileFilters env [] = Inr []"
| "compileFilters env (e # es) =
     (case re_Compile env e of None \<Rightarrow> Inl (ErrInvalidRegex e) | Some r \<Rightarrow> map_sum id (Cons r) (compileFilters env es))"

definition defaultCacheSize :: int where "defaultCacheSize = 128"

definition NewStringAttributeFilter :: "('r, 'c, 'q) evalEnv \<Rightarrow> string \<Rightarrow> string list \<Rightarrow> bool \<Rightarrow> int \<Rightarrow>
    buildError + ('r, 'c, 'q) Evaluator" where
  "NewStringAttributeFilter env key vals regexMatchEnabled evictSize =
     (if regexMatchEnabled then
        let n = (if evictSize \<le> 0 then defaultCacheSize else evictSize) in
        map_sum id (\<lambda>rs. stringAttributeFilter key (MRegex rs (lru_New env n))) (compileFilters env vals)
      else Inr (stringAttributeFilter key (MValues (filter (\<lambda>v. v \<noteq> []) vals))))"

definition NewTraceStateFilter :: "string \<Rightarrow> string list \<Rightarrow> ('r, 'c, 'q) Evaluator" where
  "NewTraceStateFilter key vals =
     traceStateFilter key (filter (\<lambda>v. v \<noteq> [] \<and> length key + length v < 256) vals)"

text \<open>A parser for the standard converters (with \<open>IsRootSpan\<close> for spans) may fail to be created; it parses all
  the conditions or fails.\<close>

definition newBoolExpr :: "(string list \<Rightarrow> 'q list option) option \<Rightarrow> string list \<Rightarrow> string \<Rightarrow> buildError + 'q condSeq" where
  "newBoolExpr newParser conds errMode = (case newParser of
       None \<Rightarrow> Inl ErrOTTLParser
     | Some ParseConditions \<Rightarrow> (case ParseConditions conds of
         None \<Rightarrow> Inl ErrParseConditions
       | Some qs \<Rightarrow> Inr (ConditionSequence qs errMode)))"

definition newBoolExprForSpan :: "('r, 'c, 'q) evalEnv \<Rightarrow> string list \<Rightarrow> string \<Rightarrow> buildError + 'q condSeq" where
  "newBoolExprForSpan env = newBoolExpr (ottl_NewSpanParser env)"

definition newBoolExprForSpanEvent :: "('r, 'c, 'q) evalEnv \<Rightarrow> string list \<Rightarrow> string \<Rightarrow> buildError + 'q condSeq" where
  "newBoolExprForSpanEvent env = newBoolExpr (ottl_NewEventParser env)"

definition NewOTTLConditionFilter :: "('r, 'c, 'q) evalEnv \<Rightarrow> string list \<Rightarrow> string list \<Rightarrow> string \<Rightarrow>
    buildError + ('r, 'c, 'q) Evaluator" where
  "NewOTTLConditionFilter env spanConds eventConds errMode =
     (if spanConds = [] \<and> eventConds = [] then Inl ErrNoConditions
      else
        case (if spanConds = [] then Inr None else map_sum id Some (newBoolExprForSpan env spanConds errMode)) of
          Inl e \<Rightarrow> Inl e
        | Inr sq \<Rightarrow>
            map_sum id (ottlConditionFilter sq)
              (if eventConds = [] then Inr None
               else map_sum id Some (newBoolExprForSpanEvent env eventConds errMode)))"

subsection \<open>The sampling threshold\<close>

function bits :: "int \<Rightarrow> nat" where
  "bits n = (if n \<le> 0 then 0 else Suc (bits (n div 2)))"
  by pat_completeness auto
termination
  by (relation "measure nat") auto

declare bits.simps [simp del]

definition round_even :: "rat \<Rightarrow> int" where
  "round_even q = (let f = \<lfloor>q\<rfloor>; r = q - of_int f in if r < 1 / 2 \<or> r = 1 / 2 \<and> even f then f else f + 1)"

definition float64 :: "rat \<Rightarrow> rat" where
  "float64 q = (let s = 2 ^ (53 - bits \<lfloor>q\<rfloor>) in of_int (round_even (q * s)) / s)"

definition to_uint32 :: "(rat \<Rightarrow> 32 word) \<Rightarrow> rat \<Rightarrow> 32 word" where
  "to_uint32 oob q = (if -1 < q \<and> q < 2 ^ 32 then word_of_int (if q < 0 then 0 else \<lfloor>q\<rfloor>) else oob q)"

definition percentageScaleFactor :: rat where "percentageScaleFactor = 16384 / 100"

definition NewProbabilisticSampler :: "(rat \<Rightarrow> 32 word) \<Rightarrow> 32 word \<Rightarrow> rat \<Rightarrow> ('r, 'c, 'q) Evaluator" where
  "NewProbabilisticSampler oob hashSeed samplingPercentage =
     probabilisticSampler (to_uint32 oob (float64 (samplingPercentage * float64 percentageScaleFactor))) hashSeed"

section \<open>Build\<close>

definition non_zero :: "int \<Rightarrow> int option" where
  "non_zero v = (if v \<noteq> 0 then Some v else None)"

definition buildShared :: "('r, 'c, 'q) evalEnv \<Rightarrow> (rat \<Rightarrow> 32 word) \<Rightarrow> SharedPolicyCfg \<Rightarrow>
    buildError + ('r, 'c, 'q) Evaluator" where
  "buildShared env oob cfg = (case pc_Type cfg of
       AlwaysSample \<Rightarrow> Inr NewAlwaysSample
     | Latency \<Rightarrow> Inr (NewLatency (ThresholdMs (pc_LatencyCfg cfg)) (UpperThresholdMs (pc_LatencyCfg cfg)))
     | StatusCode \<Rightarrow> NewStatusCodeFilter (sc_StatusCodes (pc_StatusCodeCfg cfg))
     | StringAttribute \<Rightarrow>
         let c = pc_StringAttributeCfg cfg in
         NewStringAttributeFilter env (sa_Key c) (sa_Values c) (sa_EnabledRegexMatching c) (sa_CacheMaxSize c)
     | NumericAttribute \<Rightarrow>
         let c = pc_NumericAttributeCfg cfg in
         Inr (NewNumericAttributeFilter (na_Key c) (non_zero (na_MinValue c)) (non_zero (na_MaxValue c)))
     | BooleanAttribute \<Rightarrow>
         let c = pc_BooleanAttributeCfg cfg in Inr (NewBooleanAttributeFilter (ba_Key c) (ba_Value c))
     | Probabilistic \<Rightarrow>
         let c = pc_ProbabilisticCfg cfg in Inr (NewProbabilisticSampler oob (HashSeed c) (SamplingPercentage c))
     | TraceState \<Rightarrow> Inr (NewTraceStateFilter (tc_Key (pc_TraceStateCfg cfg)) (tc_Values (pc_TraceStateCfg cfg)))
     | TraceFlags \<Rightarrow> Inr NewTraceFlags
     | OTTLCondition \<Rightarrow>
         let c = pc_OTTLConditionCfg cfg in
         NewOTTLConditionFilter env (SpanConditions c) (SpanEventConditions c) (ErrorMode c)
     | SpanCountType \<Rightarrow> Inl (ErrUnsupported SpanCountType)
     | RateLimiting \<Rightarrow> Inl (ErrUnsupported RateLimiting)
     | BytesLimiting \<Rightarrow> Inl (ErrUnsupported BytesLimiting)
     | Composite \<Rightarrow> Inl (ErrUnsupported Composite)
     | ty \<Rightarrow> Inl (ErrUnknownType ty))"

text \<open>The loops over sub-policies: the error is wrapped with the index it occurred at.\<close>

fun build_subs :: "('r, 'c, 'q) evalEnv \<Rightarrow> (rat \<Rightarrow> 32 word) \<Rightarrow> (nat \<Rightarrow> buildError \<Rightarrow> buildError) \<Rightarrow> nat \<Rightarrow>
    SharedPolicyCfg list \<Rightarrow> buildError + ('r, 'c, 'q) Evaluator list" where
  "build_subs env oob wrap i [] = Inr []"
| "build_subs env oob wrap i (c # cs) =
     (case buildShared env oob c of
        Inl e \<Rightarrow> Inl (wrap i e)
      | Inr ev \<Rightarrow> map_sum id (Cons ev) (build_subs env oob wrap (Suc i) cs))"

definition buildAndPolicy :: "('r, 'c, 'q) evalEnv \<Rightarrow> (rat \<Rightarrow> 32 word) \<Rightarrow> SharedPolicyCfg list \<Rightarrow>
    buildError + ('r, 'c, 'q) Evaluator" where
  "buildAndPolicy env oob cs = map_sum id NewAnd (build_subs env oob ErrAndSub 0 cs)"

definition buildNotPolicy :: "('r, 'c, 'q) evalEnv \<Rightarrow> (rat \<Rightarrow> 32 word) \<Rightarrow> SharedPolicyCfg \<Rightarrow>
    buildError + ('r, 'c, 'q) Evaluator" where
  "buildNotPolicy env oob c = map_sum ErrNotSub NewNot (buildShared env oob c)"

definition buildDropPolicy :: "('r, 'c, 'q) evalEnv \<Rightarrow> (rat \<Rightarrow> 32 word) \<Rightarrow> SharedPolicyCfg list \<Rightarrow>
    buildError + ('r, 'c, 'q) Evaluator" where
  "buildDropPolicy env oob cs = map_sum id NewDrop (build_subs env oob ErrDropSub 0 cs)"

definition buildPolicy :: "('r, 'c, 'q) evalEnv \<Rightarrow> (rat \<Rightarrow> 32 word) \<Rightarrow> PolicyCfg \<Rightarrow>
    buildError + ('r, 'c, 'q) Evaluator" where
  "buildPolicy env oob cfg = (case pc_Type (pol_Shared cfg) of
       And \<Rightarrow> buildAndPolicy env oob (pol_And cfg)
     | Not \<Rightarrow> buildNotPolicy env oob (pol_Not cfg)
     | Drop \<Rightarrow> buildDropPolicy env oob (pol_Drop cfg)
     | _ \<Rightarrow> buildShared env oob (pol_Shared cfg))"

fun Build :: "('r, 'c, 'q) evalEnv \<Rightarrow> (rat \<Rightarrow> 32 word) \<Rightarrow> PolicyCfg list \<Rightarrow>
    buildError + ('r, 'c, 'q) Evaluator list" where
  "Build env oob [] = Inr []"
| "Build env oob (p # ps) =
     (case buildPolicy env oob p of
        Inl e \<Rightarrow> Inl (ErrPolicy (pc_Name (pol_Shared p)) e)
      | Inr ev \<Rightarrow> map_sum id (Cons ev) (Build env oob ps))"

section \<open>What Build produces\<close>

fun is_leaf :: "('r, 'c, 'q) Evaluator \<Rightarrow> bool" where
  "is_leaf (andPolicy subs) = False"
| "is_leaf (notPolicy sub) = False"
| "is_leaf (dropPolicy subs) = False"
| "is_leaf _ = True"

fun one_level :: "('r, 'c, 'q) Evaluator \<Rightarrow> bool" where
  "one_level (andPolicy subs) = list_all is_leaf subs"
| "one_level (notPolicy sub) = is_leaf sub"
| "one_level (dropPolicy subs) = list_all is_leaf subs"
| "one_level _ = True"

lemma map_sum_Inr_iff: "map_sum f g x = Inr y \<longleftrightarrow> (\<exists>z. x = Inr z \<and> y = g z)"
  by (cases x) auto

lemma leaf_one_level: "is_leaf e \<Longrightarrow> one_level e"
  by (cases e) auto

lemma buildShared_leaf: "buildShared env oob cfg = Inr e \<Longrightarrow> is_leaf e"
  by (auto simp: buildShared_def NewStatusCodeFilter_def NewStringAttributeFilter_def NewTraceStateFilter_def
      NewOTTLConditionFilter_def NewProbabilisticSampler_def Let_def map_sum_Inr_iff
      split: PolicyType.splits if_splits option.splits sum.splits)

lemma build_subs_leaf: "build_subs env oob wrap i cs = Inr es \<Longrightarrow> list_all is_leaf es"
  by (induction cs arbitrary: i es) (auto simp: map_sum_Inr_iff buildShared_leaf split: sum.splits)

lemma buildPolicy_one_level: "buildPolicy env oob p = Inr e \<Longrightarrow> one_level e"
  by (auto simp: buildPolicy_def buildAndPolicy_def buildNotPolicy_def buildDropPolicy_def map_sum_Inr_iff
      build_subs_leaf buildShared_leaf leaf_one_level split: PolicyType.splits)

lemma Build_one_level: "Build env oob ps = Inr es \<Longrightarrow> list_all one_level es"
  by (induction ps arbitrary: es) (auto simp: map_sum_Inr_iff buildPolicy_one_level split: sum.splits)

text \<open>Evaluating keeps the shape, and a leaf fails only in OTTL.\<close>

lemma leaf_Evaluate:
  assumes "is_leaf e"
  shows "is_leaf (snd (Evaluate env e t))" and "snd (fst (Evaluate env e t)) \<in> {None, Some ErrOTTL}"
    and "fst (fst (Evaluate env e t)) \<noteq> Dropped"
proof -
  have ev: "ottl_events f es = Some r \<Longrightarrow> snd r \<in> {None, Some ErrOTTL}" for f es r
    by (induction es) (auto split: option.splits bool.splits)
  have "ottl_span env a b rs ss span = Some r \<Longrightarrow> snd r \<in> {None, Some ErrOTTL}" for a b rs ss span r
    by (auto simp: ottl_span_def Let_def split: option.splits bool.splits dest: ev)
  then have "snd (ottl_traces env a b td) \<in> {None, Some ErrOTTL}" for a b td
    by (auto simp: ottl_traces_def split: option.splits dest!: first_some_sat) blast
  with assms show "snd (fst (Evaluate env e t)) \<in> {None, Some ErrOTTL}"
    by (cases e) (auto split: prod.split)
  show "is_leaf (snd (Evaluate env e t))" using assms by (cases e) (auto split: prod.split)
  show "fst (fst (Evaluate env e t)) \<noteq> Dropped"
    using assms drop_policies [of env e t] by (metis is_leaf.simps(3))
qed

lemma subs_Evaluate:
  assumes "list_all is_leaf subs" and "allSubsMatch env subs t = (ok, err, subs')"
  shows "list_all is_leaf subs' \<and> err \<in> {None, Some ErrOTTL}"
  using assms
proof (induction subs arbitrary: ok err subs')
  case (Cons e es)
  obtain d x e' where e: "Evaluate env e t = ((d, x), e')" by (metis prod.exhaust)
  have "is_leaf e'" "x \<in> {None, Some ErrOTTL}" "d \<noteq> Dropped"
    using leaf_Evaluate [of e env t] Cons.prems(1) e by auto
  then show ?case
    using Cons e by (cases d) (auto split: if_splits prod.splits)
qed simp

lemma one_level_Evaluate:
  assumes "one_level e"
  shows "one_level (snd (Evaluate env e t))" and "snd (fst (Evaluate env e t)) \<in> {None, Some ErrOTTL}"
proof -
  have "one_level (snd (Evaluate env e t)) \<and> snd (fst (Evaluate env e t)) \<in> {None, Some ErrOTTL}"
  proof (cases "is_leaf e")
    case True
    then show ?thesis using leaf_Evaluate [of e env t] leaf_one_level by auto
  next
    case False
    then show ?thesis
    proof (cases e)
      case (notPolicy sub)
      obtain d x sub' where s: "Evaluate env sub t = ((d, x), sub')" by (metis prod.exhaust)
      then have "is_leaf sub'" "x \<in> {None, Some ErrOTTL}" "d \<noteq> Dropped"
        using leaf_Evaluate [of sub env t] assms notPolicy by auto
      then show ?thesis using s notPolicy by (cases d) auto
    next
      case (andPolicy subs)
      obtain ok err subs' where s: "allSubsMatch env subs t = (ok, err, subs')" by (metis prod.exhaust)
      then show ?thesis using subs_Evaluate [OF _ s] assms andPolicy by auto
    next
      case (dropPolicy subs)
      obtain ok err subs' where s: "allSubsMatch env subs t = (ok, err, subs')" by (metis prod.exhaust)
      then show ?thesis using subs_Evaluate [OF _ s] assms dropPolicy by auto
    qed auto
  qed
  then show "one_level (snd (Evaluate env e t))" "snd (fst (Evaluate env e t)) \<in> {None, Some ErrOTTL}" by auto
qed

lemma chain_one_level:
  "list_all one_level es \<Longrightarrow> list_all one_level (snd (Chain_Evaluate (Evaluate env) es t)) \<and>
   snd (fst (Chain_Evaluate (Evaluate env) es t)) \<in> {None, Some ErrOTTL}"
proof (induction es)
  case (Cons e es)
  obtain d x e' where e: "Evaluate env e t = ((d, x), e')" by (metis prod.exhaust)
  have "one_level e'" "x \<in> {None, Some ErrOTTL}" using one_level_Evaluate [of e env t] Cons.prems e by auto
  then show ?case using Cons e by (auto split: prod.split)
qed simp

text \<open>A chain that evaluates one batch after the other, keeping its caches.\<close>

definition evaluate_all :: "('r, 'c, 'q) evalEnv \<Rightarrow> Traces list \<Rightarrow> ('r, 'c, 'q) Evaluator list \<Rightarrow> ('r, 'c, 'q) Evaluator list" where
  "evaluate_all env ts es = fold (\<lambda>t es. snd (Chain_Evaluate (Evaluate env) es t)) ts es"

text \<open>\<open>Build\<close> rules out nested drop policies: after any batches, evaluating a chain it has built
  never fails with the errors for a sub-policy that returned \<open>Dropped\<close>; the only run-time
  error of a built chain is that of an OTTL condition.\<close>

theorem built_chain_errors:
  assumes "Build env oob ps = Inr es"
  shows "snd (fst (Chain_Evaluate (Evaluate env) (evaluate_all env ts es) t)) \<in> {None, Some ErrOTTL}"
proof -
  have "list_all one_level (evaluate_all env ts es)" if "list_all one_level es" for es
    using that by (induction ts arbitrary: es) (simp_all add: evaluate_all_def chain_one_level)
  then show ?thesis using Build_one_level [OF assms] chain_one_level by blast
qed

definition exShared :: SharedPolicyCfg where
  "exShared = \<lparr>pc_Name = ''p'', pc_Type = AlwaysSample, pc_LatencyCfg = \<lparr>ThresholdMs = 0, UpperThresholdMs = 0\<rparr>,
     pc_NumericAttributeCfg = \<lparr>na_Key = ''n'', na_MinValue = 0, na_MaxValue = 10\<rparr>,
     pc_ProbabilisticCfg = \<lparr>HashSeed = 0, SamplingPercentage = 100\<rparr>, pc_StatusCodeCfg = \<lparr>sc_StatusCodes = [''ERROR'']\<rparr>,
     pc_StringAttributeCfg = \<lparr>sa_Key = ''s'', sa_Values = [''x''], sa_EnabledRegexMatching = True, sa_CacheMaxSize = 0\<rparr>,
     pc_RateLimitingCfg = \<lparr>SpansPerSecond = 0\<rparr>, pc_BytesLimitingCfg = \<lparr>BytesPerSecond = 0, BurstCapacity = 0\<rparr>,
     pc_SpanCountCfg = \<lparr>MinSpans = 0, MaxSpans = 0\<rparr>,
     pc_TraceStateCfg = \<lparr>tc_Key = ''k'', tc_Values = [''v'']\<rparr>, pc_BooleanAttributeCfg = \<lparr>ba_Key = ''b'', ba_Value = True\<rparr>,
     pc_OTTLConditionCfg = \<lparr>ErrorMode = [], SpanConditions = [], SpanEventConditions = []\<rparr>\<rparr>"

definition exPolicy :: "PolicyType \<Rightarrow> PolicyType \<Rightarrow> PolicyCfg" where
  "exPolicy ty sub = \<lparr>pol_Shared = exShared\<lparr>pc_Type := ty\<rparr>, pol_And = [exShared\<lparr>pc_Type := sub\<rparr>],
     pol_Not = exShared\<lparr>pc_Type := sub\<rparr>, pol_Drop = [exShared\<lparr>pc_Type := sub\<rparr>]\<rparr>"

theorem built_chain_errors_witness:
  "\<exists>es. Build exEnv (\<lambda>_. 0) [exPolicy Drop StatusCode, exPolicy Not StringAttribute] = Inr es \<and>
     snd (fst (Chain_Evaluate (Evaluate exEnv) (evaluate_all exEnv [exTraces] es) exTraces)) \<in> {None, Some ErrOTTL}"
proof -
  obtain es where es: "Build exEnv (\<lambda>_. 0) [exPolicy Drop StatusCode, exPolicy Not StringAttribute] = Inr es"
    by (simp add: exPolicy_def exShared_def exEnv_def buildPolicy_def buildDropPolicy_def buildNotPolicy_def
        buildShared_def NewStatusCodeFilter_def NewStringAttributeFilter_def Let_def)
  from built_chain_errors [OF es] es show ?thesis by blast
qed

text \<open>\<open>Build\<close> keeps the policies in their order, one evaluator each, or fails with the error of the
  first policy that cannot be built, named after it.\<close>

theorem Build_in_order:
  "Build env oob ps =
    (case dropWhile (\<lambda>p. \<exists>e. buildPolicy env oob p = Inr e) ps of
       [] \<Rightarrow> Inr (map (\<lambda>p. projr (buildPolicy env oob p)) ps)
     | p # _ \<Rightarrow> Inl (ErrPolicy (pc_Name (pol_Shared p)) (projl (buildPolicy env oob p))))"
proof (induction ps)
  case (Cons p ps)
  show ?case
  proof (cases "buildPolicy env oob p")
    case (Inr e)
    then show ?thesis
      using Cons by (cases "dropWhile (\<lambda>p. \<exists>e. buildPolicy env oob p = Inr e) ps")
        (simp_all del: dropWhile_eq_Nil_conv)
  qed simp
qed simp

text \<open>A compound or unsupported type cannot be a sub-policy: an \<open>and\<close>, \<open>not\<close> or \<open>drop\<close> policy
  whose first sub-policy has such a type is rejected.\<close>

theorem build_rejects_nesting:
  assumes "pc_Type (pol_Shared p) \<in> {And, Not, Drop}"
    and "pc_Type sub \<in> {And, Not, Drop, SpanCountType, RateLimiting, BytesLimiting, Composite}"
    and "pol_Not p = sub" and "pol_And p = sub # as" and "pol_Drop p = sub # ds"
  shows "\<exists>e. Build env oob (p # ps) = Inl e"
  using assms by (auto simp: buildPolicy_def buildAndPolicy_def buildNotPolicy_def buildDropPolicy_def buildShared_def)

theorem build_rejects_nesting_witness:
  "\<exists>e. Build exEnv (\<lambda>_. 0) [exPolicy Not Drop] = Inl e"
  by (rule build_rejects_nesting) (simp_all add: exPolicy_def)


definition exNumeric :: "int \<Rightarrow> Traces" where
  "exNumeric n = [\<lparr>rs_resource = \<lparr>res_attributes = [], res_rest = []\<rparr>, rs_schemaUrl = [],
     rs_scopes = [\<lparr>ss_scope = [], ss_schemaUrl = [], ss_spans = [(exSpan 1 10 20)
       \<lparr>sp_attributes := [(''n'', \<lparr>v_Str = [], v_Int = n, v_Bool = False\<rparr>)]\<rparr>]\<rparr>]\<rparr>]"


text \<open>A sampling percentage of 100 samples every trace with a span in its first scope, as all
  traces out of \<open>groupByTrace\<close> have, and a percentage of 0 samples none, rounding of the threshold
  included.\<close>

theorem percentage_extremes:
  "fst (Evaluate env (NewProbabilisticSampler oob seed 100) (rs\<lparr>rs_scopes := ss\<lparr>ss_spans := x # xs\<rparr> # sss\<rparr> # rss)) =
     (SampledLocal, None) \<and>
   fst (Evaluate env (NewProbabilisticSampler oob seed 0) td) = (NotSampled, None)"
proof -
  have "float64 (100 * float64 percentageScaleFactor) = 16384" "float64 (0 * float64 percentageScaleFactor) = 0"
    by code_simp+
  then have "NewProbabilisticSampler oob seed 100 = (probabilisticSampler numHashBuckets seed :: ('a, 'b, 'c) Evaluator)"
    and "NewProbabilisticSampler oob seed 0 = (probabilisticSampler 0 seed :: ('a, 'b, 'c) Evaluator)"
    unfolding NewProbabilisticSampler_def by (simp_all add: to_uint32_def numHashBuckets_def)
  then show ?thesis by (simp add: probabilistic_def hashTraceID_bucket split: list.split)
qed

end
