(* ===== verification/Coord_Client.thy ===== *)
theory Coord_Client
  imports Prelude
begin

text \<open>
  The coordinator client of the processor (\<open>internal/coordinator/client.go\<close>): \<open>Notify\<close>, \<open>Close\<close>,
  the reconnect loop \<open>run\<close> with its backoff, and \<open>connect\<close> with its sending loop and its receiving
  goroutine. The gRPC stream is the environment: whether a dial, a \<open>Send\<close> or a \<open>Recv\<close> succeeds
  is a choice made in the step. The receiving goroutine of the current stream is \<open>cs_live\<close>; those
  of earlier streams are not joined by \<open>connect\<close>, and \<open>cs_old\<close> counts the ones still alive.

  \<open>cs_queued\<close>, \<open>cs_taken\<close> (with whether the \<open>Send\<close> succeeded) and \<open>cs_handled\<close> record what the
  client did, for the properties.
\<close>

definition second :: duration where "second = 1000000000"

definition sendChCap :: nat where "sendChCap = 256"

datatype cpc = CTop | CDial | CStream | CWait | CDone

record clientState =
  cs_sendCh :: "TraceID list"
  cs_ctxDone :: bool
  cs_backoff :: duration
  cs_pc :: cpc
  cs_recvErr :: bool
  cs_live :: bool
  cs_old :: nat
  cs_taken :: "(TraceID \<times> bool) list"
  cs_queued :: "TraceID list"
  cs_handled :: "TraceID list"

definition client_New :: clientState where
  "client_New = \<lparr>cs_sendCh = [], cs_ctxDone = False, cs_backoff = second, cs_pc = CTop, cs_recvErr = False,
     cs_live = False, cs_old = 0, cs_taken = [], cs_queued = [], cs_handled = []\<rparr>"

text \<open>\<open>Notify\<close>: never blocks; a full queue drops the notification.\<close>

definition Notify :: "TraceID \<Rightarrow> clientState \<Rightarrow> clientState" where
  "Notify tid c = (case try_send sendChCap tid (cs_sendCh c) of
       Some ch \<Rightarrow> c\<lparr>cs_sendCh := ch, cs_queued := cs_queued c @ [tid]\<rparr>
     | None \<Rightarrow> c)"

definition client_Close :: "clientState \<Rightarrow> clientState" where
  "client_Close c = c\<lparr>cs_ctxDone := True\<rparr>"

text \<open>The receiving goroutine: IDs of another length than 16 are skipped.\<close>

definition decisions :: "bytes list \<Rightarrow> TraceID list" where
  "decisions ids = filter (\<lambda>i. length i = 16) ids"

definition recv_batch :: "bytes list \<Rightarrow> clientState \<Rightarrow> clientState" where
  "recv_batch ids c = c\<lparr>cs_handled := cs_handled c @ decisions ids\<rparr>"

text \<open>After the wait the backoff is doubled, as long as it is below 30 seconds.\<close>

definition next_backoff :: "duration \<Rightarrow> duration" where
  "next_backoff b = (if b < 30 * second then b * 2 else b)"

text \<open>Returning from \<open>connect\<close> leaves its receiving goroutine behind.\<close>

definition leave_stream :: "cpc \<Rightarrow> clientState \<Rightarrow> clientState" where
  "leave_stream pc c = c\<lparr>cs_old := (if cs_live c then Suc (cs_old c) else cs_old c), cs_live := False, cs_pc := pc\<rparr>"

datatype clientLabel = LNotify TraceID | LClientClose | LRun | LRecv "bytes list"

inductive client_step :: "clientState \<Rightarrow> clientLabel \<Rightarrow> clientState \<Rightarrow> bool" where
  c_notify: "client_step c (LNotify tid) (Notify tid c)"
| c_close: "client_step c LClientClose (client_Close c)"
| c_top_done: "cs_pc c = CTop \<Longrightarrow> cs_ctxDone c \<Longrightarrow> client_step c LRun (c\<lparr>cs_pc := CDone\<rparr>)"
| c_top: "cs_pc c = CTop \<Longrightarrow> \<not> cs_ctxDone c \<Longrightarrow> client_step c LRun (c\<lparr>cs_pc := CDial\<rparr>)"
| c_dial_failed: "cs_pc c = CDial \<Longrightarrow> client_step c LRun (c\<lparr>cs_pc := CWait\<rparr>)"
| c_dialled: "cs_pc c = CDial \<Longrightarrow>
    client_step c LRun (c\<lparr>cs_pc := CStream, cs_recvErr := False, cs_live := True\<rparr>)"
| c_send: "cs_pc c = CStream \<Longrightarrow> chan_recv (cs_sendCh c) = Some (tid, ch) \<Longrightarrow>
    client_step c LRun (c\<lparr>cs_sendCh := ch, cs_taken := cs_taken c @ [(tid, True)]\<rparr>)"
| c_send_failed: "cs_pc c = CStream \<Longrightarrow> chan_recv (cs_sendCh c) = Some (tid, ch) \<Longrightarrow>
    client_step c LRun (leave_stream CWait (c\<lparr>cs_sendCh := ch, cs_taken := cs_taken c @ [(tid, False)]\<rparr>))"
| c_recv_failed: "cs_pc c = CStream \<Longrightarrow> cs_recvErr c \<Longrightarrow> client_step c LRun (leave_stream CWait c)"
| c_stream_done: "cs_pc c = CStream \<Longrightarrow> cs_ctxDone c \<Longrightarrow>
    client_step c LRun (leave_stream CTop (c\<lparr>cs_backoff := second\<rparr>))"
| c_wait_done: "cs_pc c = CWait \<Longrightarrow> cs_ctxDone c \<Longrightarrow> client_step c LRun (c\<lparr>cs_pc := CDone\<rparr>)"
| c_waited: "cs_pc c = CWait \<Longrightarrow>
    client_step c LRun (c\<lparr>cs_backoff := next_backoff (cs_backoff c), cs_pc := CTop\<rparr>)"
| c_recv: "cs_live c \<or> 0 < cs_old c \<Longrightarrow> client_step c (LRecv ids) (recv_batch ids c)"
| c_recv_error: "cs_live c \<Longrightarrow> client_step c LRun (c\<lparr>cs_live := False, cs_recvErr := True\<rparr>)"
| c_old_error: "0 < cs_old c \<Longrightarrow> client_step c LRun (c\<lparr>cs_old := cs_old c - 1\<rparr>)"

section \<open>The invariant\<close>

text \<open>
  Everything that was queued has been taken out in order or is still queued. The backoff is one
  of six values.
\<close>

definition client_inv :: "clientState \<Rightarrow> bool" where
  "client_inv c \<longleftrightarrow> length (cs_sendCh c) \<le> sendChCap \<and> cs_queued c = map fst (cs_taken c) @ cs_sendCh c \<and>
     cs_backoff c \<in> (\<lambda>k. second * 2 ^ k) ` {..5} \<and>
     (\<forall>t \<in> set (cs_handled c). length t = 16) \<and> (cs_pc c = CDone \<longrightarrow> cs_ctxDone c)"

lemma next_backoff_range:
  assumes "b \<in> (\<lambda>k. second * 2 ^ k) ` {..5}"
  shows "next_backoff b \<in> (\<lambda>k. second * 2 ^ k) ` {..5}"
proof -
  obtain k where k: "b = second * 2 ^ k" "k \<le> 5" using assms by auto
  show ?thesis
  proof (cases "k = 5")
    case True
    then have "next_backoff b = b" using k by (simp add: next_backoff_def second_def)
    then show ?thesis using assms by simp
  next
    case False
    then have "Suc k \<in> {..5}" and e: "b * 2 = second * 2 ^ Suc k" using k by simp_all
    then have "b * 2 \<in> (\<lambda>k. second * 2 ^ k) ` {..5}" by (intro image_eqI)
    then show ?thesis using assms by (simp add: next_backoff_def)
  qed
qed

lemma client_step_inv:
  assumes "client_step c l d" and "client_inv c"
  shows "client_inv d"
  using assms(1)
proof cases
  case (c_notify tid)
  then show ?thesis
    using assms(2) chan.send_within_capacity [of sendChCap tid "cs_sendCh c"]
    by (auto simp: client_inv_def Notify_def split: option.split) (auto simp: try_send_def split: if_splits)
next
  case (c_send tid ch)
  then show ?thesis using assms(2) chan.recv_Some [of "cs_sendCh c" tid ch] by (auto simp: client_inv_def)
next
  case (c_send_failed tid ch)
  then show ?thesis
    using assms(2) chan.recv_Some [of "cs_sendCh c" tid ch] by (auto simp: client_inv_def leave_stream_def)
next
  case c_waited
  then show ?thesis using assms(2) next_backoff_range by (simp add: client_inv_def)
next
  case c_stream_done
  have "second \<in> (\<lambda>k. second * 2 ^ k) ` {..5}" by (rule image_eqI [of _ _ 0]) auto
  then show ?thesis using assms(2) c_stream_done by (simp add: client_inv_def leave_stream_def)
qed (use assms(2) in \<open>auto simp: client_inv_def client_Close_def recv_batch_def decisions_def leave_stream_def\<close>)

lemma client_New_inv: "client_inv client_New"
proof -
  have "second \<in> (\<lambda>k. second * 2 ^ k) ` {..5}" by (rule image_eqI [of _ _ 0]) auto
  then show ?thesis by (simp add: client_inv_def client_New_def)
qed

lemma client_reach_inv: "run client_step client_New ls c \<Longrightarrow> client_inv c"
  using run_invariant [of client_step client_New ls c client_inv] client_New_inv client_step_inv by blast

section \<open>Properties\<close>

text \<open>Notifications go out in order, each at most once: in every reachable state the notifications
  accepted into the queue are exactly those taken out for \<open>Send\<close> so far followed by those still
  queued, and the queue never holds more than 256.\<close>

theorem notify_fifo:
  assumes "run client_step client_New ls c"
  shows "cs_queued c = map fst (cs_taken c) @ cs_sendCh c \<and> length (cs_sendCh c) \<le> 256"
  using client_reach_inv [OF assms] by (simp add: client_inv_def sendChCap_def)

definition exClient :: clientState where
  "exClient = (Notify [7] client_New)\<lparr>cs_pc := CStream, cs_live := True, cs_sendCh := [], cs_taken := [([7], True)]\<rparr>"

lemma exClient_run: "run client_step client_New [LNotify [7], LRun, LRun, LRun] exClient"
proof -
  let ?a = "Notify [7] client_New"
  let ?b = "?a\<lparr>cs_pc := CDial\<rparr>"
  let ?c = "?b\<lparr>cs_pc := CStream, cs_recvErr := False, cs_live := True\<rparr>"
  have a: "client_step client_New (LNotify [7]) ?a" by (rule c_notify)
  have b: "client_step ?a LRun ?b" by (rule c_top) (simp_all add: Notify_def client_New_def try_send_def sendChCap_def)
  have c: "client_step ?b LRun ?c"
    using c_dialled [of ?b] by (simp add: Notify_def client_New_def try_send_def sendChCap_def)
  have d: "client_step ?c LRun exClient"
    using c_send [of ?c "[7]" "[]"]
    by (simp add: exClient_def Notify_def client_New_def try_send_def sendChCap_def chan_recv_def)
  from run_snoc [OF run_snoc [OF run_snoc [OF run_snoc [OF run_nil [of client_step] a] b] c] d] show ?thesis by simp
qed

theorem notify_fifo_witness: "cs_queued exClient = [[7]] @ cs_sendCh exClient"
  using notify_fifo [OF exClient_run] by (simp add: exClient_def)

text \<open>The handler is only called with trace IDs: whatever the coordinator sends, every decision
  handed on has 16 bytes.\<close>

theorem handled_ids_valid:
  assumes "run client_step client_New ls c" and "t \<in> set (cs_handled c)"
  shows "length t = 16"
  using client_reach_inv [OF assms(1)] assms(2) by (simp add: client_inv_def)

theorem handled_ids_valid_witness:
  "replicate 16 1 \<in> set (cs_handled (recv_batch [[1], replicate 16 1] exClient)) \<and> length (replicate 16 (1 :: byte)) = 16"
proof -
  have "client_step exClient (LRecv [[1], replicate 16 1]) (recv_batch [[1], replicate 16 1] exClient)"
    by (rule c_recv) (simp add: exClient_def)
  note r = run_snoc [OF exClient_run this]
  have m: "replicate 16 1 \<in> set (cs_handled (recv_batch [[1], replicate 16 1] exClient))"
    by (simp add: recv_batch_def decisions_def)
  from handled_ids_valid [OF r m] m show ?thesis by blast
qed

text \<open>The wait between two connection attempts is between 1 and 32 seconds.\<close>

theorem backoff_bounds:
  assumes "run client_step client_New ls c"
  shows "second \<le> cs_backoff c \<and> cs_backoff c \<le> 32 * second"
proof -
  obtain k :: nat where k: "k \<le> 5" "cs_backoff c = second * 2 ^ k"
    using client_reach_inv [OF assms] by (auto simp: client_inv_def)
  have "(2 :: int) ^ k \<le> 2 ^ 5" by (rule power_increasing) (use k(1) in auto)
  moreover have "1 \<le> (2 :: int) ^ k" by simp
  ultimately show ?thesis using k(2) by (simp add: second_def)
qed

theorem backoff_bounds_witness: "second \<le> cs_backoff exClient"
  using backoff_bounds [OF exClient_run] by simp

text \<open>C37: A successful connection does not reset the backoff: as long as the client is not closed, no
  step makes the wait shorter, however long a stream has been up in between.\<close>

theorem backoff_never_resets:
  assumes "client_step c l d" and "\<not> cs_ctxDone c" and "0 \<le> cs_backoff c"
  shows "cs_backoff c \<le> cs_backoff d"
  using assms
  by cases (auto simp: Notify_def client_Close_def recv_batch_def next_backoff_def leave_stream_def split: option.split)

theorem backoff_never_resets_witness:
  "cs_backoff (exClient\<lparr>cs_backoff := 32 * second, cs_recvErr := True\<rparr>) \<le>
   cs_backoff (leave_stream CWait (exClient\<lparr>cs_backoff := 32 * second, cs_recvErr := True\<rparr>))"
proof -
  let ?c = "exClient\<lparr>cs_backoff := 32 * second, cs_recvErr := True\<rparr>"
  have "client_step ?c LRun (leave_stream CWait ?c)" by (rule c_recv_failed) (simp_all add: exClient_def)
  from backoff_never_resets [OF this] show ?thesis
    by (simp add: exClient_def Notify_def client_New_def second_def try_send_def split: option.split)
qed

end
