(* ===== verification/Telemetry.thy ===== *)
theory Telemetry
  imports Prelude
begin

text \<open>
  The telemetry of the processor (\<open>internal/metadata/generated_telemetry.go\<close>): the builder with its three
  instruments, the registration of callbacks for the two gauges, and \<open>Shutdown\<close>, which takes them back.

  The metrics SDK is a library. \<open>meterEnv\<close> says which of its calls succeed; \<open>meterState\<close> is what it keeps
  for a meter: the callbacks registered, by handle, and the values recorded in histograms. A collection
  (\<open>collect\<close>) calls every callback, which hands its values to the observer it is given. An instrument is
  its name.
\<close>

section \<open>The meter\<close>

type_synonym observation = "string \<times> int"

record meterEnv =
  me_gauge :: "string \<Rightarrow> bool"
  me_histogram :: "string \<Rightarrow> bool"
  me_register :: "string \<Rightarrow> bool"

record meterState =
  mt_next :: nat
  mt_callbacks :: "(nat \<times> string \<times> (time \<Rightarrow> int list)) list"
  mt_recorded :: "observation list"

definition emptyMeter :: meterState where
  "emptyMeter = \<lparr>mt_next = 0, mt_callbacks = [], mt_recorded = []\<rparr>"

definition Unregister :: "nat \<Rightarrow> meterState \<Rightarrow> meterState" where
  "Unregister h m = m\<lparr>mt_callbacks := filter (\<lambda>(k, _). k \<noteq> h) (mt_callbacks m)\<rparr>"

definition Record :: "string \<Rightarrow> int \<Rightarrow> meterState \<Rightarrow> meterState" where
  "Record inst v m = m\<lparr>mt_recorded := mt_recorded m @ [(inst, v)]\<rparr>"

section \<open>The builder\<close>

record TelemetryBuilder =
  tb_meter :: meterState
  tb_registrations :: "nat list"
  tb_LiveBytes :: string
  tb_OrphanedBytes :: string
  tb_SpanAge :: string

text \<open>\<open>observerInt64.Observe\<close>: the value goes to the observer of the collection, under the gauge.\<close>

definition Observe :: "string \<Rightarrow> int \<Rightarrow> observation list \<Rightarrow> observation list" where
  "Observe inst v os = os @ [(inst, v)]"

definition collect :: "time \<Rightarrow> meterState \<Rightarrow> observation list" where
  "collect t m = fold (\<lambda>(h, inst, cb). fold (Observe inst) (cb t)) (mt_callbacks m) []"

text \<open>\<open>NewTelemetryBuilder\<close>: the options change the zero value; then the meter and the instruments are set, and the
  errors of the three instruments joined.\<close>

definition liveBytes :: string where "liveBytes = ''otelcol_retroactive_sampling_buffer_live_bytes''"
definition orphanedBytes :: string where "orphanedBytes = ''otelcol_retroactive_sampling_buffer_orphaned_bytes''"
definition spanAge :: string where "spanAge = ''otelcol_retroactive_sampling_buffer_span_age_on_eviction''"

definition builderOn :: "meterState \<Rightarrow> TelemetryBuilder" where
  "builderOn m = \<lparr>tb_meter = m, tb_registrations = [], tb_LiveBytes = liveBytes, tb_OrphanedBytes = orphanedBytes,
     tb_SpanAge = spanAge\<rparr>"

type_synonym TelemetryBuilderOption = "TelemetryBuilder \<Rightarrow> TelemetryBuilder"

definition zeroBuilder :: TelemetryBuilder where
  "zeroBuilder = \<lparr>tb_meter = emptyMeter, tb_registrations = [], tb_LiveBytes = [], tb_OrphanedBytes = [], tb_SpanAge = []\<rparr>"

definition NewTelemetryBuilder :: "meterEnv \<Rightarrow> TelemetryBuilderOption list \<Rightarrow> meterState \<Rightarrow> TelemetryBuilder \<times> string list" where
  "NewTelemetryBuilder me options m = ((fold (\<lambda>op. op) options zeroBuilder)
     \<lparr>tb_meter := m, tb_LiveBytes := liveBytes, tb_OrphanedBytes := orphanedBytes, tb_SpanAge := spanAge\<rparr>,
     (if me_gauge me liveBytes then [] else [liveBytes]) @
     (if me_gauge me orphanedBytes then [] else [orphanedBytes]) @
     (if me_histogram me spanAge then [] else [spanAge]))"

lemma NewTelemetryBuilder_plain [simp]: "fst (NewTelemetryBuilder me [] m) = builderOn m"
  by (simp add: NewTelemetryBuilder_def zeroBuilder_def builderOn_def)

text \<open>The two registrations differ in the gauge only; \<open>False\<close> is the error of the SDK.\<close>

definition registerCallback :: "meterEnv \<Rightarrow> string \<Rightarrow> (time \<Rightarrow> int list) \<Rightarrow> TelemetryBuilder \<Rightarrow> bool \<times> TelemetryBuilder" where
  "registerCallback me inst cb b =
     (if \<not> me_register me inst then (False, b)
      else let m = tb_meter b; reg = mt_next m in
        (True, b\<lparr>tb_meter := m\<lparr>mt_next := Suc reg, mt_callbacks := mt_callbacks m @ [(reg, inst, cb)]\<rparr>,
                 tb_registrations := tb_registrations b @ [reg]\<rparr>))"

definition RegisterRetroactiveSamplingBufferLiveBytesCallback ::
    "meterEnv \<Rightarrow> (time \<Rightarrow> int list) \<Rightarrow> TelemetryBuilder \<Rightarrow> bool \<times> TelemetryBuilder" where
  "RegisterRetroactiveSamplingBufferLiveBytesCallback me cb b = registerCallback me (tb_LiveBytes b) cb b"

definition RegisterRetroactiveSamplingBufferOrphanedBytesCallback ::
    "meterEnv \<Rightarrow> (time \<Rightarrow> int list) \<Rightarrow> TelemetryBuilder \<Rightarrow> bool \<times> TelemetryBuilder" where
  "RegisterRetroactiveSamplingBufferOrphanedBytesCallback me cb b = registerCallback me (tb_OrphanedBytes b) cb b"

definition tb_Shutdown :: "TelemetryBuilder \<Rightarrow> TelemetryBuilder" where
  "tb_Shutdown b = b\<lparr>tb_meter := fold Unregister (tb_registrations b) (tb_meter b)\<rparr>"

text \<open>What a component may do with its builder and what others may do with the meter.\<close>

datatype tbLabel = TLive bool | TOrphaned bool | TRecord int | TOther string "time \<Rightarrow> int list"

inductive tb_step :: "meterEnv \<Rightarrow> TelemetryBuilder \<Rightarrow> tbLabel \<Rightarrow> TelemetryBuilder \<Rightarrow> bool" for me :: meterEnv where
  tb_live: "RegisterRetroactiveSamplingBufferLiveBytesCallback me cb b = (ok, b') \<Longrightarrow> tb_step me b (TLive ok) b'"
| tb_orphaned: "RegisterRetroactiveSamplingBufferOrphanedBytesCallback me cb b = (ok, b') \<Longrightarrow> tb_step me b (TOrphaned ok) b'"
| tb_record: "tb_step me b (TRecord v) (b\<lparr>tb_meter := Record (tb_SpanAge b) v (tb_meter b)\<rparr>)"
| tb_other: "tb_step me b (TOther inst cb) (b\<lparr>tb_meter := (tb_meter b)\<lparr>mt_next := Suc (mt_next (tb_meter b)),
      mt_callbacks := mt_callbacks (tb_meter b) @ [(mt_next (tb_meter b), inst, cb)]\<rparr>\<rparr>)"

section \<open>Handles\<close>

lemma collect_concat:
  "collect t m = concat (map (\<lambda>(h, inst, cb). map (Pair inst) (cb t)) (mt_callbacks m))"
proof -
  have obs: "fold (Observe inst) vs os = os @ map (Pair inst) vs" for inst vs os
    by (induction vs arbitrary: os) (simp_all add: Observe_def)
  have "fold (\<lambda>(h, inst, cb). fold (Observe inst) (cb t)) cs os =
      os @ concat (map (\<lambda>(h, inst, cb). map (Pair inst) (cb t)) cs)" for cs :: "(nat \<times> string \<times> (time \<Rightarrow> int list)) list" and os
    by (induction cs arbitrary: os) (auto simp: obs)
  then show ?thesis by (simp add: collect_def)
qed

lemma unregister_all:
  "mt_callbacks (fold Unregister hs m) = filter (\<lambda>(k, _). k \<notin> set hs) (mt_callbacks m)"
proof (induction hs arbitrary: m)
  case (Cons h hs)
  then show ?case by (auto simp: Unregister_def intro: filter_cong)
qed simp

text \<open>The callbacks of the builder are those with its handles; the handles of others are not among them.\<close>

definition handles_ok :: "TelemetryBuilder \<Rightarrow> bool" where
  "handles_ok b \<longleftrightarrow> distinct (map fst (mt_callbacks (tb_meter b))) \<and>
     (\<forall>h \<in> set (tb_registrations b) \<union> fst ` set (mt_callbacks (tb_meter b)). h < mt_next (tb_meter b))"

definition foreign_callbacks :: "TelemetryBuilder \<Rightarrow> (nat \<times> string \<times> (time \<Rightarrow> int list)) list" where
  "foreign_callbacks b = filter (\<lambda>(k, _). k \<notin> set (tb_registrations b)) (mt_callbacks (tb_meter b))"

lemma register_ok:
  assumes "registerCallback me inst cb b = (ok, b')" and "handles_ok b"
  shows "handles_ok b'" and "foreign_callbacks b' = foreign_callbacks b"
    and "mt_recorded (tb_meter b') = mt_recorded (tb_meter b)"
proof -
  have old: "h < mt_next (tb_meter b)" if "h \<in> set (tb_registrations b) \<or> h \<in> fst ` set (mt_callbacks (tb_meter b))" for h
    using assms(2) that by (auto simp: handles_ok_def)
  show "handles_ok b'"
    using assms old less_SucI by (fastforce simp: registerCallback_def handles_ok_def Let_def split: if_splits)
  have "k \<noteq> mt_next (tb_meter b)" if "(k, x) \<in> set (mt_callbacks (tb_meter b))" for k x
    using old [of k] that by force
  then have "filter (\<lambda>(k, _). k \<notin> set (tb_registrations b @ [mt_next (tb_meter b)])) (mt_callbacks (tb_meter b)) =
      foreign_callbacks b"
    unfolding foreign_callbacks_def by (intro filter_cong) auto
  then show "foreign_callbacks b' = foreign_callbacks b"
    using assms(1) by (auto simp: registerCallback_def foreign_callbacks_def Let_def split: if_splits)
  show "mt_recorded (tb_meter b') = mt_recorded (tb_meter b)"
    using assms(1) by (auto simp: registerCallback_def Let_def split: if_splits)
qed

text \<open>The callbacks that others register in a run.\<close>

fun others :: "tbLabel list \<Rightarrow> (string \<times> (time \<Rightarrow> int list)) list" where
  "others [] = []"
| "others (TOther inst cb # ls) = (inst, cb) # others ls"
| "others (_ # ls) = others ls"

lemma others_append [simp]: "others (ls @ ms) = others ls @ others ms"
  by (induction ls rule: others.induct) auto

lemma other_ok:
  assumes "handles_ok b" and "b' = b\<lparr>tb_meter := (tb_meter b)\<lparr>mt_next := Suc (mt_next (tb_meter b)),
      mt_callbacks := mt_callbacks (tb_meter b) @ [(mt_next (tb_meter b), inst, cb)]\<rparr>\<rparr>"
  shows "handles_ok b' \<and> foreign_callbacks b' = foreign_callbacks b @ [(mt_next (tb_meter b), inst, cb)]"
proof -
  have old: "h < mt_next (tb_meter b)" if "h \<in> set (tb_registrations b) \<or> h \<in> fst ` set (mt_callbacks (tb_meter b))" for h
    using assms(1) that by (auto simp: handles_ok_def)
  have "handles_ok b'" using assms old less_SucI by (fastforce simp: handles_ok_def)
  then show ?thesis using old [of "mt_next (tb_meter b)"] by (auto simp: assms(2) foreign_callbacks_def)
qed

lemma tb_run_ok:
  assumes "run (tb_step me) b ls b'" and "handles_ok b"
  shows "handles_ok b' \<and> map snd (foreign_callbacks b') = map snd (foreign_callbacks b) @ others ls"
  using assms
proof (induction rule: run.induct)
  case (run_snoc ls u l t)
  then have u: "handles_ok u" "map snd (foreign_callbacks u) = map snd (foreign_callbacks b) @ others ls" by auto
  have "handles_ok t \<and> map snd (foreign_callbacks t) = map snd (foreign_callbacks u) @ others [l]"
    using run_snoc.hyps(2)
  proof cases
    case (tb_live cb ok)
    then show ?thesis
      using register_ok [OF _ u(1)] by (simp add: RegisterRetroactiveSamplingBufferLiveBytesCallback_def)
  next
    case (tb_orphaned cb ok)
    then show ?thesis
      using register_ok [OF _ u(1)] by (simp add: RegisterRetroactiveSamplingBufferOrphanedBytesCallback_def)
  next
    case (tb_record v)
    then show ?thesis using u(1) by (simp add: handles_ok_def foreign_callbacks_def Record_def)
  next
    case (tb_other inst cb)
    then show ?thesis using other_ok [OF u(1)] by simp
  qed
  with u(2) show ?case by simp
qed simp

section \<open>Shutdown takes everything back\<close>

text \<open>\<open>Shutdown\<close> of the telemetry leaves no callback of the processor behind and takes back no one
  else's: after any registrations, successful or not, by the processor and by others on the same meter,
  the callbacks left are those there before and those of the others, in order, so a collection calls
  nothing of the processor any more.\<close>

theorem telemetry_shutdown_clears:
  assumes "run (tb_step me) (fst (NewTelemetryBuilder me [] m)) ls b"
    and "distinct (map fst (mt_callbacks m))" and "\<forall>h \<in> fst ` set (mt_callbacks m). h < mt_next m"
  shows "map snd (mt_callbacks (tb_meter (tb_Shutdown b))) = map snd (mt_callbacks m) @ others ls \<and>
    collect t (tb_meter (tb_Shutdown b)) =
      concat (map (\<lambda>(inst, cb). map (Pair inst) (cb t)) (map snd (mt_callbacks m) @ others ls))"
proof -
  let ?b = "builderOn m"
  have ok: "handles_ok ?b" and f: "foreign_callbacks ?b = mt_callbacks m"
    using assms(2,3) by (simp_all add: handles_ok_def foreign_callbacks_def builderOn_def)
  have "run (tb_step me) ?b ls b" using assms(1) by simp
  from tb_run_ok [OF this ok] f
  have left: "map snd (mt_callbacks (tb_meter (tb_Shutdown b))) = map snd (mt_callbacks m) @ others ls"
    by (simp add: tb_Shutdown_def unregister_all foreign_callbacks_def)
  have "collect t (tb_meter (tb_Shutdown b)) =
      concat (map (\<lambda>(inst, cb). map (Pair inst) (cb t)) (map snd (mt_callbacks (tb_meter (tb_Shutdown b)))))"
    by (simp add: collect_concat comp_def case_prod_unfold)
  with left show ?thesis by simp
qed

definition exMeter :: meterEnv where
  "exMeter = \<lparr>me_gauge = (\<lambda>_. True), me_histogram = (\<lambda>_. True), me_register = (\<lambda>_. True)\<rparr>"

theorem telemetry_shutdown_clears_witness:
  "\<exists>b. run (tb_step exMeter) (fst (NewTelemetryBuilder exMeter [] emptyMeter)) [TLive True] b \<and>
     collect 5 (tb_meter b) = [(liveBytes, 7)] \<and> collect 5 (tb_meter (tb_Shutdown b)) = []"
proof -
  define b where "b = snd (RegisterRetroactiveSamplingBufferLiveBytesCallback exMeter (\<lambda>_. [7]) (builderOn emptyMeter))"
  let ?st = "tb_step exMeter" and ?b = "fst (NewTelemetryBuilder exMeter [] emptyMeter)"
  have "?st ?b (TLive True) b"
    by (rule tb_live [where cb = "\<lambda>_. [7]"])
      (simp add: b_def RegisterRetroactiveSamplingBufferLiveBytesCallback_def registerCallback_def
        exMeter_def Let_def)
  from run_snoc [OF run_nil [of ?st ?b] this] have r: "run ?st ?b [TLive True] b" unfolding append_Nil .
  have "collect 5 (tb_meter b) = [(liveBytes, 7)]"
    by (simp add: collect_concat b_def RegisterRetroactiveSamplingBufferLiveBytesCallback_def registerCallback_def exMeter_def
        builderOn_def emptyMeter_def Let_def)
  with r telemetry_shutdown_clears [OF r, of 5] show ?thesis by (auto simp: emptyMeter_def)
qed

end
