(* ===== verification/Processor.thy ===== *)
theory Processor
  imports Buffer_Properties Registry Coord_Client Telemetry
begin

text \<open>
  The processor (\<open>processor.go\<close>, \<open>factory.go\<close>): \<open>newProcessor\<close>, \<open>Start\<close>, \<open>Shutdown\<close>,
  \<open>processTraces\<close>, \<open>onMatch\<close> and \<open>onDecision\<close>, on top of the span buffer, the policies and the
  coordinator client.

  The collector may call \<open>processTraces\<close> from several goroutines. A call in progress is a \<open>procCall\<close>
  with a program counter at every access to the buffer, the policies or the client, and
  \<open>call_turn\<close> is its next access; \<open>proc_step\<close> interleaves the calls with the goroutines of the
  buffer and of the client, whose callbacks (\<open>onMatch\<close> from the sweeper, \<open>onDecision\<close> from the
  receiving goroutine) run inside their steps. \<open>processTraces\<close> is one call run on its own.

  Parameters: the protobuf codec of \<open>ptrace\<close> (\<open>pe_Marshal\<close>, \<open>pe_Unmarshal\<close>) and the environment of the
  policies. \<open>p_inputs\<close>, \<open>p_stored\<close>, \<open>p_dropped\<close> and \<open>p_trace\<close> record the batches received, the traces
  written to the buffer, those given up, and the operations on the buffer, for the properties.
\<close>

section \<open>State\<close>

record ('r, 'c, 'q) procEnv =
  pe_eval :: "('r, 'c, 'q) evalEnv"
  pe_Marshal :: "Traces \<Rightarrow> bytes option"
  pe_Unmarshal :: "bytes \<Rightarrow> Traces option"

datatype procLog =
    LogEvalError TraceID evalError
  | LogMarshal TraceID
  | LogNotStored TraceID
  | LogUnmarshal TraceID
  | LogNotSent TraceID

text \<open>Where a call of \<open>processTraces\<close> stands; \<open>PReturned True\<close> is \<open>ErrSkipProcessingData\<close>.\<close>

datatype callPc =
    PNext
  | PEval TraceID Traces
  | PAdd TraceID bool
  | PNotify TraceID
  | PStore TraceID Traces
  | PReturned bool

record procCall =
  k_now :: time
  k_todo :: "(TraceID \<times> Traces) list"
  k_out :: Traces
  k_pc :: callPc

datatype shutPc = ShRunning | ShClient | ShBuffer | ShDone

record ('r, 'c, 'q) procState =
  p_cfg :: bufferCfg
  p_buf :: bufferState
  p_eval :: "('r, 'c, 'q) Evaluator list"
  p_coord :: "clientState option"
  p_calls :: "procCall list"
  p_shut :: shutPc
  p_telemetry :: TelemetryBuilder
  p_log :: "procLog list"
  p_consumed :: "(TraceID \<times> Traces) list"
  p_inputs :: "Traces list"
  p_stored :: "(TraceID \<times> Traces) list"
  p_dropped :: "(TraceID \<times> Traces) list"
  p_trace :: "bufLabel list"

section \<open>Construction\<close>

record 'g Config =
  BufferFile :: string
  MaxBufferBytes :: int
  DecisionWaitTime :: duration
  CoordinatorGRPC :: 'g
  Policies :: "PolicyCfg list"

text \<open>\<open>Config.Validate\<close>: the check of \<open>configgrpc.ClientConfig\<close> (a parameter) and no other.\<close>

definition Config_Validate :: "('g \<Rightarrow> 'x option) \<Rightarrow> 'g Config \<Rightarrow> 'x option" where
  "Config_Validate grpc_Validate cfg = grpc_Validate (CoordinatorGRPC cfg)"

text \<open>\<open>createDefaultConfig\<close>, with the zero value of the gRPC client's configuration.\<close>

definition createDefaultConfig :: "'g \<Rightarrow> 'g Config" where
  "createDefaultConfig grpc0 = \<lparr>BufferFile = [], MaxBufferBytes = 0, DecisionWaitTime = 30 * second,
     CoordinatorGRPC = grpc0, Policies = []\<rparr>"

datatype procError = ErrTelemetry "string list" | ErrBuffer newError | ErrPolicies buildError

definition initProc :: "bufferCfg \<Rightarrow> bufferState \<Rightarrow> ('r, 'c, 'q) Evaluator list \<Rightarrow> ('r, 'c, 'q) procState" where
  "initProc bcfg b es = \<lparr>p_cfg = bcfg, p_buf = b, p_eval = es, p_coord = None, p_calls = [], p_shut = ShRunning,
     p_telemetry = builderOn emptyMeter,
     p_log = [], p_consumed = [], p_inputs = [], p_stored = [], p_dropped = [], p_trace = []\<rparr>"

text \<open>
  \<open>newProcessor\<close>: an error, with the buffer that was opened and closed again if it got that far, or
  the processor. The telemetry that an error shuts down again has no callbacks yet.
\<close>

definition newProcessor :: "('r, 'c, 'q) procEnv \<Rightarrow> (rat \<Rightarrow> 32 word) \<Rightarrow> meterEnv \<Rightarrow> nat \<Rightarrow> (string \<Rightarrow> osAnswers) \<Rightarrow>
    (int \<Rightarrow> byte) \<Rightarrow> time \<Rightarrow> 'g Config \<Rightarrow> (procError \<times> bufferState option) + ('r, 'c, 'q) procState" where
  "newProcessor env oob me pgSize os f0 now cfg =
     (let (tb, errs) = NewTelemetryBuilder me [] emptyMeter in
      if errs \<noteq> [] then Inl (ErrTelemetry errs, None)
      else case New pgSize (os (BufferFile cfg)) f0 now (MaxBufferBytes cfg) (DecisionWaitTime cfg) of
        Inl e \<Rightarrow> Inl (ErrBuffer e, None)
      | Inr (bcfg, b) \<Rightarrow>
          (case Build (pe_eval env) oob (Policies cfg) of
             Inl e \<Rightarrow> Inl (ErrPolicies e, Close b)
           | Inr es \<Rightarrow> Inr ((initProc bcfg b es)\<lparr>p_telemetry := tb\<rparr>)))"

lemma newProcessor_closes:
  assumes "New pgSize (os (BufferFile cfg)) f0 now (MaxBufferBytes cfg) (DecisionWaitTime cfg) = Inr (bcfg, b)"
    and "Build (pe_eval env) oob (Policies cfg) = Inl e" and "snd (NewTelemetryBuilder me [] emptyMeter) = []"
  shows "newProcessor env oob me pgSize os f0 now cfg = Inl (ErrPolicies e, Some (b\<lparr>closeCh := True\<rparr>))"
proof -
  have "Close b = Some (b\<lparr>closeCh := True\<rparr>)"
    using assms(1) by (auto simp: New_def initState_def Close_def Let_def split: if_splits flockResult.splits)
  then show ?thesis using assms by (cases "NewTelemetryBuilder me [] emptyMeter") (simp add: newProcessor_def)
qed

text \<open>\<open>createTracesProcessor\<close>; \<open>newTraces\<close> is \<open>processorhelper.NewTraces\<close>, which is given the processor for its
  callbacks and whether it mutates its input.\<close>

definition createTracesProcessor :: "(('r, 'c, 'q) procState \<Rightarrow> bool \<Rightarrow> procError + 'p) \<Rightarrow> ('r, 'c, 'q) procEnv \<Rightarrow>
    (rat \<Rightarrow> 32 word) \<Rightarrow> meterEnv \<Rightarrow> nat \<Rightarrow> (string \<Rightarrow> osAnswers) \<Rightarrow> (int \<Rightarrow> byte) \<Rightarrow> time \<Rightarrow> 'g Config \<Rightarrow> procError + 'p" where
  "createTracesProcessor newTraces env oob me pgSize os f0 now cfg =
     (case newProcessor env oob me pgSize os f0 now cfg of
        Inl (e, _) \<Rightarrow> Inl e
      | Inr p \<Rightarrow> newTraces p False)"

definition proc_Start :: "('r, 'c, 'q) procState \<Rightarrow> ('r, 'c, 'q) procState" where
  "proc_Start p = p\<lparr>p_coord := Some client_New\<rparr>"

section \<open>Callbacks\<close>

text \<open>\<open>onDecision\<close>, called by the client for every decision it receives.\<close>

definition proc_AddInterest :: "TraceID \<Rightarrow> ('r, 'c, 'q) procState \<Rightarrow> ('r, 'c, 'q) procState" where
  "proc_AddInterest tid p =
     p\<lparr>p_buf := buf_AddInterest (p_cfg p) tid (p_buf p), p_trace := p_trace p @ [LAddInterest tid]\<rparr>"

definition onDecision :: "TraceID \<Rightarrow> ('r, 'c, 'q) procState \<Rightarrow> ('r, 'c, 'q) procState" where
  "onDecision tid p = proc_AddInterest tid p"

text \<open>\<open>onMatch\<close>, called by the sweeper; \<open>ok\<close> says whether the next consumer accepts the trace.\<close>

definition onMatch :: "('r, 'c, 'q) procEnv \<Rightarrow> bool \<Rightarrow> TraceID \<Rightarrow> bytes \<Rightarrow> ('r, 'c, 'q) procState \<Rightarrow>
    ('r, 'c, 'q) procState" where
  "onMatch env ok tid data p =
     (case pe_Unmarshal env data of
        None \<Rightarrow> p\<lparr>p_log := p_log p @ [LogUnmarshal tid]\<rparr>
      | Some t \<Rightarrow> p\<lparr>p_consumed := p_consumed p @ [(tid, t)],
                     p_log := (if ok then p_log p else p_log p @ [LogNotSent tid])\<rparr>)"

text \<open>The callback for evictions records the age in whole seconds: \<open>int64(d.Seconds())\<close>, where \<open>Seconds\<close> adds the
  whole seconds and the rest as \<open>float64\<close>.\<close>

definition age_seconds :: "duration \<Rightarrow> int" where
  "age_seconds d = sgn d * \<lfloor>float64 (of_int (\<bar>d\<bar> div second) + float64 (of_int (\<bar>d\<bar> mod second) / of_int second))\<rfloor>"

definition evictObs :: "duration \<Rightarrow> ('r, 'c, 'q) procState \<Rightarrow> ('r, 'c, 'q) procState" where
  "evictObs d p = p\<lparr>p_telemetry := (p_telemetry p)
     \<lparr>tb_meter := Record (tb_SpanAge (p_telemetry p)) (age_seconds d) (tb_meter (p_telemetry p))\<rparr>\<rparr>"

fun buf_callback :: "('r, 'c, 'q) procEnv \<Rightarrow> bool \<Rightarrow> bufEvent \<Rightarrow> ('r, 'c, 'q) procState \<Rightarrow> ('r, 'c, 'q) procState" where
  "buf_callback env ok (OnMatch tid data) p = onMatch env ok tid data p"
| "buf_callback env ok (EvictObs age) p = evictObs age p"

section \<open>processTraces\<close>

text \<open>The loop is over a Go map: any order of its entries is possible.\<close>

definition enumerates :: "('k \<Rightarrow> 'v option) \<Rightarrow> ('k \<times> 'v) list \<Rightarrow> bool" where
  "enumerates m xs \<longleftrightarrow> distinct (map fst xs) \<and> map_of xs = m"

definition new_call :: "time \<Rightarrow> (TraceID \<times> Traces) list \<Rightarrow> procCall" where
  "new_call now order = \<lparr>k_now = now, k_todo = order, k_out = [], k_pc = PNext\<rparr>"

text \<open>What becomes of a trace after its evaluation.\<close>

definition after_eval :: "TraceID \<Rightarrow> Traces \<Rightarrow> Decision \<Rightarrow> procCall \<Rightarrow> procCall" where
  "after_eval tid spans d k = (case d of
       Sampled \<Rightarrow> k\<lparr>k_out := k_out k @ spans, k_pc := PAdd tid True\<rparr>
     | SampledLocal \<Rightarrow> k\<lparr>k_out := k_out k @ spans, k_pc := PAdd tid False\<rparr>
     | _ \<Rightarrow> k\<lparr>k_pc := PStore tid spans\<rparr>)"

text \<open>Marshalling and \<open>Write\<close>.\<close>

definition store :: "('r, 'c, 'q) procEnv \<Rightarrow> time \<Rightarrow> TraceID \<Rightarrow> Traces \<Rightarrow> ('r, 'c, 'q) procState \<Rightarrow>
    ('r, 'c, 'q) procState" where
  "store env now tid spans p =
     (case pe_Marshal env spans of
        None \<Rightarrow> p\<lparr>p_log := p_log p @ [LogMarshal tid], p_dropped := p_dropped p @ [(tid, spans)]\<rparr>
      | Some data \<Rightarrow>
          let r = \<lparr>wr_traceID = tid, wr_data = data, wr_insertedAt = now\<rparr> in
          (case Write (p_cfg p) r (p_buf p) of
             Some b \<Rightarrow> p\<lparr>p_buf := b, p_trace := p_trace p @ [LWrite r True], p_stored := p_stored p @ [(tid, spans)]\<rparr>
           | None \<Rightarrow> p\<lparr>p_log := p_log p @ [LogNotStored tid], p_trace := p_trace p @ [LWrite r False],
                         p_dropped := p_dropped p @ [(tid, spans)]\<rparr>))"

text \<open>Evaluation of the policies, with the log entry of an error.\<close>

definition evaluate :: "('r, 'c, 'q) procEnv \<Rightarrow> TraceID \<Rightarrow> Traces \<Rightarrow> ('r, 'c, 'q) procState \<Rightarrow>
    Decision \<times> ('r, 'c, 'q) procState" where
  "evaluate env tid spans p =
     (case Chain_Evaluate (Evaluate (pe_eval env)) (p_eval p) spans of ((d, err), es) \<Rightarrow>
        (d, p\<lparr>p_eval := es, p_log := (case err of None \<Rightarrow> p_log p | Some e \<Rightarrow> p_log p @ [LogEvalError tid e])\<rparr>))"

text \<open>The next access of a call, and its effect.\<close>

definition call_turn :: "('r, 'c, 'q) procEnv \<Rightarrow> procCall \<Rightarrow> ('r, 'c, 'q) procState \<Rightarrow>
    procCall \<times> ('r, 'c, 'q) procState" where
  "call_turn env k p = (case k_pc k of
       PNext \<Rightarrow>
         (case k_todo k of
            [] \<Rightarrow> (k\<lparr>k_pc := PReturned (SpanCount (k_out k) = 0)\<rparr>, p)
          | (tid, spans) # rest \<Rightarrow>
              if buf_HasInterest (p_cfg p) tid (p_buf p)
              then (k\<lparr>k_todo := rest, k_out := k_out k @ spans\<rparr>, p)
              else (k\<lparr>k_todo := rest, k_pc := PEval tid spans\<rparr>, p))
     | PEval tid spans \<Rightarrow> (case evaluate env tid spans p of (d, p') \<Rightarrow> (after_eval tid spans d k, p'))
     | PAdd tid notify \<Rightarrow> (k\<lparr>k_pc := (if notify then PNotify tid else PNext)\<rparr>, proc_AddInterest tid p)
     | PNotify tid \<Rightarrow> (k\<lparr>k_pc := PNext\<rparr>, p\<lparr>p_coord := map_option (Notify tid) (p_coord p)\<rparr>)
     | PStore tid spans \<Rightarrow> (k\<lparr>k_pc := PNext\<rparr>, store env (k_now k) tid spans p)
     | PReturned skip \<Rightarrow> (k, p))"

text \<open>One call on its own: the turns until it returns. A trace takes at most four.\<close>

fun turns :: "('r, 'c, 'q) procEnv \<Rightarrow> nat \<Rightarrow> procCall \<Rightarrow> ('r, 'c, 'q) procState \<Rightarrow> procCall \<times> ('r, 'c, 'q) procState" where
  "turns env 0 k p = (k, p)"
| "turns env (Suc n) k p = (case call_turn env k p of (k', p') \<Rightarrow> turns env n k' p')"

text \<open>The body of the loop for one trace, and the whole of \<open>processTraces\<close>, as the code reads.\<close>

definition process_trace :: "('r, 'c, 'q) procEnv \<Rightarrow> time \<Rightarrow> TraceID \<times> Traces \<Rightarrow> Traces \<times> ('r, 'c, 'q) procState \<Rightarrow>
    Traces \<times> ('r, 'c, 'q) procState" where
  "process_trace env now = (\<lambda>(tid, spans) (out, p).
     if buf_HasInterest (p_cfg p) tid (p_buf p) then (out @ spans, p)
     else case evaluate env tid spans p of (d, p1) \<Rightarrow>
       (case d of
          Sampled \<Rightarrow> (out @ spans, (\<lambda>q. q\<lparr>p_coord := map_option (Notify tid) (p_coord q)\<rparr>) (proc_AddInterest tid p1))
        | SampledLocal \<Rightarrow> (out @ spans, proc_AddInterest tid p1)
        | _ \<Rightarrow> (out, store env now tid spans p1)))"

definition processTraces :: "('r, 'c, 'q) procEnv \<Rightarrow> (TraceID \<times> Traces) list \<Rightarrow> ('r, 'c, 'q) procState \<Rightarrow>
    (Traces \<times> bool) \<times> ('r, 'c, 'q) procState" where
  "processTraces env order p =
     (case fold (process_trace env (clock (p_buf p))) order ([], p) of (out, p') \<Rightarrow>
        ((out, SpanCount out = 0), p'))"

section \<open>The processor with its goroutines\<close>

fun env_label :: "bufLabel \<Rightarrow> bool" where
  "env_label (LWrite r ok) = False"
| "env_label (LAddInterest t) = False"
| "env_label LClose = False"
| "env_label _ = True"

text \<open>A step of the buffer's goroutines, with the callbacks it makes.\<close>

definition buf_moved :: "('r, 'c, 'q) procEnv \<Rightarrow> bool \<Rightarrow> bufLabel \<Rightarrow> bufferState \<Rightarrow> ('r, 'c, 'q) procState \<Rightarrow>
    ('r, 'c, 'q) procState" where
  "buf_moved env ok l b p =
     fold (buf_callback env ok) (drop (length (events (p_buf p))) (events b)) (p\<lparr>p_buf := b, p_trace := p_trace p @ [l]\<rparr>)"

datatype procLabel =
    LCall Traces
  | LTurn nat
  | LBuf bufLabel bool
  | LClient
  | LDecisions "bytes list"
  | LStart
  | LShutdown

text \<open>
  The collector starts the processor before it sends traces and shuts it down after the last call
  has returned; \<open>Shutdown\<close> waits for the client's goroutine, then for the buffer's, and then shuts the
  telemetry down.
\<close>

inductive proc_step :: "('r, 'c, 'q) procEnv \<Rightarrow> ('r, 'c, 'q) procState \<Rightarrow> procLabel \<Rightarrow> ('r, 'c, 'q) procState \<Rightarrow> bool"
  for env :: "('r, 'c, 'q) procEnv" where
  pr_call: "p_shut p = ShRunning \<Longrightarrow> enumerates (groupByTrace td) order \<Longrightarrow>
    proc_step env p (LCall td)
      (p\<lparr>p_calls := p_calls p @ [new_call (clock (p_buf p)) order], p_inputs := p_inputs p @ [td]\<rparr>)"
| pr_turn: "i < length (p_calls p) \<Longrightarrow> call_turn env (p_calls p ! i) p = (k, p') \<Longrightarrow>
    proc_step env p (LTurn i) (p'\<lparr>p_calls := (p_calls p')[i := k]\<rparr>)"
| pr_buf: "env_label l \<Longrightarrow> buf_step (p_cfg p) (p_buf p) l b \<Longrightarrow> proc_step env p (LBuf l ok) (buf_moved env ok l b p)"
| pr_start: "p_coord p = None \<Longrightarrow> p_shut p = ShRunning \<Longrightarrow> proc_step env p LStart (proc_Start p)"
| pr_client: "p_coord p = Some c \<Longrightarrow> client_step c LRun d \<Longrightarrow> proc_step env p LClient (p\<lparr>p_coord := Some d\<rparr>)"
| pr_decisions: "p_coord p = Some c \<Longrightarrow> client_step c (LRecv ids) d \<Longrightarrow>
    proc_step env p (LDecisions ids) (fold onDecision (decisions ids) (p\<lparr>p_coord := Some d\<rparr>))"
| pr_shutdown: "p_shut p = ShRunning \<Longrightarrow> (\<forall>k \<in> set (p_calls p). \<exists>skip. k_pc k = PReturned skip) \<Longrightarrow>
    proc_step env p LShutdown (p\<lparr>p_coord := map_option client_Close (p_coord p), p_shut := ShClient\<rparr>)"
| pr_client_done: "p_shut p = ShClient \<Longrightarrow> (\<forall>c. p_coord p = Some c \<longrightarrow> cs_pc c = CDone) \<Longrightarrow>
    buf_step (p_cfg p) (p_buf p) LClose b \<Longrightarrow>
    proc_step env p LShutdown (p\<lparr>p_buf := b, p_trace := p_trace p @ [LClose], p_shut := ShBuffer\<rparr>)"
| pr_buffer_done: "p_shut p = ShBuffer \<Longrightarrow> wpc (p_buf p) = WDone \<Longrightarrow> spc (p_buf p) = SDone \<Longrightarrow>
    proc_step env p LShutdown (p\<lparr>p_telemetry := tb_Shutdown (p_telemetry p), p_shut := ShDone\<rparr>)"

end
