(* ===== verification/Processor_Properties.thy ===== *)
theory Processor_Properties
  imports Processor
begin

text \<open>
  What the processor guarantees, for every interleaving of the calls of \<open>processTraces\<close> with the
  goroutines of the buffer and of the client. The operations on the buffer form a run of \<open>buf_step\<close>
  (\<open>p_trace\<close>), so the guarantees of the buffer carry over; the rest is accounting of spans.
\<close>

section \<open>The run of the buffer inside the processor\<close>

lemma events_grow:
  assumes "buf_step cfg s l t"
  shows "\<exists>evs. events t = events s @ evs"
proof -
  have fr: "events (flush_returned cfg k s) = events s" for k s
    by (simp add: flush_returned_def stage_record_def large_start_def writer_exit_def split: afterFlush.split)
  show ?thesis
    using assms
    by cases (auto simp: Write_def buf_AddInterest_def handle_def enter_flush_def stage_record_def large_start_def
      writer_exit_def flush_closed_def flush_write_def flush_count_def fr write_first_def write_cont_def
      commit_large_def scan_done_def free_pages_def Let_def split: afterFlush.split if_splits)
qed

definition received :: "('r, 'c, 'q) procEnv \<Rightarrow> bufEvent list \<Rightarrow> (TraceID \<times> Traces) list" where
  "received env es = List.map_filter (\<lambda>(t, d). map_option (Pair t) (pe_Unmarshal env d)) (deliveries es)"

lemma deliveries_append [simp]: "deliveries (xs @ ys) = deliveries xs @ deliveries ys"
  by (induction xs rule: deliveries.induct) auto

lemma received_append [simp]: "received env (xs @ ys) = received env xs @ received env ys"
  by (simp add: received_def map_filter_def)

text \<open>The log entries about traces that were not stored.\<close>

fun lost_entry :: "procLog \<Rightarrow> TraceID option" where
  "lost_entry (LogMarshal t) = Some t"
| "lost_entry (LogNotStored t) = Some t"
| "lost_entry _ = None"

definition lost :: "procLog list \<Rightarrow> TraceID list" where
  "lost lg = List.map_filter lost_entry lg"

lemma lost_simps [simp]:
  "lost [] = []" "lost (xs @ ys) = lost xs @ lost ys"
  "lost [LogMarshal t] = [t]" "lost [LogNotStored t] = [t]" "lost [LogEvalError t e] = []"
  "lost [LogUnmarshal t] = []" "lost [LogNotSent t] = []"
  by (simp_all add: lost_def map_filter_def)

text \<open>The ages reported for evictions, and what the histogram has recorded of them.\<close>

fun evictions :: "bufEvent list \<Rightarrow> duration list" where
  "evictions [] = []"
| "evictions (OnMatch t d # es) = evictions es"
| "evictions (EvictObs age # es) = age # evictions es"

lemma evictions_append [simp]: "evictions (xs @ ys) = evictions xs @ evictions ys"
  by (induction xs rule: evictions.induct) auto

definition with_ages :: "duration list \<Rightarrow> TelemetryBuilder \<Rightarrow> TelemetryBuilder" where
  "with_ages ds tb = tb\<lparr>tb_meter := (tb_meter tb)
     \<lparr>mt_recorded := mt_recorded (tb_meter tb) @ map (\<lambda>d. (tb_SpanAge tb, age_seconds d)) ds\<rparr>\<rparr>"

lemma evictObs_ages: "evictObs d p = p\<lparr>p_telemetry := with_ages [d] (p_telemetry p)\<rparr>"
  by (simp add: evictObs_def with_ages_def Record_def)

lemma with_ages_simps [simp]: "with_ages [] tb = tb" "with_ages ds (with_ages [d] tb) = with_ages (d # ds) tb"
  by (simp_all add: with_ages_def)

lemma fold_callback:
  "\<exists>lg. fold (buf_callback env ok) es p = p\<lparr>p_consumed := p_consumed p @ received env es, p_log := lg,
       p_telemetry := with_ages (evictions es) (p_telemetry p)\<rparr> \<and>
     lost lg = lost (p_log p)"
proof (induction es arbitrary: p)
  case Nil
  show ?case by (auto simp: received_def map_filter_def intro: exI [of _ "p_log p"])
next
  case (Cons e es)
  show ?case
  proof (cases e)
    case (EvictObs age)
    then show ?thesis using Cons [of "evictObs age p"] by (simp add: received_def evictObs_ages)
  next
    case (OnMatch t d)
    have "received env (e # es) = (case pe_Unmarshal env d of None \<Rightarrow> [] | Some x \<Rightarrow> [(t, x)]) @ received env es"
      by (simp add: OnMatch received_def map_filter_simps split: option.split)
    then show ?thesis
      using Cons [of "onMatch env ok t d p"] by (auto simp: OnMatch onMatch_def split: option.split)
  qed
qed

lemma fold_onDecision:
  "fold onDecision ids p = p\<lparr>p_buf := p_buf (fold onDecision ids p), p_trace := p_trace p @ map LAddInterest ids\<rparr> \<and>
   events (p_buf (fold onDecision ids p)) = events (p_buf p) \<and>
   (run (buf_step (p_cfg p)) s0 (p_trace p) (p_buf p) \<longrightarrow>
    run (buf_step (p_cfg p)) s0 (p_trace p @ map LAddInterest ids) (p_buf (fold onDecision ids p)))"
proof (induction ids arbitrary: p)
  case Nil
  show ?case by simp
next
  case (Cons t ids)
  have "run (buf_step (p_cfg p)) s0 (p_trace p @ [LAddInterest t]) (buf_AddInterest (p_cfg p) t (p_buf p))"
    if "run (buf_step (p_cfg p)) s0 (p_trace p) (p_buf p)"
    using run_snoc [OF that buf_step.add_interest] .
  then show ?case
    using Cons [of "onDecision t p"] by (simp add: onDecision_def proc_AddInterest_def buf_AddInterest_def)
qed

lemma fold_onDecision_frame:
  "p_eval (fold onDecision ids p) = p_eval p" "p_coord (fold onDecision ids p) = p_coord p"
  "p_calls (fold onDecision ids p) = p_calls p" "p_inputs (fold onDecision ids p) = p_inputs p"
  by (induction ids arbitrary: p) (simp_all add: onDecision_def proc_AddInterest_def)

section \<open>One turn of a call\<close>

lemma call_turn_frame:
  assumes "call_turn env k p = (k', p')"
  shows "p_cfg p' = p_cfg p" "p_calls p' = p_calls p" "p_inputs p' = p_inputs p" "p_consumed p' = p_consumed p"
    "p_shut p' = p_shut p" "events (p_buf p') = events (p_buf p)"
  using assms
  by (auto simp: call_turn_def evaluate_def proc_AddInterest_def buf_AddInterest_def store_def Write_def Let_def
      split: callPc.splits list.splits prod.splits if_splits option.splits)

lemma call_turn_run:
  assumes "call_turn env k p = (k', p')" and "run (buf_step (p_cfg p)) s0 (p_trace p) (p_buf p)"
  shows "run (buf_step (p_cfg p)) s0 (p_trace p') (p_buf p')"
proof (cases "k_pc k")
  case (PAdd tid notify)
  then show ?thesis
    using assms run_snoc [OF assms(2) buf_step.add_interest [of _ _ tid]]
    by (auto simp: call_turn_def proc_AddInterest_def)
next
  case (PStore tid spans)
  then show ?thesis
    using assms run_snoc [OF assms(2) buf_step.write_ok] run_snoc [OF assms(2) buf_step.write_full]
    by (auto simp: call_turn_def store_def Let_def split: option.splits)
qed (use assms in \<open>auto simp: call_turn_def evaluate_def split: list.splits prod.splits if_splits\<close>)

text \<open>The traces a call has still to deal with, and the spans of a list of traces.\<close>

definition k_held :: "procCall \<Rightarrow> (TraceID \<times> Traces) list" where
  "k_held k = k_todo k @ (case k_pc k of PEval t s \<Rightarrow> [(t, s)] | PStore t s \<Rightarrow> [(t, s)] | _ \<Rightarrow> [])"

definition group_spans :: "(TraceID \<times> Traces) list \<Rightarrow> Span multiset" where
  "group_spans xs = mset (concat (map (spans_of \<circ> snd) xs))"

lemma group_spans_simps [simp]:
  "group_spans [] = {#}" "group_spans (x # xs) = mset (spans_of (snd x)) + group_spans xs"
  "group_spans (xs @ ys) = group_spans xs + group_spans ys"
  by (simp_all add: group_spans_def)

definition call_spans :: "procCall \<Rightarrow> Span multiset" where
  "call_spans k = mset (spans_of (k_out k)) + group_spans (k_held k)"

lemma call_turn_spans:
  assumes "call_turn env k p = (k', p')"
  shows "call_spans k' + group_spans (p_stored p') + group_spans (p_dropped p') =
    call_spans k + group_spans (p_stored p) + group_spans (p_dropped p)"
  using assms
  by (auto simp: call_turn_def evaluate_def after_eval_def proc_AddInterest_def store_def Let_def call_spans_def k_held_def
      split: callPc.splits list.splits prod.splits if_splits option.splits Decision.splits)

lemma call_turn_groups:
  assumes "call_turn env k p = (k', p')"
  shows "set (k_held k') \<union> set (p_stored p') \<union> set (p_dropped p') \<subseteq>
    set (k_held k) \<union> set (p_stored p) \<union> set (p_dropped p)"
proof (cases "k_pc k")
  case PNext
  then show ?thesis using assms by (cases "k_todo k") (auto simp: call_turn_def k_held_def split: if_splits)
next
  case (PEval t s)
  obtain d q where e: "evaluate env t s p = (d, q)" by force
  then have "p_stored q = p_stored p" "p_dropped q = p_dropped p" by (auto simp: evaluate_def split: prod.splits)
  moreover have "set (k_held (after_eval t s d k)) \<subseteq> set (k_held k)"
    using PEval by (cases d) (auto simp: after_eval_def k_held_def)
  ultimately show ?thesis using assms PEval e by (auto simp: call_turn_def)
next
  case (PStore t s)
  have "set (p_stored (store env now t s p)) \<union> set (p_dropped (store env now t s p)) \<subseteq>
      {(t, s)} \<union> set (p_stored p) \<union> set (p_dropped p)" for now
    by (simp add: store_def Let_def split: option.split) blast
  then show ?thesis using assms PStore by (fastforce simp: call_turn_def k_held_def)
qed (use assms in \<open>auto simp: call_turn_def k_held_def proc_AddInterest_def split: if_splits\<close>)

text \<open>The traces stored are the accepted writes, in order.\<close>

definition as_written :: "('r, 'c, 'q) procEnv \<Rightarrow> ('r, 'c, 'q) procState \<Rightarrow> bool" where
  "as_written env p \<longleftrightarrow> map (\<lambda>(t, s). (t, pe_Marshal env s)) (p_stored p) =
     map (\<lambda>r. (wr_traceID r, Some (wr_data r))) (accepted (p_trace p))"

lemma call_turn_written:
  assumes "call_turn env k p = (k', p')" and "as_written env p"
  shows "as_written env p'"
  using assms
  by (auto simp: as_written_def call_turn_def evaluate_def proc_AddInterest_def store_def Let_def
      split: callPc.splits list.splits prod.splits if_splits option.splits)

lemma call_turn_lost:
  assumes "call_turn env k p = (k', p')" and "lost (p_log p) = map fst (p_dropped p)"
  shows "lost (p_log p') = map fst (p_dropped p')"
  using assms
  by (auto simp: call_turn_def evaluate_def proc_AddInterest_def store_def Let_def
      split: callPc.splits list.splits prod.splits if_splits option.splits)

text \<open>A call returns when it has dealt with every trace, and says so if it forwards nothing.\<close>

definition call_ok :: "procCall \<Rightarrow> bool" where
  "call_ok k \<longleftrightarrow> (\<forall>skip. k_pc k = PReturned skip \<longrightarrow> k_todo k = [] \<and> skip = (spans_of (k_out k) = []))"

lemma call_turn_ok: "call_turn env k p = (k', p') \<Longrightarrow> call_ok k \<Longrightarrow> call_ok k'"
  by (auto simp: call_turn_def evaluate_def after_eval_def call_ok_def SpanCount_def
      split: callPc.splits list.splits prod.splits if_splits Decision.splits)

lemma sum_list_update_call:
  fixes f :: "'a \<Rightarrow> 'b multiset"
  assumes "i < length xs"
  shows "sum_list (map f (xs[i := y])) + f (xs ! i) = sum_list (map f xs) + f y"
proof -
  have "sum_list (map f xs) = sum_list (map f (take i xs)) + f (xs ! i) + sum_list (map f (drop (Suc i) xs))"
    by (subst id_take_nth_drop [OF assms]) simp
  then show ?thesis by (simp add: upd_conv_take_nth_drop [OF assms])
qed

section \<open>The invariant\<close>

lemma enumerated_spans:
  assumes "enumerates (groupByTrace td) order"
  shows "group_spans order = mset (spans_of td)"
proof -
  have g: "(t, s) \<in> set order \<longleftrightarrow> groupByTrace td t = Some s" for t s
    using assms map_of_eq_Some_iff [of order t s] by (simp add: enumerates_def)
  then have "map (spans_of \<circ> snd) order = map (\<lambda>tid. of_trace tid (spans_of td)) (map fst order)"
    by (auto simp: groupByTrace_project some_if_def spans_project split: if_splits)
  moreover have "sp_traceID ` set (spans_of td) \<subseteq> set (map fst order)"
  proof
    fix t assume "t \<in> sp_traceID ` set (spans_of td)"
    then have "groupByTrace td t \<noteq> None" by (auto simp: groupByTrace_project some_if_def project_Nil_iff)
    then show "t \<in> set (map fst order)" using g by force
  qed
  moreover have "distinct (map fst order)" using assms by (simp add: enumerates_def)
  ultimately show ?thesis unfolding group_spans_def using of_trace_conserves by metis
qed

definition genuine :: "('r, 'c, 'q) procState \<Rightarrow> TraceID \<times> Traces \<Rightarrow> bool" where
  "genuine p x \<longleftrightarrow> (\<exists>td \<in> set (p_inputs p). groupByTrace td (fst x) = Some (snd x))"

definition all_genuine :: "('r, 'c, 'q) procState \<Rightarrow> bool" where
  "all_genuine p \<longleftrightarrow> (\<forall>k \<in> set (p_calls p). \<forall>x \<in> set (k_held k). genuine p x) \<and>
     (\<forall>x \<in> set (p_stored p) \<union> set (p_dropped p). genuine p x)"

definition all_spans :: "('r, 'c, 'q) procState \<Rightarrow> Span multiset" where
  "all_spans p = sum_list (map call_spans (p_calls p)) + group_spans (p_stored p) + group_spans (p_dropped p)"

definition proc_inv :: "('r, 'c, 'q) procEnv \<Rightarrow> bufferCfg \<Rightarrow> bufferState \<Rightarrow> ('r, 'c, 'q) procState \<Rightarrow> bool" where
  "proc_inv env cfg s0 p \<longleftrightarrow> p_cfg p = cfg \<and> run (buf_step cfg) s0 (p_trace p) (p_buf p) \<and>
     p_consumed p = received env (events (p_buf p)) \<and>
     all_spans p = mset (concat (map spans_of (p_inputs p))) \<and> all_genuine p \<and> as_written env p \<and>
     lost (p_log p) = map fst (p_dropped p) \<and> (\<forall>k \<in> set (p_calls p). call_ok k)"

lemma exchange:
  fixes a b c k s d s' d' :: "'a multiset"
  assumes "b + c = a + k" and "k + s' + d' = c + s + d"
  shows "b + s' + d' = a + s + d"
proof -
  have "b + s' + d' + c = a + (k + s' + d')" using assms(1) by (simp add: ac_simps)
  also have "\<dots> = a + s + d + c" unfolding assms(2) by (simp add: ac_simps)
  finally show ?thesis by simp
qed

lemma turn_inv:
  assumes I: "proc_inv env cfg s0 p" and i: "i < length (p_calls p)"
    and turn: "call_turn env (p_calls p ! i) p = (k, p')"
  shows "proc_inv env cfg s0 (p'\<lparr>p_calls := (p_calls p')[i := k]\<rparr>)"
proof -
  note fr = call_turn_frame [OF turn]
  have "p_cfg p = cfg" using I by (simp add: proc_inv_def)
  then have run: "run (buf_step cfg) s0 (p_trace p') (p_buf p')"
    using call_turn_run [OF turn, of s0] I by (simp add: proc_inv_def)
  have spans: "all_spans (p'\<lparr>p_calls := (p_calls p')[i := k]\<rparr>) = all_spans p"
    using exchange [OF sum_list_update_call [OF i, of call_spans k] call_turn_spans [OF turn]]
    by (simp add: all_spans_def fr(2))
  have "all_genuine (p'\<lparr>p_calls := (p_calls p')[i := k]\<rparr>)"
  proof -
    have g: "genuine p x" if "x \<in> set (k_held k') \<union> set (p_stored p) \<union> set (p_dropped p)" "k' \<in> set (p_calls p)" for x k'
      using that I by (auto simp: proc_inv_def all_genuine_def)
    have "genuine p x" if "x \<in> set (k_held k) \<union> set (p_stored p') \<union> set (p_dropped p')" for x
      using g [of x "p_calls p ! i"] that call_turn_groups [OF turn] i by auto
    moreover have "genuine p x" if "x \<in> set (k_held k')" "k' \<in> set (p_calls p)" for x k'
      using g [OF _ that(2)] that(1) by simp
    moreover have "k' = k \<or> k' \<in> set (p_calls p)" if "k' \<in> set ((p_calls p)[i := k])" for k'
      using that set_update_subset_insert [of "p_calls p" i k] by auto
    ultimately show ?thesis unfolding all_genuine_def genuine_def by (simp add: fr(2,3)) blast
  qed
  moreover have "as_written env p'" using call_turn_written [OF turn] I by (simp add: proc_inv_def)
  moreover have "lost (p_log p') = map fst (p_dropped p')" using call_turn_lost [OF turn] I by (simp add: proc_inv_def)
  moreover have "call_ok k" using call_turn_ok [OF turn] I i by (simp add: proc_inv_def)
  then have "\<forall>k' \<in> set ((p_calls p)[i := k]). call_ok k'"
    using I set_update_subset_insert [of "p_calls p" i k] by (auto simp: proc_inv_def)
  ultimately show ?thesis using I run spans fr by (simp add: proc_inv_def as_written_def)
qed

lemma proc_step_inv:
  assumes "proc_step env p l q" and I: "proc_inv env cfg s0 p"
  shows "proc_inv env cfg s0 q"
  using assms(1)
proof cases
  case (pr_call td order)
  have "genuine q x" if "x \<in> set order" for x
    using that pr_call(2,4) map_of_eq_Some_iff [of order "fst x" "snd x"] by (simp add: genuine_def enumerates_def)
  moreover have "genuine q x" if "genuine p x" for x using that pr_call(2) by (auto simp: genuine_def)
  ultimately have "all_genuine q" using I pr_call(2)
    by (auto simp: proc_inv_def all_genuine_def k_held_def new_call_def)
  moreover have "all_spans q = all_spans p + mset (spans_of td)"
    using pr_call enumerated_spans [of td order] by (simp add: all_spans_def call_spans_def k_held_def new_call_def)
  ultimately show ?thesis using I pr_call(2) by (simp add: proc_inv_def as_written_def call_ok_def new_call_def)
next
  case (pr_turn i k p')
  then show ?thesis using turn_inv [OF I] by simp
next
  case (pr_buf l b ok)
  obtain evs where evs: "events b = events (p_buf p) @ evs" using events_grow [OF pr_buf(4)] by blast
  obtain lg where q: "q = p\<lparr>p_buf := b, p_trace := p_trace p @ [l], p_consumed := p_consumed p @ received env evs, p_log := lg,
        p_telemetry := with_ages (evictions evs) (p_telemetry p)\<rparr>"
    and lg: "lost lg = lost (p_log p)"
    using pr_buf(2) fold_callback [of env ok evs "p\<lparr>p_buf := b, p_trace := p_trace p @ [l]\<rparr>"]
    by (auto simp: buf_moved_def evs)
  have "run (buf_step cfg) s0 (p_trace p @ [l]) b" using I pr_buf(4) by (auto simp: proc_inv_def intro: run_snoc)
  moreover have "accepted [l] = []" using pr_buf(3) by (cases l) auto
  ultimately show ?thesis
    using I by (simp add: q lg proc_inv_def as_written_def all_spans_def all_genuine_def genuine_def evs)
next
  case (pr_decisions c ids d)
  define b where "b = p_buf q"
  define ts where "ts = decisions ids"
  have q: "q = p\<lparr>p_coord := Some d, p_buf := b, p_trace := p_trace p @ map LAddInterest ts\<rparr>"
    and ev: "events b = events (p_buf p)" and r: "run (buf_step cfg) s0 (p_trace p @ map LAddInterest ts) b"
    using fold_onDecision [of ts "p\<lparr>p_coord := Some d\<rparr>" s0] I
    unfolding b_def pr_decisions(2) ts_def [symmetric] by (simp_all add: proc_inv_def)
  have "accepted (map LAddInterest ts) = []" by (induction ts) auto
  then show ?thesis
    using I ev r unfolding q by (simp add: proc_inv_def as_written_def all_spans_def all_genuine_def genuine_def)
next
  case (pr_client_done b)
  have "run (buf_step cfg) s0 (p_trace p @ [LClose]) b" using I pr_client_done(5) by (auto simp: proc_inv_def intro: run_snoc)
  moreover have "events b = events (p_buf p)" using pr_client_done(5) by cases simp_all
  ultimately show ?thesis
    using I pr_client_done(2) by (simp add: proc_inv_def as_written_def all_spans_def all_genuine_def genuine_def)
qed (use I in \<open>simp_all add: proc_inv_def as_written_def all_spans_def all_genuine_def genuine_def proc_Start_def\<close>)

lemma init_proc_inv: "proc_inv env cfg s0 (initProc cfg s0 es)" if "events s0 = []"
  using that by (simp add: proc_inv_def initProc_def run_nil received_def map_filter_def all_spans_def all_genuine_def as_written_def)

definition proc_reach :: "('r, 'c, 'q) procEnv \<Rightarrow> bufferCfg \<Rightarrow> ('r, 'c, 'q) Evaluator list \<Rightarrow> procLabel list \<Rightarrow>
    ('r, 'c, 'q) procState \<Rightarrow> bool" where
  "proc_reach env cfg es ls p \<longleftrightarrow> (\<exists>f0 now. run (proc_step env) (initProc cfg (initState cfg f0 now) es) ls p)"

lemma proc_reach_inv:
  assumes "proc_reach env cfg es ls p"
  obtains f0 now where "proc_inv env cfg (initState cfg f0 now) p"
proof -
  obtain f0 now where r: "run (proc_step env) (initProc cfg (initState cfg f0 now) es) ls p"
    using assms by (auto simp: proc_reach_def)
  have "proc_inv env cfg (initState cfg f0 now) p"
    using run_invariant [of "proc_step env" _ ls p "proc_inv env cfg (initState cfg f0 now)", OF r]
      proc_step_inv init_proc_inv [of "initState cfg f0 now"] by (simp add: initState_def) blast
  with that show thesis .
qed

section \<open>What the coordinator is told\<close>

text \<open>
  The policies decided \<open>Sampled\<close> for what a batch contained of the trace, with the caches the
  evaluations before had left.
\<close>

definition deserved :: "('r, 'c, 'q) procEnv \<Rightarrow> ('r, 'c, 'q) Evaluator list \<Rightarrow> ('r, 'c, 'q) procState \<Rightarrow> TraceID \<Rightarrow> bool" where
  "deserved env es p t \<longleftrightarrow> (\<exists>td \<in> set (p_inputs p). \<exists>spans ts. groupByTrace td t = Some spans \<and>
     fst (fst (Chain_Evaluate (Evaluate (pe_eval env)) (evaluate_all (pe_eval env) ts es) spans)) = Sampled)"

definition told_ok :: "('r, 'c, 'q) procEnv \<Rightarrow> ('r, 'c, 'q) Evaluator list \<Rightarrow> ('r, 'c, 'q) procState \<Rightarrow> bool" where
  "told_ok env es p \<longleftrightarrow> (\<exists>ts. p_eval p = evaluate_all (pe_eval env) ts es) \<and>
     (\<forall>c. p_coord p = Some c \<longrightarrow> (\<forall>t \<in> set (cs_queued c). deserved env es p t)) \<and>
     (\<forall>k \<in> set (p_calls p). \<forall>t. k_pc k \<in> {PAdd t True, PNotify t} \<longrightarrow> deserved env es p t)"

lemma client_queued: "client_step c l d \<Longrightarrow> (\<And>t. l \<noteq> LNotify t) \<Longrightarrow> cs_queued d = cs_queued c"
  by (cases rule: client_step.cases, assumption) (auto simp: client_Close_def recv_batch_def leave_stream_def)

lemma deserved_mono: "set (p_inputs p) \<subseteq> set (p_inputs q) \<Longrightarrow> deserved env es p t \<Longrightarrow> deserved env es q t"
  by (auto simp: deserved_def)

lemma evaluate_all_snoc:
  "evaluate_all env (ts @ [t]) es = snd (Chain_Evaluate (Evaluate env) (evaluate_all env ts es) t)"
  by (simp add: evaluate_all_def)

text \<open>A turn queues a trace only after it was decided, and decides by evaluating.\<close>

lemma turn_told:
  assumes turn: "call_turn env k p = (k', p')" and T: "told_ok env es p" and k: "k \<in> set (p_calls p)"
    and g: "\<forall>x \<in> set (k_held k). genuine p x"
  shows "(\<exists>ts. p_eval p' = evaluate_all (pe_eval env) ts es) \<and>
    (\<forall>c. p_coord p' = Some c \<longrightarrow> (\<forall>t \<in> set (cs_queued c). deserved env es p t)) \<and>
    (\<forall>t. k_pc k' \<in> {PAdd t True, PNotify t} \<longrightarrow> deserved env es p t)"
proof (cases "k_pc k")
  case (PEval t s)
  obtain ts where ts: "p_eval p = evaluate_all (pe_eval env) ts es" using T by (auto simp: told_ok_def)
  obtain d err es' where e: "Chain_Evaluate (Evaluate (pe_eval env)) (p_eval p) s = ((d, err), es')"
    by (metis prod.exhaust)
  have p': "p_eval p' = evaluate_all (pe_eval env) (ts @ [s]) es" "p_coord p' = p_coord p"
    and k': "k' = after_eval t s d k"
    using turn PEval e ts by (auto simp: call_turn_def evaluate_def evaluate_all_snoc)
  have "genuine p (t, s)" using g PEval by (simp add: k_held_def)
  then have "deserved env es p t" if "d = Sampled"
    using that e ts unfolding deserved_def genuine_def by (metis fst_conv snd_conv)
  then have "\<forall>u. k_pc k' \<in> {PAdd u True, PNotify u} \<longrightarrow> deserved env es p u"
    using k' by (cases d) (auto simp: after_eval_def)
  then show ?thesis using p' T by (auto simp: told_ok_def)
next
  case (PNotify t)
  have "deserved env es p t" using T k PNotify by (auto simp: told_ok_def)
  moreover have "set (cs_queued (Notify t c)) \<subseteq> insert t (set (cs_queued c))" for c
    by (auto simp: Notify_def split: option.split)
  ultimately have "\<forall>c. p_coord p' = Some c \<longrightarrow> (\<forall>t \<in> set (cs_queued c). deserved env es p t)"
    using turn PNotify T by (fastforce simp: call_turn_def told_ok_def)
  then show ?thesis using turn PNotify T by (auto simp: call_turn_def told_ok_def)
next
  case (PAdd t n)
  then show ?thesis using turn T k by (cases n) (auto simp: call_turn_def told_ok_def proc_AddInterest_def)
next
  case (PStore t s)
  have "p_eval (store env now t s p) = p_eval p" "p_coord (store env now t s p) = p_coord p" for now
    by (simp_all add: store_def Let_def split: option.split)
  then show ?thesis using turn PStore T by (auto simp: call_turn_def told_ok_def)
qed (use turn T in \<open>auto simp: call_turn_def told_ok_def split: list.splits if_splits\<close>)

lemma proc_step_told:
  assumes "proc_step env p l q" and T: "told_ok env es p" and "all_genuine p"
  shows "told_ok env es q"
  using assms(1)
proof cases
  case (pr_turn i k p')
  note fr = call_turn_frame [OF pr_turn(4)]
  have t: "(\<exists>ts. p_eval p' = evaluate_all (pe_eval env) ts es) \<and>
      (\<forall>c. p_coord p' = Some c \<longrightarrow> (\<forall>t \<in> set (cs_queued c). deserved env es p t)) \<and>
      (\<forall>t. k_pc k \<in> {PAdd t True, PNotify t} \<longrightarrow> deserved env es p t)"
    by (rule turn_told [OF pr_turn(4) T]) (use pr_turn(3) assms(3) in \<open>auto simp: all_genuine_def\<close>)
  have d: "deserved env es q u = deserved env es p u" for u using fr pr_turn(2) by (simp add: deserved_def)
  have "deserved env es p u" if "k' \<in> set (p_calls q)" and u: "k_pc k' \<in> {PAdd u True, PNotify u}" for k' u
  proof -
    have "k' = k \<or> k' \<in> set (p_calls p)"
      using that(1) pr_turn(2) fr set_update_subset_insert [of "p_calls p" i k] by auto
    then show ?thesis using t T u unfolding told_ok_def by blast
  qed
  then show ?thesis using t pr_turn(2) unfolding told_ok_def d by simp
next
  case (pr_buf l b ok)
  obtain evs where evs: "events b = events (p_buf p) @ evs" using events_grow [OF pr_buf(4)] by blast
  then have "p_eval q = p_eval p" "p_coord q = p_coord p" "p_calls q = p_calls p" "p_inputs q = p_inputs p"
    using pr_buf(2) fold_callback [of env ok evs "p\<lparr>p_buf := b, p_trace := p_trace p @ [l]\<rparr>"]
    by (auto simp: buf_moved_def)
  then show ?thesis using T by (simp add: told_ok_def deserved_def)
next
  case (pr_client c d)
  then show ?thesis using T client_queued [of c LRun d] by (auto simp: told_ok_def deserved_def)
next
  case (pr_decisions c ids d)
  have "p_eval q = p_eval p" "p_coord q = Some d" "p_calls q = p_calls p" "p_inputs q = p_inputs p"
    by (simp_all add: pr_decisions(2) fold_onDecision_frame)
  then show ?thesis using T client_queued [OF pr_decisions(4)] pr_decisions(3) by (auto simp: told_ok_def deserved_def)
next
  case (pr_call td order)
  have "deserved env es p u \<Longrightarrow> deserved env es q u" for u using pr_call(2) by (intro deserved_mono [of p q]) auto
  then show ?thesis using T pr_call(2) by (auto simp: told_ok_def new_call_def)
qed (use T in \<open>auto simp: told_ok_def deserved_def proc_Start_def client_New_def client_Close_def\<close>)

end
