(* ===== verification/Processor_Guarantees.thy ===== *)
theory Processor_Guarantees
  imports Processor_Properties
begin

text \<open>
  The guarantees of the processor as a whole, each with a concrete run behind it: a batch with one
  span, which a drop policy matches, is received and buffered, the coordinator asks for the trace,
  and the buffer hands it on.
\<close>

section \<open>Deliveries from the buffer\<close>

lemma mset_map_filter_mono:
  assumes "mset xs \<subseteq># mset ys"
  shows "mset (List.map_filter f xs) \<subseteq># mset (List.map_filter f ys)"
proof -
  have "mset (List.map_filter f zs) = image_mset (the \<circ> f) (filter_mset (\<lambda>x. f x \<noteq> None) (mset zs))" for zs
    by (simp add: map_filter_def mset_filter [symmetric] del: mset_filter)
  with assms show ?thesis by (simp add: image_mset_subseteq_mono multiset_filter_mono)
qed

definition codec_ok :: "('r, 'c, 'q) procEnv \<Rightarrow> bool" where
  "codec_ok env \<longleftrightarrow> (\<forall>t d. pe_Marshal env t = Some d \<longrightarrow> pe_Unmarshal env d = Some t)"

lemma written_decodes:
  assumes "codec_ok env" and "map (\<lambda>(t, s). (t, pe_Marshal env s)) xs = map (\<lambda>r. (wr_traceID r, Some (wr_data r))) rs"
  shows "List.map_filter (\<lambda>(t, d). map_option (Pair t) (pe_Unmarshal env d)) (map (\<lambda>r. (wr_traceID r, wr_data r)) rs) = xs"
  using assms(2)
proof (induction xs arbitrary: rs)
  case (Cons x xs)
  then obtain r rs' where rs: "rs = r # rs'" by (cases rs) auto
  obtain t s where x: "x = (t, s)" by force
  have "pe_Unmarshal env (wr_data r) = Some s" "wr_traceID r = t"
    using Cons.prems assms(1) by (auto simp: rs x codec_ok_def)
  then show ?case using Cons by (simp add: rs x map_filter_simps)
qed (simp add: map_filter_simps)

lemma consumed_stored:
  assumes "proc_reach env cfg es ls p" and "cfg_ok cfg" and "\<forall>l \<in> set (p_trace p). sound_label l" and "codec_ok env"
  shows "mset (p_consumed p) \<subseteq># mset (p_stored p)"
proof -
  obtain f0 now where I: "proc_inv env cfg (initState cfg f0 now) p" using assms(1) by (rule proc_reach_inv)
  then have "buf_reach cfg (p_trace p) (p_buf p)" using assms(2,3) by (auto simp: buf_reach_def proc_inv_def)
  then have "mset (deliveries (events (p_buf p))) \<subseteq># mset (map (\<lambda>r. (wr_traceID r, wr_data r)) (accepted (p_trace p)))"
    by (simp add: reach_deliveries)
  then have "mset (received env (events (p_buf p))) \<subseteq># mset (List.map_filter
      (\<lambda>(t, d). map_option (Pair t) (pe_Unmarshal env d)) (map (\<lambda>r. (wr_traceID r, wr_data r)) (accepted (p_trace p))))"
    unfolding received_def by (rule mset_map_filter_mono)
  then show ?thesis
    using written_decodes [OF assms(4), of "p_stored p" "accepted (p_trace p)"] I
    by (simp add: proc_inv_def as_written_def)
qed

section \<open>Calls on their own and under interference\<close>

text \<open>The turns of a call against any sequence of states the other goroutines leave.\<close>

fun turns_in :: "('r, 'c, 'q) procEnv \<Rightarrow> ('r, 'c, 'q) procState list \<Rightarrow> procCall \<Rightarrow> procCall" where
  "turns_in env [] k = k"
| "turns_in env (p # ps) k = turns_in env ps (fst (call_turn env k p))"

fun pc_work :: "callPc \<Rightarrow> nat" where
  "pc_work PNext = 1"
| "pc_work (PEval t s) = 4"
| "pc_work (PAdd t n) = 3"
| "pc_work (PNotify t) = 2"
| "pc_work (PStore t s) = 2"
| "pc_work (PReturned b) = 0"

definition call_work :: "procCall \<Rightarrow> nat" where
  "call_work k = (case k_pc k of PReturned b \<Rightarrow> 0 | pc \<Rightarrow> 4 * length (k_todo k) + pc_work pc)"

lemma turn_works: "call_work (fst (call_turn env k p)) \<le> call_work k - 1"
  by (cases "k_pc k"; cases "k_todo k")
    (auto simp: call_turn_def call_work_def after_eval_def split: prod.split Decision.split callPc.split)

lemma turns_work: "call_work (turns_in env ps k) \<le> call_work k - length ps"
proof (induction ps arbitrary: k)
  case (Cons p ps)
  have "call_work (turns_in env ps (fst (call_turn env k p))) \<le> call_work (fst (call_turn env k p)) - length ps"
    by (rule Cons.IH)
  with turn_works [of env k p] show ?case by simp
qed simp

lemma work_done: "call_work k = 0 \<Longrightarrow> \<exists>skip. k_pc k = PReturned skip"
  by (cases "k_pc k") (auto simp: call_work_def)

lemma turns_add: "turns env (m + n) k p = (case turns env m k p of (k', p') \<Rightarrow> turns env n k' p')"
  by (induction m arbitrary: k p) (auto split: prod.split)

lemma turns_returned: "k_pc k = PReturned b \<Longrightarrow> turns env n k p = (k, p)"
  by (induction n) (auto simp: call_turn_def)

text \<open>The turns for one trace do what the body of the loop does.\<close>

lemma trace_turns:
  assumes "process_trace env now (tid, spans) (out, p) = (out', p')"
  shows "\<exists>n \<le> 4. turns env n \<lparr>k_now = now, k_todo = (tid, spans) # rest, k_out = out, k_pc = PNext\<rparr> p =
    (\<lparr>k_now = now, k_todo = rest, k_out = out', k_pc = PNext\<rparr>, p')"
proof (cases "buf_HasInterest (p_cfg p) tid (p_buf p)")
  case True
  then show ?thesis
    using assms by (intro exI [of _ 1]) (simp add: process_trace_def call_turn_def)
next
  case False
  obtain d p1 where e: "evaluate env tid spans p = (d, p1)" by force
  show ?thesis
  proof (cases d)
    case Sampled
    then show ?thesis
      using assms e False
      by (intro exI [of _ 4]) (simp add: process_trace_def call_turn_def after_eval_def numeral_eq_Suc)
  next
    case SampledLocal
    then show ?thesis
      using assms e False
      by (intro exI [of _ 3]) (simp add: process_trace_def call_turn_def after_eval_def numeral_eq_Suc)
  qed (use assms e False in \<open>(intro exI [of _ 3], simp add: process_trace_def call_turn_def after_eval_def numeral_eq_Suc)+\<close>)
qed

lemma loop_turns:
  assumes "fold (process_trace env now) order (out, p) = (out', p')"
  shows "\<exists>n \<le> 4 * length order. turns env n \<lparr>k_now = now, k_todo = order, k_out = out, k_pc = PNext\<rparr> p =
    (\<lparr>k_now = now, k_todo = [], k_out = out', k_pc = PNext\<rparr>, p')"
  using assms
proof (induction order arbitrary: out p)
  case (Cons x order)
  obtain tid spans where x: "x = (tid, spans)" by force
  obtain o1 p1 where o1: "process_trace env now (tid, spans) (out, p) = (o1, p1)" by force
  from trace_turns [OF this, of order] obtain m where m: "m \<le> 4" "turns env m
      \<lparr>k_now = now, k_todo = (tid, spans) # order, k_out = out, k_pc = PNext\<rparr> p =
      (\<lparr>k_now = now, k_todo = order, k_out = o1, k_pc = PNext\<rparr>, p1)" by blast
  from Cons.IH [of o1 p1] Cons.prems obtain n where n: "n \<le> 4 * length order" "turns env n
      \<lparr>k_now = now, k_todo = order, k_out = o1, k_pc = PNext\<rparr> p1 =
      (\<lparr>k_now = now, k_todo = [], k_out = out', k_pc = PNext\<rparr>, p')"
    by (auto simp: x o1)
  show ?case using m n by (intro exI [of _ "m + n"]) (simp add: x turns_add)
qed (auto intro: exI [of _ 0])

section \<open>The example\<close>

definition exProcSpan :: Span where
  "exProcSpan = (exSpan 1 10 20)\<lparr>sp_traceID := exID\<rparr>"

definition exBatch :: Traces where
  "exBatch = [\<lparr>rs_resource = \<lparr>res_attributes = [], res_rest = []\<rparr>, rs_schemaUrl = [],
     rs_scopes = [\<lparr>ss_scope = [], ss_schemaUrl = [], ss_spans = [exProcSpan]\<rparr>]\<rparr>]"

definition exProcEnv :: "(string, (string \<times> bool) list, unit) procEnv" where
  "exProcEnv = \<lparr>pe_eval = exEnv, pe_Marshal = (\<lambda>t. if t = exBatch then Some [7, 8] else None),
     pe_Unmarshal = (\<lambda>d. if d = [7, 8] then Some exBatch else None)\<rparr>"

text \<open>The processor after the batch was buffered, with the client connected.\<close>

definition exBuffered :: "(string, (string \<times> bool) list, unit) Evaluator list \<Rightarrow>
    (string, (string \<times> bool) list, unit) procState" where
  "exBuffered es = (initProc exCfg (exInit\<lparr>writeCh := [exReq]\<rparr>) es)\<lparr>
     p_coord := Some (client_New\<lparr>cs_pc := CStream, cs_live := True\<rparr>),
     p_calls := [\<lparr>k_now = 5, k_todo = [], k_out = [], k_pc = PReturned True\<rparr>],
     p_inputs := [exBatch], p_stored := [(exID, exBatch)], p_trace := [LWrite exReq True]\<rparr>"

abbreviation exDrop :: "(string, (string \<times> bool) list, unit) Evaluator list" where
  "exDrop \<equiv> [dropPolicy [alwaysSample]]"

abbreviation exSample :: "(string, (string \<times> bool) list, unit) Evaluator list" where
  "exSample \<equiv> [statusCodeFilter [StatusCodeUnset]]"

lemma exProcEnv_codec: "codec_ok exProcEnv"
  by (simp add: codec_ok_def exProcEnv_def)

lemma exBatch_groups: "enumerates (groupByTrace exBatch) [(exID, exBatch)]"
proof -
  have "groupByTrace exBatch t = map_of [(exID, exBatch)] t" for t
    by (simp add: groupByTrace_project some_if_def exBatch_def exProcSpan_def project_one keep_scopes_one)
  then show ?thesis by (auto simp: enumerates_def fun_eq_iff)
qed

lemma exBatch_dropped: "Chain_Evaluate (Evaluate exEnv) exDrop exBatch = ((Dropped, None), exDrop)"
  by simp

text \<open>The first eight steps: start, dial, call, and the four turns of the call.\<close>

lemma ex_no_interest: "\<not> buf_HasInterest exCfg exID exInit"
  by (simp add: buf_HasInterest_def HasInterest_def hasInterestRLocked_def exInit_def initState_def empty_interest_def)

lemma exWrite: "Write exCfg exReq exInit = Some (exInit\<lparr>writeCh := [exReq]\<rparr>)"
  by (simp add: Write_def exCfg_def exReq_def hdrSize_def try_send_def pageCount_def ex_states)

lemma ex_turns:
  assumes "p_cfg p = exCfg" and "p_buf p = exInit" and "p_eval p = exDrop"
  shows "call_turn exProcEnv \<lparr>k_now = 5, k_todo = [(exID, exBatch)], k_out = [], k_pc = PNext\<rparr> p =
      (\<lparr>k_now = 5, k_todo = [], k_out = [], k_pc = PEval exID exBatch\<rparr>, p)" (is ?a)
    and "call_turn exProcEnv \<lparr>k_now = 5, k_todo = [], k_out = [], k_pc = PEval exID exBatch\<rparr> p =
      (\<lparr>k_now = 5, k_todo = [], k_out = [], k_pc = PStore exID exBatch\<rparr>, p)" (is ?b)
    and "call_turn exProcEnv \<lparr>k_now = 5, k_todo = [], k_out = [], k_pc = PStore exID exBatch\<rparr> p =
      (\<lparr>k_now = 5, k_todo = [], k_out = [], k_pc = PNext\<rparr>,
       p\<lparr>p_buf := exInit\<lparr>writeCh := [exReq]\<rparr>, p_trace := p_trace p @ [LWrite exReq True],
         p_stored := p_stored p @ [(exID, exBatch)]\<rparr>)" (is ?c)
    and "call_turn exProcEnv \<lparr>k_now = 5, k_todo = [], k_out = [], k_pc = PNext\<rparr> q =
      (\<lparr>k_now = 5, k_todo = [], k_out = [], k_pc = PReturned True\<rparr>, q)" (is ?d)
proof -
  show ?a using ex_no_interest assms by (simp add: call_turn_def)
  have "p\<lparr>p_eval := exDrop, p_log := p_log p\<rparr> = p" using assms(3) by simp
  then show ?b using exBatch_dropped assms by (simp add: call_turn_def evaluate_def exProcEnv_def after_eval_def)
  show ?c using exWrite assms by (simp add: call_turn_def store_def exProcEnv_def exReq_def Let_def)
  show ?d by (simp add: call_turn_def SpanCount_def)
qed

lemma only_call_turn:
  assumes "p_calls p = [k]" and "call_turn env k p = (k', p')"
  shows "proc_step env p (LTurn 0) (p'\<lparr>p_calls := [k']\<rparr>)"
  using proc_step.pr_turn [of 0 p env k' p'] call_turn_frame(2) [OF assms(2)] assms by simp

lemma ex_buffered_run:
  "run (proc_step exProcEnv) (initProc exCfg exInit exDrop)
     [LStart, LClient, LClient, LCall exBatch, LTurn 0, LTurn 0, LTurn 0, LTurn 0] (exBuffered exDrop)"
proof -
  let ?p = "initProc exCfg exInit exDrop"
  let ?c = "client_New\<lparr>cs_pc := CStream, cs_live := True\<rparr>"
  let ?q = "\<lambda>pc. ?p\<lparr>p_coord := Some ?c, p_calls := [\<lparr>k_now = 5, k_todo = [], k_out = [], k_pc = pc\<rparr>], p_inputs := [exBatch]\<rparr>"
  let ?called = "?p\<lparr>p_coord := Some ?c, p_calls := [new_call 5 [(exID, exBatch)]], p_inputs := [exBatch]\<rparr>"
  have s1: "proc_step exProcEnv ?p LStart (?p\<lparr>p_coord := Some client_New\<rparr>)"
    using proc_step.pr_start [of ?p exProcEnv] by (simp add: initProc_def proc_Start_def)
  have "client_step client_New LRun (client_New\<lparr>cs_pc := CDial\<rparr>)"
    by (rule c_top) (simp_all add: client_New_def)
  then have s2: "proc_step exProcEnv (?p\<lparr>p_coord := Some client_New\<rparr>) LClient (?p\<lparr>p_coord := Some (client_New\<lparr>cs_pc := CDial\<rparr>)\<rparr>)"
    using proc_step.pr_client [of "?p\<lparr>p_coord := Some client_New\<rparr>" client_New _ exProcEnv] by simp
  have "client_step (client_New\<lparr>cs_pc := CDial\<rparr>) LRun ?c"
    using c_dialled [of "client_New\<lparr>cs_pc := CDial\<rparr>"] by (simp add: client_New_def)
  then have s3: "proc_step exProcEnv (?p\<lparr>p_coord := Some (client_New\<lparr>cs_pc := CDial\<rparr>)\<rparr>) LClient (?p\<lparr>p_coord := Some ?c\<rparr>)"
    using proc_step.pr_client [of "?p\<lparr>p_coord := Some (client_New\<lparr>cs_pc := CDial\<rparr>)\<rparr>" "client_New\<lparr>cs_pc := CDial\<rparr>" _ exProcEnv]
    by simp
  have s4: "proc_step exProcEnv (?p\<lparr>p_coord := Some ?c\<rparr>) (LCall exBatch) ?called"
    using proc_step.pr_call [OF _ exBatch_groups, of "?p\<lparr>p_coord := Some ?c\<rparr>" exProcEnv]
    by (simp add: initProc_def exInit_def initState_def)
  have s5: "proc_step exProcEnv ?called (LTurn 0) (?q (PEval exID exBatch))"
    using only_call_turn [OF _ ex_turns(1) [of ?called]] by (simp add: initProc_def new_call_def)
  have s6: "proc_step exProcEnv (?q (PEval exID exBatch)) (LTurn 0) (?q (PStore exID exBatch))"
    using only_call_turn [OF _ ex_turns(2) [of "?q (PEval exID exBatch)"]] by (simp add: initProc_def)
  let ?b = "\<lambda>pc. ?q pc\<lparr>p_buf := exInit\<lparr>writeCh := [exReq]\<rparr>, p_trace := [LWrite exReq True], p_stored := [(exID, exBatch)]\<rparr>"
  have s7: "proc_step exProcEnv (?q (PStore exID exBatch)) (LTurn 0) (?b PNext)"
    using only_call_turn [OF _ ex_turns(3) [of "?q (PStore exID exBatch)"]] by (simp add: initProc_def)
  have "proc_step exProcEnv (?b PNext) (LTurn 0) (?b (PReturned True))"
    using only_call_turn [OF _ ex_turns(4) [of "?q (PStore exID exBatch)" "?b PNext"]] by (simp add: initProc_def)
  moreover have "?b (PReturned True) = exBuffered exDrop" by (simp add: exBuffered_def initProc_def)
  ultimately have s8: "proc_step exProcEnv (?b PNext) (LTurn 0) (exBuffered exDrop)" by simp
  note r = run_snoc [OF run_snoc [OF run_snoc [OF run_snoc [OF run_nil [of "proc_step exProcEnv"] s1] s2] s3] s4]
  note r = run_snoc [OF run_snoc [OF run_snoc [OF run_snoc [OF r s5] s6] s7] s8]
  then show ?thesis by simp
qed

lemma ex_buffered: "\<exists>ls. proc_reach exProcEnv exCfg exDrop ls (exBuffered exDrop)"
  using ex_buffered_run unfolding proc_reach_def exInit_def by blast

text \<open>Then the decision, and the goroutines of the buffer until the trace is handed on.\<close>

lemma lift_buffer:
  assumes "run (buf_step (p_cfg p)) (p_buf p) bl b" and "\<forall>l \<in> set bl. env_label l"
  shows "\<exists>q. run (proc_step env) p (map (\<lambda>l. LBuf l True) bl) q \<and> p_cfg q = p_cfg p \<and> p_buf q = b \<and>
    p_trace q = p_trace p @ bl \<and> p_stored q = p_stored p \<and> p_inputs q = p_inputs p"
  using assms
proof (induction rule: run.induct)
  case run_nil
  then show ?case using run.run_nil [of "proc_step env" p] by auto
next
  case (run_snoc bl b l b')
  then obtain q where q: "run (proc_step env) p (map (\<lambda>l. LBuf l True) bl) q" "p_cfg q = p_cfg p" "p_buf q = b"
    "p_trace q = p_trace p @ bl" "p_stored q = p_stored p" "p_inputs q = p_inputs p" by auto
  have st: "proc_step env q (LBuf l True) (buf_moved env True l b' q)"
    using run_snoc q(2,3) by (intro proc_step.pr_buf) simp_all
  obtain evs where "events b' = events b @ evs" using events_grow [OF run_snoc.hyps(2)] by blast
  then have f: "p_buf (buf_moved env True l b' q) = b'" "p_trace (buf_moved env True l b' q) = p_trace q @ [l]"
    "p_stored (buf_moved env True l b' q) = p_stored q" "p_inputs (buf_moved env True l b' q) = p_inputs q"
    "p_cfg (buf_moved env True l b' q) = p_cfg q"
    using fold_callback [of env True evs "q\<lparr>p_buf := b', p_trace := p_trace q @ [l]\<rparr>"] q(3) by (auto simp: buf_moved_def)
  from run.run_snoc [OF q(1) st] f q show ?case by auto
qed

text \<open>The buffered processor after the decision, and the steps of the buffer from there.\<close>

definition exAsked :: "(string, (string \<times> bool) list, unit) procState" where
  "exAsked = fold onDecision (decisions [exID])
     (exBuffered exDrop\<lparr>p_coord := Some (recv_batch [exID] (client_New\<lparr>cs_pc := CStream, cs_live := True\<rparr>))\<rparr>)"

lemma ex_asked_step: "proc_step exProcEnv (exBuffered exDrop) (LDecisions [exID]) exAsked"
proof -
  let ?c = "client_New\<lparr>cs_pc := CStream, cs_live := True\<rparr>"
  have "client_step ?c (LRecv [exID]) (recv_batch [exID] ?c)" by (rule c_recv) simp
  then show ?thesis unfolding exAsked_def by (intro proc_step.pr_decisions) (simp_all add: exBuffered_def)
qed

lemma ex_sweep_run:
  "run (buf_step exCfg) (exDecided exID) [LWriter, LWriter, LWriter, LWriter, LSweeper, LSweeper, LSweeper, LSweeper] exScanned"
proof -
  note b = run_snoc [OF run_snoc [OF run_snoc [OF run_snoc [OF run_nil [of "buf_step exCfg"] ex_recv] ex_tick] ex_flush] ex_count]
  note b = run_snoc [OF run_snoc [OF run_snoc [OF run_snoc [OF b ex_sweep_read(1)] ex_sweep_read(2)] ex_sweep_process] ex_sweep_scan]
  then show ?thesis by simp
qed

lemma exAsked_simps:
  "p_buf exAsked = exDecided exID" "p_trace exAsked = [LWrite exReq True, LAddInterest exID]"
  "p_stored exAsked = [(exID, exBatch)]" "p_inputs exAsked = [exBatch]" "p_cfg exAsked = exCfg"
  by (simp_all add: exAsked_def decisions_def exID_def onDecision_def proc_AddInterest_def exBuffered_def initProc_def
      buf_AddInterest_def exDecided_def exCfg_def exInit_def initState_def)

lemma ex_delivered_run:
  "\<exists>bl p. run (proc_step exProcEnv) exAsked (map (\<lambda>l. LBuf l True) bl) p \<and> p_buf p = exScanned \<and> p_cfg p = exCfg \<and>
     p_stored p = [(exID, exBatch)] \<and> p_inputs p = [exBatch] \<and> (\<forall>l \<in> set (p_trace p). sound_label l)"
proof -
  let ?bl = "[LWriter, LWriter, LWriter, LWriter, LSweeper, LSweeper, LSweeper, LSweeper]"
  obtain p where p: "run (proc_step exProcEnv) exAsked (map (\<lambda>l. LBuf l True) ?bl) p" "p_buf p = exScanned"
    "p_trace p = p_trace exAsked @ ?bl" "p_stored p = p_stored exAsked" "p_inputs p = p_inputs exAsked" "p_cfg p = p_cfg exAsked"
    using lift_buffer [of exAsked ?bl exScanned exProcEnv] ex_sweep_run by (auto simp: exAsked_simps)
  have "\<forall>l \<in> set (p_trace p). sound_label l"
    using exReq_storable(1) by (simp add: p(3) exAsked_simps sound_label_def)
  then show ?thesis using p by (intro exI [of _ ?bl] exI [of _ p]) (simp add: exAsked_simps)
qed

lemma ex_delivered:
  "\<exists>ls p. proc_reach exProcEnv exCfg exDrop ls p \<and> p_consumed p = [(exID, exBatch)] \<and>
     p_stored p = [(exID, exBatch)] \<and> p_inputs p = [exBatch] \<and> (\<forall>l \<in> set (p_trace p). sound_label l)"
proof -
  obtain bl p where p: "run (proc_step exProcEnv) exAsked (map (\<lambda>l. LBuf l True) bl) p" "p_buf p = exScanned"
    "p_stored p = [(exID, exBatch)]" "p_inputs p = [exBatch]" "\<forall>l \<in> set (p_trace p). sound_label l"
    using ex_delivered_run by blast
  from run_trans [OF run_snoc [OF ex_buffered_run ex_asked_step] p(1)]
  have r: "\<exists>ls. proc_reach exProcEnv exCfg exDrop ls p" unfolding proc_reach_def exInit_def by blast
  then have "p_consumed p = received exProcEnv (events exScanned)"
    using p(2) by (auto simp: proc_inv_def elim: proc_reach_inv)
  then have "p_consumed p = [(exID, exBatch)]"
    by (simp add: exScanned_def received_def exProcEnv_def map_filter_simps)
  with r p show ?thesis by blast
qed

text \<open>The same batch under a policy that samples it.\<close>

lemma turns_run:
  assumes "turns env n k p = (k', p')" and "p_calls p = [k]"
  shows "\<exists>ls. set ls \<subseteq> {LTurn 0} \<and> run (proc_step env) p ls (p'\<lparr>p_calls := [k']\<rparr>)"
  using assms
proof (induction n arbitrary: k' p')
  case 0
  then have "p'\<lparr>p_calls := [k']\<rparr> = p" by auto
  then show ?case using run_nil [of "proc_step env" p] by (intro exI [of _ "[]"]) simp
next
  case (Suc n)
  obtain k1 p1 where t: "turns env n k p = (k1, p1)" by force
  have c: "call_turn env k1 p1 = (k', p')" using Suc.prems(1) turns_add [of env n 1 k p] t by (simp split: prod.splits)
  define q where "q = p1\<lparr>p_calls := [k1]\<rparr>"
  from Suc.IH [OF t Suc.prems(2)] obtain ls where s: "set ls \<subseteq> {LTurn 0}" and ls: "run (proc_step env) p ls q"
    by (auto simp: q_def)
  have "call_turn env k1 q = (k', p'\<lparr>p_calls := [k1]\<rparr>)"
    using c by (auto simp: q_def call_turn_def evaluate_def proc_AddInterest_def store_def Let_def
        split: callPc.splits list.splits prod.splits if_splits option.splits)
  then have "proc_step env q (LTurn 0) (p'\<lparr>p_calls := [k']\<rparr>)"
    using only_call_turn [of q k1 env k' "p'\<lparr>p_calls := [k1]\<rparr>"] by (simp add: q_def)
  from run.run_snoc [OF ls this] s show ?case by (intro exI [of _ "ls @ [LTurn 0]"]) simp
qed

lemma exSample_eval: "Chain_Evaluate (Evaluate exEnv) exSample exBatch = ((Sampled, None), exSample)"
  by (simp add: hasSpanWithCondition_def decide_def exBatch_def exProcSpan_def exSpan_def pure_st_def)

lemma ex_notified_run:
  "\<exists>ls p. (\<forall>ids. LDecisions ids \<notin> set ls) \<and> run (proc_step exProcEnv) (initProc exCfg exInit exSample) ls p \<and>
     p_coord p = Some (Notify exID client_New) \<and> p_inputs p = [exBatch]"
proof -
  let ?p = "initProc exCfg exInit exSample"
  let ?s = "?p\<lparr>p_coord := Some client_New\<rparr>"
  let ?k = "\<lparr>k_now = 5, k_todo = [(exID, exBatch)], k_out = [], k_pc = PNext\<rparr>"
  let ?q = "?s\<lparr>p_calls := [?k], p_inputs := [exBatch]\<rparr>"
  have a: "proc_step exProcEnv ?p LStart ?s"
    using proc_step.pr_start [of ?p exProcEnv] by (simp add: initProc_def proc_Start_def)
  have b: "proc_step exProcEnv ?s (LCall exBatch) ?q"
    using proc_step.pr_call [OF _ exBatch_groups, of ?s exProcEnv]
    by (simp add: initProc_def exInit_def initState_def new_call_def)
  define q where "q = (proc_AddInterest exID ?q)\<lparr>p_coord := Some (Notify exID client_New)\<rparr>"
  have "process_trace exProcEnv 5 (exID, exBatch) ([], ?q) = (exBatch, q)"
    using ex_no_interest exSample_eval
    by (simp add: process_trace_def evaluate_def exProcEnv_def q_def initProc_def proc_AddInterest_def)
  from trace_turns [OF this, of "[]"] obtain n k' where "turns exProcEnv n ?k ?q = (k', q)" by blast
  from turns_run [OF this] obtain ls where s: "set ls \<subseteq> {LTurn 0}"
    and ls: "run (proc_step exProcEnv) ?q ls (q\<lparr>p_calls := [k']\<rparr>)" by auto
  from run_trans [OF run_snoc [OF run_snoc [OF run_nil [of "proc_step exProcEnv"] a] b] ls]
  have "run (proc_step exProcEnv) ?p ([LStart, LCall exBatch] @ ls) (q\<lparr>p_calls := [k']\<rparr>)" by simp
  moreover have "LDecisions ids \<notin> set ([LStart, LCall exBatch] @ ls)" for ids using s by auto
  moreover have "p_coord (q\<lparr>p_calls := [k']\<rparr>) = Some (Notify exID client_New)" "p_inputs (q\<lparr>p_calls := [k']\<rparr>) = [exBatch]"
    by (simp_all add: q_def proc_AddInterest_def)
  ultimately show ?thesis by blast
qed

lemma ex_notified:
  "\<exists>ls p c. proc_reach exProcEnv exCfg exSample ls p \<and> p_coord p = Some c \<and>
     cs_queued c = [exID] \<and> p_inputs p = [exBatch]"
proof -
  have "cs_queued (Notify exID client_New) = [exID]"
    by (simp add: Notify_def try_send_def client_New_def sendChCap_def)
  with ex_notified_run show ?thesis unfolding proc_reach_def exInit_def by blast
qed

section \<open>Properties\<close>

text \<open>C7: No span disappears without a trace. At any moment, in any interleaving and whatever faults
  occur, the spans received so far are exactly, with multiplicity, those in the outputs of the calls
  of \<open>processTraces\<close>, those the calls still hold, those written to the buffer and those given up;
  each trace given up has its log entry, and a call that has returned holds nothing any more and
  has reported \<open>ErrSkipProcessingData\<close> exactly if its output is without spans.\<close>

theorem spans_conserved:
  assumes "proc_reach env cfg es ls p"
  shows "mset (concat (map spans_of (p_inputs p))) =
      sum_list (map (\<lambda>k. mset (spans_of (k_out k)) + group_spans (k_held k)) (p_calls p)) +
      group_spans (p_stored p) + group_spans (p_dropped p) \<and>
    map fst (p_dropped p) = lost (p_log p) \<and>
    (\<forall>k \<in> set (p_calls p). \<forall>skip. k_pc k = PReturned skip \<longrightarrow> k_held k = [] \<and> skip = (spans_of (k_out k) = []))"
proof -
  obtain s0 where I: "proc_inv env cfg s0 p" using assms by (blast elim: proc_reach_inv)
  have "call_spans = (\<lambda>k. mset (spans_of (k_out k)) + group_spans (k_held k))" by (simp add: fun_eq_iff call_spans_def)
  moreover have "k_held k = [] \<and> skip = (spans_of (k_out k) = [])" if "k \<in> set (p_calls p)" "k_pc k = PReturned skip" for k skip
    using I that by (auto simp: proc_inv_def call_ok_def k_held_def)
  ultimately show ?thesis using I by (simp add: proc_inv_def all_spans_def)
qed

theorem spans_conserved_witness:
  "mset (spans_of exBatch) = group_spans (p_stored (exBuffered exDrop)) \<and>
   map fst (p_dropped (exBuffered exDrop)) = lost (p_log (exBuffered exDrop)) \<and>
   k_held (p_calls (exBuffered exDrop) ! 0) = []"
proof -
  obtain ls where "proc_reach exProcEnv exCfg exDrop ls (exBuffered exDrop)" using ex_buffered by blast
  from spans_conserved [OF this] show ?thesis by (simp add: exBuffered_def initProc_def k_held_def)
qed

text \<open>C6: What the buffer hands on is what it was given. As long as no file operation fails and the
  protobuf codec decodes what it encoded, the traces passed to the next consumer by \<open>onMatch\<close> are,
  counted with multiplicity, among those \<open>processTraces\<close> wrote to the buffer; each is the part of
  one received batch that belongs to its trace ID. So a span forwarded directly is not delivered
  again from the buffer, and one from the buffer is delivered at most once.\<close>

theorem processor_delivers_once:
  assumes "proc_reach env cfg es ls p" and "cfg_ok cfg" and "\<forall>l \<in> set (p_trace p). sound_label l"
    and "\<forall>t d. pe_Marshal env t = Some d \<longrightarrow> pe_Unmarshal env d = Some t"
  shows "mset (p_consumed p) \<subseteq># mset (p_stored p) \<and>
    (\<forall>(tid, t) \<in> set (p_consumed p). \<exists>td \<in> set (p_inputs p). t = project tid td)"
proof -
  have sub: "mset (p_consumed p) \<subseteq># mset (p_stored p)"
    using consumed_stored [OF assms(1-3)] assms(4) by (simp add: codec_ok_def)
  obtain s0 where I: "proc_inv env cfg s0 p" using assms(1) by (blast elim: proc_reach_inv)
  have "\<exists>td \<in> set (p_inputs p). t = project tid td" if "(tid, t) \<in> set (p_consumed p)" for tid t
  proof -
    have "(tid, t) \<in> set (p_stored p)" using sub that by (metis mset_subset_eqD set_mset_mset)
    then have "genuine p (tid, t)" using I by (simp add: proc_inv_def all_genuine_def)
    then show ?thesis by (auto simp: genuine_def groupByTrace_project some_if_def split: if_splits)
  qed
  with sub show ?thesis by auto
qed

theorem processor_delivers_once_witness:
  "\<exists>p. p_consumed p = [(exID, exBatch)] \<and> {#(exID, exBatch)#} \<subseteq># mset (p_stored p) \<and>
     (\<exists>td \<in> set (p_inputs (p :: (string, (string \<times> bool) list, unit) procState)). exBatch = project exID td)"
proof -
  obtain ls p where p: "proc_reach exProcEnv exCfg exDrop ls p" "p_consumed p = [(exID, exBatch)]"
    "\<forall>l \<in> set (p_trace p). sound_label l" using ex_delivered by blast
  have "\<forall>t d. pe_Marshal exProcEnv t = Some d \<longrightarrow> pe_Unmarshal exProcEnv d = Some t"
    using exProcEnv_codec by (simp add: codec_ok_def)
  from processor_delivers_once [OF p(1) exCfg_ok p(3) this] p(2) show ?thesis by auto
qed

text \<open>C14: The coordinator is told only of traces the policies decided to sample for everyone: every
  trace ID ever queued by the client belongs to a received batch, and the policies, in the state
  the evaluations before had left their caches in, answered \<open>Sampled\<close>, not \<open>SampledLocal\<close>, for
  what that batch contained of the trace.\<close>

theorem notified_only_sampled:
  assumes "proc_reach env cfg es ls p" and "p_coord p = Some c" and "t \<in> set (cs_queued c)"
  shows "\<exists>td \<in> set (p_inputs p). \<exists>ts. t \<in> sp_traceID ` set (spans_of td) \<and>
    fst (fst (Chain_Evaluate (Evaluate (pe_eval env)) (evaluate_all (pe_eval env) ts es) (project t td))) = Sampled"
proof -
  obtain f0 now where r: "run (proc_step env) (initProc cfg (initState cfg f0 now) es) ls p"
    using assms(1) by (auto simp: proc_reach_def)
  have "told_ok env es p \<and> proc_inv env cfg (initState cfg f0 now) p"
  proof (rule run_invariant [OF r])
    show "told_ok env es (initProc cfg (initState cfg f0 now) es) \<and>
        proc_inv env cfg (initState cfg f0 now) (initProc cfg (initState cfg f0 now) es)"
      using init_proc_inv [of "initState cfg f0 now"]
      by (auto simp: told_ok_def initProc_def initState_def evaluate_all_def intro: exI [of _ "[]"])
  qed (use proc_step_told proc_step_inv proc_inv_def in blast)
  then obtain td spans ts where "td \<in> set (p_inputs p)" "groupByTrace td t = Some spans"
    "fst (fst (Chain_Evaluate (Evaluate (pe_eval env)) (evaluate_all (pe_eval env) ts es) spans)) = Sampled"
    using assms(2,3) by (auto simp: told_ok_def deserved_def)
  moreover from this(2) have "spans = project t td" "t \<in> sp_traceID ` set (spans_of td)"
    by (auto simp: groupByTrace_project some_if_def project_Nil_iff split: if_splits)
  ultimately show ?thesis by blast
qed

theorem notified_only_sampled_witness:
  "\<exists>ts. fst (fst (Chain_Evaluate (Evaluate exEnv) (evaluate_all exEnv ts exSample) (project exID exBatch))) = Sampled"
proof -
  obtain ls p c where "proc_reach exProcEnv exCfg exSample ls p" "p_coord p = Some c" "cs_queued c = [exID]"
    "p_inputs p = [exBatch]" using ex_notified by blast
  with notified_only_sampled [of exProcEnv exCfg exSample ls p c exID] show ?thesis
    by (auto simp: exProcEnv_def)
qed




text \<open>C33: A matching drop policy does not keep a trace from being exported: \<open>processTraces\<close> treats
  \<open>Dropped\<close> like \<open>NotSampled\<close> and buffers the trace, and there is a run, without any fault, in which
  a trace that a drop policy matched is then handed to the next consumer because the coordinator
  asked for it.\<close>

theorem drop_is_not_final:
  "fst (Chain_Evaluate (Evaluate exEnv) exDrop exBatch) = (Dropped, None) \<and>
   (\<exists>ls p. proc_reach exProcEnv exCfg exDrop ls p \<and> p_inputs p = [exBatch] \<and>
      list_all sound_label (p_trace p) \<and> p_consumed p = [(exID, exBatch)])"
  using ex_delivered exBatch_dropped unfolding list_all_iff by (metis fst_conv)

text \<open>C19: A processor that \<open>newProcessor\<close> has returned has a valid buffer and the policies configured,
  and as long as no file operation fails and every trace ID written is a proper one, its buffer
  never overflows and the buffer's writer never panics, whatever the calls, the coordinator and the
  goroutines do.\<close>

theorem processor_safe:
  assumes "newProcessor env oob tel pg os f0 now cfg = Inr p" and "hdrSize \<le> pg"
    and "run (proc_step env) p ls q" and "\<forall>l \<in> set (p_trace q). sound_label l"
  shows "Build (pe_eval env) oob (Policies cfg) = Inr (p_eval p) \<and> decisionWait (p_cfg q) = DecisionWaitTime cfg \<and>
    0 \<le> used (p_buf q) \<and> used (p_buf q) \<le> maxBytes (p_cfg q) \<and> wpc (p_buf q) \<noteq> WPanic"
proof -
  obtain bcfg b es where n: "New pg (os (BufferFile cfg)) f0 now (MaxBufferBytes cfg) (DecisionWaitTime cfg) = Inr (bcfg, b)"
    and es: "Build (pe_eval env) oob (Policies cfg) = Inr es" and p: "p = initProc bcfg b es"
    using assms(1) by (auto simp: newProcessor_def NewTelemetryBuilder_def zeroBuilder_def builderOn_def initProc_def Let_def split: if_splits sum.splits)
  have ok: "cfg_ok bcfg" and b: "b = initState bcfg f0 now" and w: "decisionWait bcfg = DecisionWaitTime cfg"
    using n assms(2) by (auto simp: New_def cfg_ok_def Let_def split: if_splits flockResult.splits)
  have "proc_reach env bcfg es ls q" using assms(3) by (auto simp: proc_reach_def p b)
  then obtain g0 t0 where I: "proc_inv env bcfg (initState bcfg g0 t0) q" by (rule proc_reach_inv)
  then have "buf_reach bcfg (p_trace q) (p_buf q)" using ok assms(4) by (auto simp: buf_reach_def proc_inv_def)
  then obtain slots staged where J: "buf_inv bcfg slots staged (p_buf q)" by (rule reach_inv)
  then have "wpc (p_buf q) \<noteq> WPanic" "0 \<le> used (p_buf q) \<and> used (p_buf q) \<le> maxBytes bcfg"
    using ring_ok_used by (auto simp: buf_inv_def)
  then show ?thesis using I es w by (simp add: p initProc_def proc_inv_def)
qed

definition exConfig :: "unit Config" where
  "exConfig = (createDefaultConfig ())\<lparr>MaxBufferBytes := 70, Policies := [exPolicy Not Latency]\<rparr>"

theorem processor_safe_witness:
  "\<exists>p. newProcessor exProcEnv (\<lambda>_. 0) exMeter 30 (\<lambda>_. \<lparr>open_ok = True, flock_res = FlockOk, truncate_ok = True\<rparr>) (\<lambda>_. 0) 5 exConfig
     = Inr p \<and> decisionWait (p_cfg p) = 30 * second \<and> used (p_buf p) \<le> maxBytes (p_cfg p)"
proof -
  let ?os = "\<lambda>_ :: string. \<lparr>open_ok = True, flock_res = FlockOk, truncate_ok = True\<rparr>"
  obtain p where p: "newProcessor exProcEnv (\<lambda>_. 0) exMeter 30 ?os (\<lambda>_. 0) 5 exConfig = Inr p" "p_trace p = []"
    by (simp add: newProcessor_def exConfig_def createDefaultConfig_def New_def second_def signed_divide_int_def Let_def
        exPolicy_def exShared_def buildPolicy_def buildNotPolicy_def buildShared_def initProc_def NewTelemetryBuilder_def exMeter_def)
  from processor_safe [OF p(1) _ run_nil] p show ?thesis
    by (simp add: hdrSize_def exConfig_def createDefaultConfig_def)
qed


definition exAfter :: "(string, (string \<times> bool) list, unit) procState" where
  "exAfter = (let q = snd (process_trace exProcEnv 5 (exID, exBatch) ([], initProc exCfg exInit exSample))
     in q\<lparr>p_buf := (p_buf q)\<lparr>clock := 9\<rparr>\<rparr>)"


end
