(* ===== verification/Potential.thy ===== *)
theory Potential
  imports Prelude
begin

text \<open>
  How much work a system of goroutines can do. \<open>potential\<close> is the interface of an amortised
  argument: every step that does work is paid by a natural number attached to the state, and only
  labels with a price may raise that number. \<open>drains\<close> adds that some paid step is always possible
  until a goal is reached, so the goal is reached, and not later than the potential says.
\<close>

locale potential =
  fixes stp :: "'s \<Rightarrow> 'l \<Rightarrow> 's \<Rightarrow> bool"
    and inv :: "'s \<Rightarrow> bool"
    and good :: "'l \<Rightarrow> bool"
    and busy :: "'l \<Rightarrow> bool"
    and pot :: "'s \<Rightarrow> nat"
    and price :: "'l \<Rightarrow> nat"
  assumes inv_step: "stp s l t \<Longrightarrow> good l \<Longrightarrow> inv s \<Longrightarrow> inv t"
    and paid: "stp s l t \<Longrightarrow> good l \<Longrightarrow> inv s \<Longrightarrow> pot t + (if busy l then 1 else 0) \<le> pot s + price l"
begin

lemma run_paid:
  assumes "run stp s ls t" and "inv s" and "\<forall>l \<in> set ls. good l"
  shows "inv t \<and> pot t + length (filter busy ls) \<le> pot s + sum_list (map price ls)"
  using assms
proof (induction rule: run.induct)
  case (run_snoc ls u l t)
  then have u: "inv u" "pot u + length (filter busy ls) \<le> pot s + sum_list (map price ls)" and l: "good l"
    by auto
  have "inv t" "pot t + (if busy l then 1 else 0) \<le> pot u + price l"
    using inv_step [OF run_snoc.hyps(2) l u(1)] paid [OF run_snoc.hyps(2) l u(1)] by auto
  then show ?case using u(2) by auto
qed simp

lemma work_bound:
  "run stp s ls t \<Longrightarrow> inv s \<Longrightarrow> \<forall>l \<in> set ls. good l \<Longrightarrow>
    length (filter busy ls) \<le> pot s + sum_list (map price ls)"
  using run_paid [of s ls t] by auto

end

text \<open>
  \<open>phase\<close> is a mode of the system that its free steps do not leave; in it, some free step is
  enabled as long as the goal has not been reached.
\<close>

locale drains = potential +
  fixes phase :: "'s \<Rightarrow> bool" and goal :: "'s \<Rightarrow> bool" and free :: "'l \<Rightarrow> bool"
  assumes free_label: "free l \<Longrightarrow> good l \<and> busy l \<and> price l = 0"
    and phase_step: "stp s l t \<Longrightarrow> free l \<Longrightarrow> inv s \<Longrightarrow> phase s \<Longrightarrow> phase t"
    and enabled: "inv s \<Longrightarrow> phase s \<Longrightarrow> \<not> goal s \<Longrightarrow> \<exists>l t. free l \<and> stp s l t"
begin

lemma free_run:
  assumes "run stp s ls t" and "inv s" and "\<forall>l \<in> set ls. free l"
  shows "pot t + length ls \<le> pot s" and "inv t"
proof -
  have g: "\<forall>l \<in> set ls. good l" "filter busy ls = ls" "sum_list (map price ls) = 0"
    using assms(3) free_label by (auto simp: sum_list_eq_0_iff intro: filter_True)
  show "pot t + length ls \<le> pot s" and "inv t" using run_paid [OF assms(1,2) g(1)] g(2,3) by auto
qed

lemma reaches_goal:
  assumes "inv s" and "phase s"
  shows "\<exists>ls t. run stp s ls t \<and> (\<forall>l \<in> set ls. free l) \<and> goal t"
  using assms
proof (induction "pot s" arbitrary: s rule: less_induct)
  case less
  show ?case
  proof (cases "goal s")
    case True
    then show ?thesis by (intro exI [of _ "[]"] exI [of _ s]) (simp add: run.run_nil)
  next
    case False
    then obtain l u where l: "free l" and st: "stp s l u" using enabled less.prems by blast
    have one: "run stp s [l] u" using run.run_snoc [of stp s "[]" s l u] run.run_nil [of stp s] st by simp
    have "pot u < pot s" and "inv u" using free_run [OF one less.prems(1)] l by auto
    then obtain ls t where "run stp u ls t" "\<forall>l \<in> set ls. free l" "goal t"
      using less.hyps phase_step [OF st l less.prems] by blast
    then show ?thesis using run_trans [OF one] l by (intro exI [of _ "l # ls"] exI [of _ t]) auto
  qed
qed

text \<open>A run of free steps that cannot be continued has reached the goal.\<close>

lemma stuck_at_goal:
  assumes "run stp s ls t" and "inv s" and "phase s" and "\<forall>l \<in> set ls. free l"
    and "\<not> (\<exists>l u. free l \<and> stp t l u)"
  shows "goal t"
proof -
  have "inv t \<and> phase t"
    using assms(1-4)
  proof (induction rule: run.induct)
    case (run_snoc ls u l t)
    then show ?case using inv_step [of u l t] phase_step [of u l t] free_label [of l] by auto
  qed simp
  then show ?thesis using enabled assms(5) by blast
qed

end

end
