(* ===== verification/Buffer_Shutdown.thy ===== *)
theory Buffer_Shutdown
  imports Buffer_Properties Potential
begin

text \<open>
  The goroutines of the span buffer do a bounded amount of work, and \<open>Close\<close> returns. \<open>buf_work\<close>
  is what the writer and the sweeper still have to do: for every request in the channel its
  copying, its pages and the pass of the sweeper they cause, for the wake-up token one pass over a
  page, for a page in the ring one pass that frees it. Every step of a goroutine, except a tick of
  the writer with nothing staged, uses some of it up; only \<open>Write\<close>, \<open>AddInterest\<close> and a timer that
  fires add to it.
\<close>

section \<open>The work left\<close>

text \<open>One pass of the sweeper over a page, and where it stands in it.\<close>

definition pass_work :: "bufferCfg \<Rightarrow> nat" where
  "pass_work cfg = pageSize cfg + 8"

fun spc_work :: "bufferCfg \<Rightarrow> spc \<Rightarrow> nat" where
  "spc_work cfg SCheck = pass_work cfg"
| "spc_work cfg SRead = pageSize cfg + 7"
| "spc_work cfg (SProcess scratch) = pageSize cfg + 6"
| "spc_work cfg (SScan u press pos p) = 4 + (Suc (pageSize cfg) - pos)"
| "spc_work cfg (SWriteback p) = 3"
| "spc_work cfg (SFree n) = 2"
| "spc_work cfg SEmptyWait = 1"
| "spc_work cfg SPageWait = 1"
| "spc_work cfg SDone = 0"

text \<open>A flush of the stage: its own steps, a page to sweep, a token to spend.\<close>

definition flush_work :: "bufferCfg \<Rightarrow> nat" where
  "flush_work cfg = 2 * pass_work cfg + 3"

definition large_work :: "bufferCfg \<Rightarrow> writeReq \<Rightarrow> nat" where
  "large_work cfg r = pass_work cfg * Suc (numChunks (pageSize cfg) (length (wr_data r))) + 1"

definition req_work :: "bufferCfg \<Rightarrow> writeReq \<Rightarrow> nat" where
  "req_work cfg r = (if is_large cfg r then large_work cfg r + length (wr_data r) + 4 else flush_work cfg + 1)"

fun wpc_work :: "bufferCfg \<Rightarrow> nat \<Rightarrow> wpc \<Rightarrow> nat" where
  "wpc_work cfg n WSelect = 1 + (if n > 0 then flush_work cfg else 0)"
| "wpc_work cfg n (WFlush k) = flush_work cfg + sum_list (map (req_work cfg) (after_reqs k))"
| "wpc_work cfg n (WFlushed k) = flush_work cfg - 1 + sum_list (map (req_work cfg) (after_reqs k))"
| "wpc_work cfg n (WLargeWait r) = large_work cfg r + length (wr_data r) + 4 + (if n > 0 then flush_work cfg else 0)"
| "wpc_work cfg n (WLargeFirst r) = large_work cfg r + length (wr_data r) + 3 + (if n > 0 then flush_work cfg else 0)"
| "wpc_work cfg n (WLargeCont r off) =
     large_work cfg r + (length (wr_data r) - off) + 2 + (if n > 0 then flush_work cfg else 0)"
| "wpc_work cfg n (WCommit r) = large_work cfg r + 1 + (if n > 0 then flush_work cfg else 0)"
| "wpc_work cfg n WDone = 0"
| "wpc_work cfg n WPanic = 0"

definition buf_work :: "bufferCfg \<Rightarrow> bufferState \<Rightarrow> nat" where
  "buf_work cfg s =
     sum_list (map (req_work cfg) (writeCh s)) + wpc_work cfg (stageN s) (wpc s) + of_bool (\<not> draining s) +
     pass_work cfg * nat (used s div int (pageSize cfg)) + pass_work cfg * of_bool (wakeup s) +
     of_bool (pageFreed s) + pass_work cfg * of_bool (\<not> closing s) + spc_work cfg (spc s)"

fun label_work :: "bufferCfg \<Rightarrow> bufLabel \<Rightarrow> nat" where
  "label_work cfg (LWrite r ok) = (if ok then req_work cfg r else 0)"
| "label_work cfg (LAddInterest t) = pass_work cfg"
| "label_work cfg LTimer = pass_work cfg"
| "label_work cfg _ = 0"

text \<open>The steps of the buffer without the ticks that find nothing to flush.\<close>

definition work_step :: "bufferCfg \<Rightarrow> bufferState \<Rightarrow> bufLabel \<Rightarrow> bufferState \<Rightarrow> bool" where
  "work_step cfg s l t \<longleftrightarrow> buf_step cfg s l t \<and> (l = LWriter \<longrightarrow> t \<noteq> s)"

text \<open>\<open>Close\<close> waits until both goroutines have called \<open>wg.Done\<close>.\<close>

definition wg_done :: "bufferState \<Rightarrow> bool" where
  "wg_done s \<longleftrightarrow> wpc s = WDone \<and> spc s = SDone"

fun goroutine :: "bufLabel \<Rightarrow> bool" where
  "goroutine LWriter = True"
| "goroutine LSweeper = True"
| "goroutine _ = False"

section \<open>The writer pays for its steps\<close>

lemma work_frame [simp]:
  "buf_work cfg (s\<lparr>clock := c\<rparr>) = buf_work cfg s" "buf_work cfg (s\<lparr>timers := ts\<rparr>) = buf_work cfg s"
  "buf_work cfg (s\<lparr>bfile := g\<rparr>) = buf_work cfg s" "buf_work cfg (s\<lparr>stage := b\<rparr>) = buf_work cfg s"
  "buf_work cfg (s\<lparr>wHead := h\<rparr>) = buf_work cfg s" "buf_work cfg (s\<lparr>closeCh := d\<rparr>) = buf_work cfg s"
  "buf_work cfg (s\<lparr>interest := i\<rparr>) = buf_work cfg s" "buf_work cfg (s\<lparr>events := e\<rparr>) = buf_work cfg s"
  by (simp_all add: buf_work_def)

lemma req_work_small: "hdrSize + length (wr_data r) \<le> pageSize cfg \<Longrightarrow> req_work cfg r = flush_work cfg + 1"
  by (simp add: req_work_def is_large_def)

lemma req_work_large:
  "\<not> hdrSize + length (wr_data r) \<le> pageSize cfg \<Longrightarrow> req_work cfg r = large_work cfg r + length (wr_data r) + 4"
  by (simp add: req_work_def is_large_def)

lemma handle_work:
  assumes "wpc s = WSelect"
  shows "buf_work cfg (handle cfg r s) < buf_work cfg s + req_work cfg r"
  using assms
  by (simp add: handle_def enter_flush_def stage_record_def large_start_def req_work_small req_work_large
      buf_work_def split: if_splits)

text \<open>Counting pages: a page more in the ring is one more pass.\<close>

lemma pages_add:
  assumes "0 < p" and "0 \<le> u"
  shows "nat ((u + int n * int p) div int p) = nat (u div int p) + n"
proof -
  have "(u + int n * int p) div int p = u div int p + int n" using assms(1) by simp
  then show ?thesis using assms by (simp add: nat_add_distrib pos_imp_zdiv_nonneg_iff)
qed

lemma flush_returned_work:
  "after_ok cfg k \<Longrightarrow> buf_work cfg (flush_returned cfg k (s\<lparr>stageN := 0\<rparr>)) + wpc_work cfg (stageN s) (wpc s) \<le>
     buf_work cfg s + 1 + sum_list (map (req_work cfg) (after_reqs k))"
  by (cases k)
    (auto simp: flush_returned_def stage_record_def large_start_def writer_exit_def buf_work_def req_work_def)

lemma flush_count_work:
  assumes "0 < pageSize cfg" and "0 \<le> used s" and "wpc s = WFlushed k" and "after_ok cfg k"
  shows "buf_work cfg (flush_count cfg k s) < buf_work cfg s"
proof -
  define s' where "s' = s\<lparr>used := used s + int (pageSize cfg), wakeup := True\<rparr>"
  have "s\<lparr>used := used s + int (pageSize cfg), stageN := 0, wakeup := True\<rparr> = s'\<lparr>stageN := 0\<rparr>"
    by (simp add: s'_def)
  then have "flush_count cfg k s = flush_returned cfg k (s'\<lparr>stageN := 0\<rparr>)" by (simp only: flush_count_def)
  moreover have "buf_work cfg s' \<le> buf_work cfg s + 2 * pass_work cfg"
    using pages_add [OF assms(1,2), of 1] by (simp add: s'_def buf_work_def)
  ultimately show ?thesis
    using flush_returned_work [OF assms(4), of s'] assms(3) by (simp add: s'_def flush_work_def)
qed

lemma commit_work:
  assumes "0 < pageSize cfg" and "0 \<le> used s" and "wpc s = WCommit r"
  shows "buf_work cfg (commit_large cfg r s) < buf_work cfg s"
  using assms pages_add [OF assms(1,2), of "numChunks (pageSize cfg) (length (wr_data r))"]
  by (simp add: buf_work_def commit_large_def large_work_def chunkBytes_def algebra_simps)

lemma writer_work:
  assumes st: "buf_step cfg s LWriter t" and p: "0 < pageSize cfg" and u: "0 \<le> used s"
    and len: "length (stage s) = pageSize cfg" and ok: "wpc_ok cfg staged (stage s) (wpc s)"
  shows "buf_work cfg t < buf_work cfg s \<or> t = s \<and> wpc s = WSelect \<and> \<not> draining s"
  using st
proof cases
  case (w_recv r ch)
  then have "writeCh s = r # ch" by (auto simp: chan_recv_def split: list.splits)
  then have "buf_work cfg s = buf_work cfg (s\<lparr>writeCh := ch\<rparr>) + req_work cfg r" by (simp add: buf_work_def)
  then show ?thesis using handle_work [of "s\<lparr>writeCh := ch\<rparr>" cfg r] w_recv by simp
next
  case w_tick
  then show ?thesis by (cases "stageN s > 0") (auto simp: enter_flush_def buf_work_def)
next
  case w_drained
  then show ?thesis by (auto simp: enter_flush_def writer_exit_def buf_work_def)
next
  case (w_flush_closed k)
  then show ?thesis by (cases k) (auto simp: flush_closed_def writer_exit_def flush_work_def buf_work_def)
next
  case (w_flush_count k)
  then show ?thesis using flush_count_work [OF p u] ok by simp
next
  case (w_commit r)
  then show ?thesis using commit_work [OF p u] by simp
next
  case (w_cont r off)
  then show ?thesis using p len by (auto simp: write_cont_def Let_def buf_work_def)
qed (auto simp: flush_write_def write_first_def Let_def flush_work_def buf_work_def)

section \<open>The sweeper pays for its steps\<close>

text \<open>Once the sweeper knows that the writer has returned, it keeps no record waiting.\<close>

definition closing_ok :: "bufferState \<Rightarrow> bool" where
  "closing_ok s \<longleftrightarrow> closing s \<longrightarrow> (case spc s of
       SEmptyWait \<Rightarrow> False
     | SPageWait \<Rightarrow> False
     | SScan u press pos p \<Rightarrow> press \<and> ps_fullyConsumed p
     | SWriteback p \<Rightarrow> ps_fullyConsumed p
     | _ \<Rightarrow> True)"

lemma sweeper_closing_ok:
  assumes st: "buf_step cfg s LSweeper t" and cfg: "cfg_ok cfg" and I: "buf_inv cfg slots staged s"
    and ok: "closing_ok s"
  shows "closing_ok t"
  using st
proof cases
  case (s_scan u press pos p nxt p' evs)
  have "closing s \<longrightarrow> press \<and> ps_fullyConsumed p" using ok s_scan(2) by (simp add: closing_ok_def)
  moreover have "resolve cfg press (interest s) (clock s) r = None \<Longrightarrow> \<not> press" for r
    by (auto simp: resolve_def split: if_splits)
  ultimately have "closing s \<longrightarrow> press \<and> ps_fullyConsumed p'"
    using scan_inv(2) [OF cfg I s_scan(2-4)] by auto
  then show ?thesis using s_scan(1) by (cases nxt) (auto simp: closing_ok_def)
qed (use ok in \<open>auto simp: closing_ok_def startScan_def pressure_def scan_done_def free_pages_def\<close>)

lemma writer_closing_ok:
  assumes "buf_step cfg s LWriter t" and "closing_ok s"
  shows "closing_ok t"
  using writer_wakes [OF assms(1)] assms(2) by (simp add: closing_ok_def)

lemma caller_closing_ok:
  assumes st: "buf_step cfg s l t" and "\<not> goroutine l" and "sound_label l" and "closing_ok s"
  shows "closing_ok t"
  using st assms(2-4)
  by cases (auto simp: closing_ok_def sound_label_def Write_def buf_AddInterest_def split: if_splits)

lemma sweeper_work:
  assumes st: "buf_step cfg s LSweeper t" and cfg: "cfg_ok cfg" and I: "buf_inv cfg slots staged s"
    and ok: "closing_ok s"
  shows "buf_work cfg t < buf_work cfg s"
  using st
proof cases
  case (s_scan u press pos p nxt p' evs)
  have "pos' \<ge> pos + hdrSize" if "nxt = Some pos'" for pos'
    using scan_record_advances s_scan(4) that by blast
  then show ?thesis
    using s_scan(1-3) by (cases nxt) (auto simp: buf_work_def hdrSize_def)
next
  case (s_writer_done)
  then have "\<not> closing s" using ok by (auto simp: closing_ok_def)
  then show ?thesis using s_writer_done by (auto simp: buf_work_def pass_work_def)
next
  case (s_writeback p)
  then show ?thesis by (simp add: scan_done_def Let_def) (simp add: buf_work_def)
next
  case (s_free n)
  then obtain sl rest where sl: "slots = sl # rest" and n: "n = slot_pages (pageSize cfg) sl"
    using I by (auto simp: buf_inv_def)
  have ring: "ring_inv cfg slots s (head_view (spc s))" using I by (simp add: buf_inv_split)
  have p: "0 < pageSize cfg" using cfg_ok_pos [OF cfg] by simp
  have "int n * int (pageSize cfg) \<le> used s" and n0: "0 < n"
    using nonempty_used(2) [OF cfg ring [unfolded ring_inv_def] sl] slot_pages_pos [OF p] ring sl n
    by (auto simp: ring_inv_def ring_ok_def)
  then have "nat (used s div int (pageSize cfg)) =
      nat ((used s - int n * int (pageSize cfg)) div int (pageSize cfg)) + n"
    using pages_add [OF p, of "used s - int n * int (pageSize cfg)" n] by simp
  moreover have "pass_work cfg \<le> pass_work cfg * n" using n0 by simp
  ultimately show ?thesis
    using s_free by (simp add: free_pages_def buf_work_def pass_work_def algebra_simps)
qed (auto simp: buf_work_def pass_work_def startScan_def)

section \<open>The buffer drains\<close>

text \<open>The sweeper returns only when the writer has returned and the ring is empty.\<close>

definition exit_ok :: "bufferState \<Rightarrow> bool" where
  "exit_ok s \<longleftrightarrow> (closing s \<longrightarrow> wpc s = WDone) \<and> (writerDone s \<longrightarrow> wpc s = WDone) \<and>
     (spc s = SDone \<longrightarrow> closing s \<and> used s = 0)"

lemma exit_ok_step:
  assumes st: "buf_step cfg s l t" and ok: "exit_ok s"
  shows "exit_ok t"
proof (cases "l \<in> {LWriter, LWriterFault}")
  case True
  then show ?thesis using writer_done_frame [OF st True] ok by (auto simp: exit_ok_def)
next
  case False
  from st show ?thesis
    by cases (use ok False in \<open>auto simp: exit_ok_def Write_def buf_AddInterest_def scan_done_def free_pages_def Let_def
        split: option.splits if_splits\<close>)
qed

definition buf_good :: "bufferCfg \<Rightarrow> bufferState \<Rightarrow> bool" where
  "buf_good cfg s \<longleftrightarrow> (\<exists>a. buf_rel cfg s a) \<and> closing_ok s \<and> exit_ok s"

lemma buf_goodE:
  assumes "buf_good cfg s"
  obtains slots staged where "buf_inv cfg slots staged s" and "cfg_ok cfg" and "closing_ok s" and "exit_ok s"
  using assms by (auto simp: buf_good_def buf_rel_def elim!: inv_bagE)

lemma goroutine_cases: "goroutine l \<Longrightarrow> l = LWriter \<or> l = LSweeper"
  by (cases l) auto

lemma buf_good_step:
  assumes st: "buf_step cfg s l t" and l: "sound_label l" and g: "buf_good cfg s"
  shows "buf_good cfg t"
proof -
  obtain slots staged where I: "buf_inv cfg slots staged s" "cfg_ok cfg" "closing_ok s" "exit_ok s"
    using g by (rule buf_goodE)
  have "\<exists>b. buf_rel cfg t b" using g buf_sim [OF st l] by (auto simp: buf_good_def)
  moreover have "closing_ok t"
  proof (cases "goroutine l")
    case True
    then show ?thesis
      using goroutine_cases [OF True] st writer_closing_ok [OF _ I(3)] sweeper_closing_ok [OF _ I(2,1,3)] by auto
  next
    case False
    then show ?thesis using caller_closing_ok [OF st _ l I(3)] by simp
  qed
  ultimately show ?thesis using exit_ok_step [OF st I(4)] by (simp add: buf_good_def)
qed

lemma caller_work:
  assumes st: "buf_step cfg s l t" and "\<not> goroutine l" and "sound_label l"
  shows "buf_work cfg t \<le> buf_work cfg s + label_work cfg l"
  using st
proof cases
  case (write_ok r)
  then have "t = s\<lparr>writeCh := writeCh s @ [r]\<rparr>" by (auto simp: Write_def try_send_def split: if_splits)
  then show ?thesis using write_ok(1) by (simp add: buf_work_def)
qed (use assms(2,3) in \<open>auto simp: sound_label_def buf_AddInterest_def buf_work_def\<close>)

lemma good_writer:
  assumes "buf_good cfg s" and "buf_step cfg s LWriter t"
  shows "buf_work cfg t < buf_work cfg s \<or> t = s \<and> wpc s = WSelect \<and> \<not> draining s"
proof -
  obtain slots staged where I: "buf_inv cfg slots staged s" "cfg_ok cfg" using assms(1) by (rule buf_goodE)
  show ?thesis
    using I cfg_ok_pos ring_ok_used by (intro writer_work [OF assms(2)]) (auto simp: buf_inv_def stage_ok_def)
qed

lemma good_sweeper:
  assumes "buf_good cfg s" and "buf_step cfg s LSweeper t"
  shows "buf_work cfg t < buf_work cfg s"
proof -
  obtain slots staged where I: "buf_inv cfg slots staged s" "cfg_ok cfg" "closing_ok s"
    using assms(1) by (rule buf_goodE)
  show ?thesis by (rule sweeper_work [OF assms(2) I(2,1,3)])
qed

lemma good_paid:
  assumes st: "work_step cfg s l t" and l: "sound_label l" and g: "buf_good cfg s"
  shows "buf_work cfg t + (if goroutine l then 1 else 0) \<le> buf_work cfg s + label_work cfg l"
proof (cases "goroutine l")
  case False
  then show ?thesis using caller_work [OF _ False l] st by (simp add: work_step_def)
next
  case True
  have "buf_work cfg t < buf_work cfg s"
    using goroutine_cases [OF True] st good_writer [OF g] good_sweeper [OF g] by (auto simp: work_step_def)
  then show ?thesis using True by simp
qed

text \<open>After \<open>closeCh\<close> is closed no wait of either goroutine lasts.\<close>

lemma writer_closes:
  assumes I: "buf_inv cfg slots staged s" and c: "closeCh s" and w: "wpc s \<noteq> WDone"
  shows "\<exists>t. buf_step cfg s LWriter t \<and> (wpc s = WSelect \<and> \<not> draining s \<longrightarrow> draining t)"
proof (cases "wpc s")
  case WSelect
  show ?thesis
  proof (cases "draining s")
    case False
    then show ?thesis using buf_step.w_closing [OF WSelect False c, of cfg] by auto
  next
    case True
    then show ?thesis
      using WSelect by (cases "chan_recv (writeCh s)") (auto intro: buf_step.w_drained buf_step.w_recv)
  qed
next
  case (WFlush k)
  then show ?thesis
    using c by (cases "room_for cfg (int (pageSize cfg)) s") (auto intro: buf_step.w_flush_write buf_step.w_flush_closed)
next
  case (WLargeWait r)
  then show ?thesis
    using c by (cases "room_for cfg (chunkBytes cfg r) s") (auto intro: buf_step.w_large_room buf_step.w_large_closed)
qed (use assms in \<open>auto simp: buf_inv_def intro: buf_step.intros\<close>)

lemma sweeper_closes:
  assumes "writerDone s" and "spc s \<noteq> SDone"
  shows "\<exists>t. buf_step cfg s LSweeper t"
  using assms sweeper_ready [of s cfg] buf_step.s_writer_done [of s cfg] by blast

lemma good_enabled:
  assumes g: "buf_good cfg s" and c: "closeCh s" and w: "\<not> wg_done s"
  shows "\<exists>l t. goroutine l \<and> work_step cfg s l t"
proof -
  obtain slots staged where I: "buf_inv cfg slots staged s" "cfg_ok cfg" using g by (rule buf_goodE)
  show ?thesis
  proof (cases "wpc s = WDone")
    case True
    then have "writerDone s" using I(1) by (auto simp: buf_inv_def flags_ok_def)
    then obtain t where "buf_step cfg s LSweeper t" using sweeper_closes w True by (auto simp: wg_done_def)
    then show ?thesis by (intro exI [of _ LSweeper] exI [of _ t]) (simp add: work_step_def)
  next
    case False
    then obtain t where t: "buf_step cfg s LWriter t" "wpc s = WSelect \<and> \<not> draining s \<longrightarrow> draining t"
      using writer_closes [OF I(1) c] by blast
    then have "t \<noteq> s" using good_writer [OF g t(1)] by auto
    then show ?thesis using t by (intro exI [of _ LWriter] exI [of _ t]) (simp add: work_step_def)
  qed
qed

lemma goroutine_closeCh:
  assumes "buf_step cfg s l t" and "goroutine l" and "buf_good cfg s" and "closeCh s"
  shows "closeCh t"
proof -
  obtain a where a: "buf_rel cfg s a" using assms(3) by (auto simp: buf_good_def)
  have "sound_label l" using goroutine_cases [OF assms(2)] by (auto simp: sound_label_def)
  then obtain b where "spec_step (decisionWait cfg) a l b" "buf_rel cfg t b" using buf_sim [OF assms(1) _ a] by blast
  then show ?thesis using a assms(4) by (auto simp: buf_rel_def elim!: spec_step.cases)
qed

interpretation work: drains "work_step cfg" "buf_good cfg" sound_label goroutine "buf_work cfg" "label_work cfg"
  closeCh wg_done goroutine for cfg
proof
  show "goroutine l \<Longrightarrow> sound_label l \<and> goroutine l \<and> label_work cfg l = 0" for l
    by (auto simp: sound_label_def dest!: goroutine_cases)
  show "work_step cfg s l t \<Longrightarrow> sound_label l \<Longrightarrow> buf_good cfg s \<Longrightarrow> buf_good cfg t" for s l t
    by (auto simp: work_step_def intro: buf_good_step)
  show "work_step cfg s l t \<Longrightarrow> goroutine l \<Longrightarrow> buf_good cfg s \<Longrightarrow> closeCh s \<Longrightarrow> closeCh t" for s l t
    by (auto simp: work_step_def intro: goroutine_closeCh)
qed (fact good_paid good_enabled)+

lemma init_good: "cfg_ok cfg \<Longrightarrow> buf_good cfg (initState cfg f0 now)"
  using init_rel [of cfg f0 now] by (auto simp: buf_good_def closing_ok_def exit_ok_def initState_def)

lemma init_work: "buf_work cfg (initState cfg f0 now) = 2 * pageSize cfg + 18"
  by (simp add: buf_work_def initState_def pass_work_def)

lemma reach_good:
  assumes "buf_reach cfg ls s"
  shows "buf_good cfg s"
proof -
  obtain f0 now where r: "run (buf_step cfg) (initState cfg f0 now) ls s" using assms by (auto simp: buf_reach_def)
  show ?thesis
    by (rule run_invariant [OF r]) (use assms init_good buf_good_step in \<open>auto simp: buf_reach_def\<close>)
qed

section \<open>Properties\<close>

text \<open>C17: Bounded work, no busy loop. In every run without I/O faults from the initial state, counting
  every step of the writer and the sweeper except the ticks that find nothing staged, the two
  goroutines take at most a constant number of steps plus a fixed number for every accepted request
  (linear in its length), every decision recorded and every timer that fired.\<close>

theorem buffer_work_bounded:
  assumes "cfg_ok cfg" and "run (work_step cfg) (initState cfg f0 now) ls s" and "\<forall>l \<in> set ls. sound_label l"
  shows "length (filter goroutine ls) \<le> 2 * pageSize cfg + 18 + sum_list (map (label_work cfg) ls)"
  using work.work_bound [OF assms(2) init_good [OF assms(1)] assms(3)] by (simp add: init_work)

lemma ex_work_run: "run (work_step exCfg) exInit [LWrite exReq True, LAddInterest exID, LWriter] (exStaged exID)"
proof -
  have "exStaged exID \<noteq> exDecided exID" by (simp add: exStaged_def exDecided_def exInit_def initState_def)
  then have "work_step exCfg (exDecided exID) LWriter (exStaged exID)" by (simp add: work_step_def ex_recv)
  moreover have "work_step exCfg exInit (LWrite exReq True) (exInit\<lparr>writeCh := [exReq]\<rparr>)"
    by (simp add: work_step_def ex_write)
  moreover have "work_step exCfg (exInit\<lparr>writeCh := [exReq]\<rparr>) (LAddInterest exID) (exDecided exID)"
    by (simp add: work_step_def ex_decide)
  ultimately show ?thesis
    using run.run_nil [of "work_step exCfg" exInit] run.run_snoc by (metis append_Cons append_Nil)
qed

theorem buffer_work_bounded_witness:
  "length (filter goroutine [LWrite exReq True, LAddInterest exID, LWriter]) \<le>
     78 + sum_list (map (label_work exCfg) [LWrite exReq True, LAddInterest exID, LWriter])"
proof -
  have "\<forall>l \<in> set [LWrite exReq True, LAddInterest exID, LWriter]. sound_label l"
    using exReq_storable by (simp add: sound_label_def)
  then show ?thesis
    using buffer_work_bounded [OF exCfg_ok ex_work_run [unfolded exInit_def]] by (simp add: exCfg_def)
qed

text \<open>C10: \<open>Close\<close> returns. From every state reached without I/O faults in which \<open>closeCh\<close> is closed, the
  two goroutines, left to themselves, can finish; whatever they do, they take at most \<open>buf_work\<close>
  steps that are not idle ticks, and when neither can take another one both have returned, with
  nothing left in the ring.\<close>

theorem buffer_close_returns:
  assumes "buf_reach cfg ls s" and "closeCh s"
  shows "(\<exists>ls' t. run (work_step cfg) s ls' t \<and> list_all goroutine ls' \<and> wg_done t) \<and>
    (\<forall>ls' t. run (work_step cfg) s ls' t \<and> list_all goroutine ls' \<longrightarrow>
       length ls' \<le> buf_work cfg s \<and>
       ((\<nexists>l u. goroutine l \<and> work_step cfg t l u) \<longrightarrow> wg_done t \<and> used t = 0))"
proof (intro conjI allI impI)
  have g: "buf_good cfg s" using assms(1) by (rule reach_good)
  show "\<exists>ls' t. run (work_step cfg) s ls' t \<and> list_all goroutine ls' \<and> wg_done t"
    using work.reaches_goal [OF g assms(2)] by (simp add: list_all_iff)
  fix ls' t assume r: "run (work_step cfg) s ls' t \<and> list_all goroutine ls'"
  then have all: "\<forall>l \<in> set ls'. goroutine l" by (simp add: list_all_iff)
  show "length ls' \<le> buf_work cfg s" using work.free_run(1) [OF _ g all, of t] r by simp
  assume stuck: "\<nexists>l u. goroutine l \<and> work_step cfg t l u"
  show d: "wg_done t" by (rule work.stuck_at_goal [OF _ g assms(2) all stuck]) (use r in simp)
  have "buf_good cfg t" using work.free_run(2) [OF _ g all] r by blast
  then show "used t = 0" using d by (simp add: buf_good_def exit_ok_def wg_done_def)
qed

theorem buffer_close_returns_witness:
  "\<exists>ls' t. run (work_step exCfg) (exFinal\<lparr>closeCh := True\<rparr>) ls' t \<and> list_all goroutine ls' \<and> wg_done t"
proof -
  have "buf_step exCfg exFinal LClose (exFinal\<lparr>closeCh := True\<rparr>)"
    by (rule buf_step.close) (simp add: ex_states)
  then have "buf_reach exCfg (exLabels @ [LClose]) (exFinal\<lparr>closeCh := True\<rparr>)"
    using run.run_snoc [OF ex_run] exCfg_ok exLabels_sound(1) by (auto simp: buf_reach_def sound_label_def)
  then show ?thesis using buffer_close_returns by simp
qed

end
