(* ===== verification/Processor_Shutdown.thy ===== *)
theory Processor_Shutdown
  imports Processor_Guarantees Buffer_Shutdown
begin

text \<open>
  The end of a trace and the end of the processor. The histogram of the telemetry accounts for what the
  buffer did not hand on; and \<open>Shutdown\<close> returns, because the goroutine of the cancelled client and then
  the two goroutines of the closed buffer have a bounded amount of work left.
\<close>

section \<open>Evictions are recorded\<close>

definition ages_ok :: "('r, 'c, 'q) procState \<Rightarrow> bool" where
  "ages_ok p \<longleftrightarrow> p_telemetry p = with_ages (evictions (events (p_buf p))) (builderOn emptyMeter)"

lemma shutdown_unregistered: "tb_registrations tb = [] \<Longrightarrow> tb_Shutdown tb = tb"
  by (simp add: tb_Shutdown_def)

lemma with_ages_append: "with_ages ds (with_ages cs tb) = with_ages (cs @ ds) tb"
  by (simp add: with_ages_def)

lemma call_turn_telemetry: "call_turn env k p = (k', p') \<Longrightarrow> p_telemetry p' = p_telemetry p"
  by (auto simp: call_turn_def evaluate_def proc_AddInterest_def store_def Let_def
      split: callPc.splits list.splits prod.splits if_splits option.splits)

lemma fold_onDecision_telemetry: "p_telemetry (fold onDecision ids p) = p_telemetry p"
  by (induction ids arbitrary: p) (simp_all add: onDecision_def proc_AddInterest_def)

lemma ages_step:
  assumes "proc_step env p l q" and I: "ages_ok p"
  shows "ages_ok q"
  using assms(1)
proof cases
  case (pr_turn i k p')
  have "p_telemetry p' = p_telemetry p" "events (p_buf p') = events (p_buf p)"
    using call_turn_telemetry [OF pr_turn(4)] call_turn_frame(6) [OF pr_turn(4)] by simp_all
  then show ?thesis using I pr_turn(2) by (simp add: ages_ok_def)
next
  case (pr_buf l b ok)
  obtain evs where evs: "events b = events (p_buf p) @ evs" using events_grow [OF pr_buf(4)] by blast
  then show ?thesis
    using pr_buf(2) I fold_callback [of env ok evs "p\<lparr>p_buf := b, p_trace := p_trace p @ [l]\<rparr>"]
    by (auto simp: buf_moved_def ages_ok_def with_ages_append)
next
  case (pr_decisions c ids d)
  then show ?thesis
    using I fold_onDecision [of "decisions ids" "p\<lparr>p_coord := Some d\<rparr>"]
    by (simp add: ages_ok_def fold_onDecision_telemetry)
next
  case (pr_client_done b)
  have "events b = events (p_buf p)" using pr_client_done(5) by cases simp_all
  then show ?thesis using I pr_client_done(2) by (simp add: ages_ok_def)
next
  case pr_buffer_done
  have "tb_registrations (p_telemetry p) = []" using I by (simp add: ages_ok_def with_ages_def builderOn_def)
  then show ?thesis using I pr_buffer_done(2) by (simp add: ages_ok_def shutdown_unregistered)
qed (use I in \<open>simp_all add: ages_ok_def proc_Start_def\<close>)

lemma reach_ages:
  assumes "proc_reach env cfg es ls p"
  shows "ages_ok p"
proof -
  obtain f0 now where r: "run (proc_step env) (initProc cfg (initState cfg f0 now) es) ls p"
    using assms by (auto simp: proc_reach_def)
  show ?thesis
    by (rule run_invariant [OF r]) (auto simp: ages_ok_def initProc_def initState_def intro: ages_step [unfolded ages_ok_def])
qed

lemma resolved_counts:
  "length (deliveries (map event_of res)) + length (evictions (map event_of res)) = length res"
proof (induction res)
  case (Cons x res)
  then show ?case by (cases x; cases "snd x") auto
qed simp

lemma as_written_decodes:
  assumes "codec_ok env" and "as_written env p" and "r \<in> set (accepted (p_trace p))"
  shows "pe_Unmarshal env (wr_data r) \<noteq> None"
proof -
  have "(wr_traceID r, Some (wr_data r)) \<in> (\<lambda>r. (wr_traceID r, Some (wr_data r))) ` set (accepted (p_trace p))"
    using assms(3) by (rule imageI)
  also have "\<dots> = (\<lambda>(t, s). (t, pe_Marshal env s)) ` set (p_stored p)"
    using arg_cong [OF assms(2) [unfolded as_written_def], of set] by simp
  finally obtain s where "pe_Marshal env s = Some (wr_data r)" by auto
  then show ?thesis using assms(1) by (simp add: codec_ok_def)
qed

lemma received_all:
  assumes "\<forall>(t, d) \<in> set (deliveries es). pe_Unmarshal env d \<noteq> None"
  shows "length (received env es) = length (deliveries es)"
proof -
  have "filter (\<lambda>x. map_option (Pair (fst x)) (pe_Unmarshal env (snd x)) \<noteq> None) (deliveries es) = deliveries es"
    using assms by (auto intro!: filter_True)
  then show ?thesis by (simp add: received_def map_filter_def comp_def case_prod_unfold)
qed

lemma received_length:
  assumes "codec_ok env" and "as_written env p"
    and "mset (deliveries es) \<subseteq># image_mset (\<lambda>r. (wr_traceID r, wr_data r)) (mset (accepted (p_trace p)))"
  shows "length (received env es) = length (deliveries es)"
proof -
  have "pe_Unmarshal env d \<noteq> None" if "(t, d) \<in> set (deliveries es)" for t d
  proof -
    have "(t, d) \<in># image_mset (\<lambda>r. (wr_traceID r, wr_data r)) (mset (accepted (p_trace p)))"
      using mset_subset_eqD [OF assms(3)] that by simp
    then obtain r where "r \<in> set (accepted (p_trace p))" "d = wr_data r" by auto
    then show ?thesis using as_written_decodes [OF assms(1,2)] by simp
  qed
  then show ?thesis by (intro received_all) auto
qed


lemma ex_final_run:
  "run (buf_step exCfg) (exDecided exID) ([LWriter, LWriter, LWriter, LWriter, LSweeper, LSweeper, LSweeper, LSweeper] @
     [LSweeper, LSweeper, LSweeper]) exFinal"
proof -
  obtain t u where e: "buf_step exCfg exScanned LSweeper t" "buf_step exCfg t LSweeper u"
    "buf_step exCfg u LSweeper exFinal" using ex_sweep_end by blast
  show ?thesis using run_snoc [OF run_snoc [OF run_snoc [OF ex_sweep_run e(1)] e(2)] e(3)] by simp
qed


section \<open>Shutting down\<close>

text \<open>What the client's goroutines still do once its context is cancelled: the rest of the queue, the way out
  of \<open>connect\<close> and \<open>run\<close>, and the receiving goroutines.\<close>

fun cpc_work :: "cpc \<Rightarrow> nat" where
  "cpc_work CDone = 0"
| "cpc_work CTop = 1"
| "cpc_work CWait = 2"
| "cpc_work CStream = 3"
| "cpc_work CDial = 5"

definition client_work :: "clientState \<Rightarrow> nat" where
  "client_work c = length (cs_sendCh c) + cpc_work (cs_pc c) + of_bool (cs_live c) + cs_old c"

lemma client_cancelled_step:
  assumes "client_step c LRun d" and "cs_ctxDone c"
  shows "client_work d < client_work c" and "cs_ctxDone d" and "cs_pc c = CDone \<Longrightarrow> cs_pc d = CDone"
  using assms
  by (auto elim!: client_step.cases simp: client_work_def leave_stream_def chan_recv_def split: list.splits)

lemma client_cancelled_ready:
  assumes "cs_ctxDone c" and "cs_pc c \<noteq> CDone"
  shows "\<exists>d. client_step c LRun d"
  using assms by (cases "cs_pc c") (blast intro: client_step.intros)+

lemma client_recv_frame:
  assumes "client_step c (LRecv ids) d"
  shows "cs_ctxDone d = cs_ctxDone c" and "cs_pc d = cs_pc c"
  using assms by (auto elim!: client_step.cases simp: recv_batch_def)

lemma closeCh_frame:
  assumes "buf_step cfg s l t" and "l \<noteq> LClose"
  shows "closeCh t = closeCh s"
proof -
  have fr: "closeCh (flush_returned cfg k s) = closeCh s" for k s
    by (simp add: flush_returned_def stage_record_def large_start_def writer_exit_def split: afterFlush.split)
  show ?thesis
    using assms
    by cases (auto simp: Write_def buf_AddInterest_def handle_def enter_flush_def stage_record_def large_start_def
      writer_exit_def flush_closed_def flush_write_def flush_count_def fr write_first_def write_cont_def
      commit_large_def scan_done_def free_pages_def Let_def split: afterFlush.split if_splits)
qed

lemma wg_done_frame:
  assumes "buf_step cfg s l t" and "wg_done s"
  shows "wg_done t"
  using assms by cases (auto simp: wg_done_def Write_def buf_AddInterest_def split: if_splits)

text \<open>How far \<open>Shutdown\<close> has come, against what the goroutines have done.\<close>

definition client_returned :: "('r, 'c, 'q) procState \<Rightarrow> bool" where
  "client_returned p \<longleftrightarrow> (\<forall>c. p_coord p = Some c \<longrightarrow> cs_pc c = CDone)"

definition shut_ok :: "('r, 'c, 'q) procState \<Rightarrow> bool" where
  "shut_ok p \<longleftrightarrow> (closeCh (p_buf p) \<longleftrightarrow> p_shut p \<in> {ShBuffer, ShDone}) \<and>
     (p_shut p \<noteq> ShRunning \<longrightarrow> (\<forall>c. p_coord p = Some c \<longrightarrow> cs_ctxDone c)) \<and>
     (p_shut p \<in> {ShBuffer, ShDone} \<longrightarrow> client_returned p) \<and> (p_shut p = ShDone \<longrightarrow> wg_done (p_buf p))"

lemma Notify_frame [simp]: "cs_ctxDone (Notify t c) = cs_ctxDone c" "cs_pc (Notify t c) = cs_pc c"
  by (simp_all add: Notify_def split: option.split)

lemma call_turn_client:
  assumes "call_turn env k p = (k', p')" and "p_coord p' = Some c'"
  shows "\<exists>c. p_coord p = Some c \<and> cs_ctxDone c' = cs_ctxDone c \<and> cs_pc c' = cs_pc c"
  using assms
  by (auto simp: call_turn_def evaluate_def proc_AddInterest_def store_def Let_def
      split: callPc.splits list.splits prod.splits if_splits option.splits)

lemma call_turn_buffer:
  assumes "call_turn env k p = (k', p')"
  shows "closeCh (p_buf p') = closeCh (p_buf p)" and "wg_done (p_buf p') = wg_done (p_buf p)"
  using assms
  by (auto simp: call_turn_def evaluate_def proc_AddInterest_def store_def Let_def wg_done_def Write_def buf_AddInterest_def
      split: callPc.splits list.splits prod.splits if_splits option.splits)

lemma fold_onDecision_buffer:
  "closeCh (p_buf (fold onDecision ids p)) = closeCh (p_buf p)" "wg_done (p_buf (fold onDecision ids p)) = wg_done (p_buf p)"
  "p_shut (fold onDecision ids p) = p_shut p" "p_coord (fold onDecision ids p) = p_coord p"
  by (induction ids arbitrary: p) (simp_all add: onDecision_def proc_AddInterest_def buf_AddInterest_def wg_done_def)

lemma buf_moved_frame:
  "p_buf (buf_moved env ok l b p) = b" "p_coord (buf_moved env ok l b p) = p_coord p"
  "p_shut (buf_moved env ok l b p) = p_shut p" "p_cfg (buf_moved env ok l b p) = p_cfg p"
proof -
  obtain lg tb con where "buf_moved env ok l b p = p\<lparr>p_buf := b, p_trace := p_trace p @ [l], p_consumed := con, p_log := lg, p_telemetry := tb\<rparr>"
    using fold_callback [of env ok _ "p\<lparr>p_buf := b, p_trace := p_trace p @ [l]\<rparr>"] unfolding buf_moved_def by (metis (no_types))
  then show "p_buf (buf_moved env ok l b p) = b" "p_coord (buf_moved env ok l b p) = p_coord p"
    "p_shut (buf_moved env ok l b p) = p_shut p" "p_cfg (buf_moved env ok l b p) = p_cfg p" by simp_all
qed

lemma shut_step:
  assumes "proc_step env p l q" and I: "shut_ok p"
  shows "shut_ok q"
  using assms(1)
proof cases
  case (pr_turn i k p')
  have q: "p_shut q = p_shut p" "closeCh (p_buf q) = closeCh (p_buf p)" "wg_done (p_buf q) = wg_done (p_buf p)" "p_coord q = p_coord p'"
    using pr_turn(2) call_turn_buffer [OF pr_turn(4)] call_turn_frame(5) [OF pr_turn(4)] by simp_all
  have c: "\<exists>c. p_coord p = Some c \<and> cs_ctxDone c' = cs_ctxDone c \<and> cs_pc c' = cs_pc c" if "p_coord q = Some c'" for c'
    using call_turn_client [OF pr_turn(4)] that by (simp add: q(4))
  have "client_returned p \<Longrightarrow> client_returned q" using c unfolding client_returned_def by metis
  moreover have "\<forall>c. p_coord p = Some c \<longrightarrow> cs_ctxDone c \<Longrightarrow> \<forall>c. p_coord q = Some c \<longrightarrow> cs_ctxDone c" using c by metis
  ultimately show ?thesis using I unfolding shut_ok_def q(1-3) by blast
next
  case (pr_buf l b ok)
  have "l \<noteq> LClose" using pr_buf(3) by auto
  then have "closeCh b = closeCh (p_buf p)" by (rule closeCh_frame [OF pr_buf(4)])
  then show ?thesis
    using I pr_buf(2) wg_done_frame [OF pr_buf(4)] by (simp add: shut_ok_def client_returned_def buf_moved_frame)
next
  case (pr_client c d)
  then show ?thesis using I client_cancelled_step [OF pr_client(4)] by (auto simp: shut_ok_def client_returned_def)
next
  case (pr_decisions c ids d)
  then show ?thesis
    using I client_recv_frame [OF pr_decisions(4)] by (auto simp: shut_ok_def client_returned_def fold_onDecision_buffer)
next
  case (pr_client_done b)
  have "closeCh b" using pr_client_done(5) by cases simp_all
  then show ?thesis using I pr_client_done by (auto simp: shut_ok_def client_returned_def)
qed (use I in \<open>auto simp: shut_ok_def client_returned_def proc_Start_def client_Close_def wg_done_def\<close>)

text \<open>The steps that \<open>Shutdown\<close> waits for: its own, those of the client's goroutines and those of the buffer's,
  without the ticks of the writer that find nothing to flush.\<close>

fun shut_label :: "procLabel \<Rightarrow> bool" where
  "shut_label LShutdown = True"
| "shut_label LClient = True"
| "shut_label (LBuf l ok) = goroutine l"
| "shut_label _ = False"

definition live_step :: "('r, 'c, 'q) procEnv \<Rightarrow> ('r, 'c, 'q) procState \<Rightarrow> procLabel \<Rightarrow> ('r, 'c, 'q) procState \<Rightarrow> bool" where
  "live_step env p l q \<longleftrightarrow> proc_step env p l q \<and> (\<forall>ok. l = LBuf LWriter ok \<longrightarrow> p_buf q \<noteq> p_buf p)"

definition shut_inv :: "bufferCfg \<Rightarrow> ('r, 'c, 'q) procState \<Rightarrow> bool" where
  "shut_inv cfg p \<longleftrightarrow> shut_ok p \<and> p_shut p \<noteq> ShRunning \<and> p_cfg p = cfg \<and> buf_good cfg (p_buf p)"

fun shut_left :: "shutPc \<Rightarrow> nat" where
  "shut_left ShRunning = 3"
| "shut_left ShClient = 2"
| "shut_left ShBuffer = 1"
| "shut_left ShDone = 0"

definition shut_work :: "bufferCfg \<Rightarrow> ('r, 'c, 'q) procState \<Rightarrow> nat" where
  "shut_work cfg p = shut_left (p_shut p) + (case p_coord p of None \<Rightarrow> 0 | Some c \<Rightarrow> client_work c) + buf_work cfg (p_buf p)"

lemma closed_good: "buf_good cfg s \<Longrightarrow> buf_step cfg s LClose b \<Longrightarrow> buf_good cfg b \<and> buf_work cfg b \<le> buf_work cfg s"
  using buf_good_step [of cfg s LClose b] caller_work [of cfg s LClose b] by (simp add: sound_label_def)

lemma live_paid:
  assumes "live_step env p l q" and "shut_label l" and I: "shut_inv cfg p"
  shows "shut_inv cfg q \<and> shut_work cfg q < shut_work cfg p"
proof -
  have st: "proc_step env p l q" using assms(1) by (simp add: live_step_def)
  have ok: "shut_ok q" using shut_step [OF st] I by (simp add: shut_inv_def)
  have cfg: "p_cfg p = cfg" and g: "buf_good cfg (p_buf p)" and sh: "p_shut p \<noteq> ShRunning"
    using I by (simp_all add: shut_inv_def)
  from st show ?thesis
  proof cases
    case (pr_buf m b k)
    then have m: "goroutine m" using assms(2) by simp
    have w: "work_step cfg (p_buf p) m b"
      using assms(1) pr_buf(1,2,4) by (auto simp: live_step_def work_step_def cfg buf_moved_frame)
    have s: "sound_label m" using goroutine_cases [OF m] by (auto simp: sound_label_def)
    have "label_work cfg m = 0" using goroutine_cases [OF m] by auto
    then have "buf_work cfg b < buf_work cfg (p_buf p)" using good_paid [OF w s g] m by simp
    moreover have "buf_good cfg b" using buf_good_step [OF _ s g] w by (simp add: work_step_def)
    ultimately show ?thesis
      using ok pr_buf(2) cfg sh by (simp add: shut_inv_def shut_work_def buf_moved_frame)
  next
    case (pr_client c d)
    have "cs_ctxDone c" using I pr_client(3) by (simp add: shut_inv_def shut_ok_def)
    then have "client_work d < client_work c" by (rule client_cancelled_step(1) [OF pr_client(4)])
    then show ?thesis using ok pr_client cfg g sh by (simp add: shut_inv_def shut_work_def)
  next
    case (pr_client_done b)
    then show ?thesis
      using ok cfg closed_good [OF g, of b] by (simp add: shut_inv_def shut_work_def)
  next
    case pr_buffer_done
    then show ?thesis using ok cfg g by (simp add: shut_inv_def shut_work_def)
  qed (use assms(2) sh in simp_all)
qed

lemma live_enabled:
  assumes I: "shut_inv cfg p" and "p_shut p \<noteq> ShDone"
  shows "\<exists>l q. shut_label l \<and> live_step env p l q"
proof (cases "client_returned p")
  case False
  then obtain c where c: "p_coord p = Some c" "cs_pc c \<noteq> CDone" by (auto simp: client_returned_def)
  then have "cs_ctxDone c" using I by (simp add: shut_inv_def shut_ok_def)
  then obtain d where "client_step c LRun d" using client_cancelled_ready c(2) by blast
  then have "live_step env p LClient (p\<lparr>p_coord := Some d\<rparr>)"
    using pr_client [OF c(1)] by (simp add: live_step_def)
  then show ?thesis by (intro exI [of _ LClient]) auto
next
  case True
  consider "p_shut p = ShClient" | "p_shut p = ShBuffer" "wg_done (p_buf p)" | "p_shut p = ShBuffer" "\<not> wg_done (p_buf p)"
    using I assms(2) by (cases "p_shut p") (auto simp: shut_inv_def)
  then show ?thesis
  proof cases
    case 1
    then have "\<not> closeCh (p_buf p)" using I by (simp add: shut_inv_def shut_ok_def)
    then have "buf_step (p_cfg p) (p_buf p) LClose ((p_buf p)\<lparr>closeCh := True\<rparr>)"
      by (intro buf_step.close) (simp add: Close_def)
    from pr_client_done [OF 1 _ this, of env] True show ?thesis
      by (intro exI [of _ LShutdown]) (auto simp: client_returned_def live_step_def)
  next
    case 2
    from pr_buffer_done [OF 2(1), of env] 2(2) show ?thesis
      by (intro exI [of _ LShutdown]) (auto simp: wg_done_def live_step_def)
  next
    case 3
    have g: "buf_good cfg (p_buf p)" "closeCh (p_buf p)" "p_cfg p = cfg" using I 3 by (simp_all add: shut_inv_def shut_ok_def)
    obtain m b where m: "goroutine m" "work_step cfg (p_buf p) m b" using good_enabled [OF g(1,2) 3(2)] by blast
    have "env_label m" using goroutine_cases [OF m(1)] by auto
    then have "proc_step env p (LBuf m True) (buf_moved env True m b p)"
      using m(2) g(3) by (intro pr_buf) (simp_all add: work_step_def)
    then have "live_step env p (LBuf m True) (buf_moved env True m b p)"
      using m(2) by (auto simp: live_step_def work_step_def buf_moved_frame)
    then show ?thesis using m(1) by (intro exI [of _ "LBuf m True"]) auto
  qed
qed

interpretation shutting: drains "live_step env" "shut_inv cfg" shut_label shut_label "shut_work cfg" "\<lambda>_. 0"
  "\<lambda>_. True" "\<lambda>p. p_shut p = ShDone" shut_label for env :: "('r, 'c, 'q) procEnv" and cfg
proof
  fix p q :: "('r, 'c, 'q) procState" and l
  assume "live_step env p l q" "shut_label l" "shut_inv cfg p"
  then show "shut_inv cfg q" and "shut_work cfg q + (if shut_label l then 1 else 0) \<le> shut_work cfg p + 0"
    using live_paid [of env p l q cfg] by auto
qed (use live_enabled in auto)

lemma reach_shut:
  assumes "proc_reach env cfg es ls p" and "cfg_ok cfg" and "\<forall>l \<in> set (p_trace p). sound_label l" and "p_shut p \<noteq> ShRunning"
  shows "shut_inv cfg p"
proof -
  obtain f0 now where r: "run (proc_step env) (initProc cfg (initState cfg f0 now) es) ls p"
    using assms(1) by (auto simp: proc_reach_def)
  have "shut_ok (initProc cfg (initState cfg f0 now) es)" by (simp add: shut_ok_def initProc_def initState_def)
  then have "shut_ok p" using run_invariant [OF r, of shut_ok] shut_step by blast
  moreover obtain g0 t0 where J: "proc_inv env cfg (initState cfg g0 t0) p" using assms(1) by (rule proc_reach_inv)
  then have "buf_reach cfg (p_trace p) (p_buf p)" using assms(2,3) by (auto simp: buf_reach_def proc_inv_def)
  then have "buf_good cfg (p_buf p)" by (rule reach_good)
  ultimately show ?thesis using J assms(4) by (simp add: shut_inv_def proc_inv_def)
qed

text \<open>C9: \<open>Shutdown\<close> returns. From every state reached without I/O faults in which \<open>Shutdown\<close> has been called, the
  client's goroutines, the buffer's and \<open>Shutdown\<close> itself can finish, whatever the coordinator does and however full
  the queues are; whatever they do, they take at most \<open>shut_work\<close> steps that are not idle ticks; and when none of
  them can take another one, \<open>Shutdown\<close> has returned, the client's \<open>run\<close> and both goroutines of the buffer have
  returned before it, and the ring is empty.\<close>

theorem processor_shutdown_returns:
  assumes "proc_reach env cfg es ls p" and "cfg_ok cfg" and "\<forall>l \<in> set (p_trace p). sound_label l"
    and "p_shut p \<noteq> ShRunning"
  shows "(\<exists>ls' q. run (live_step env) p ls' q \<and> list_all shut_label ls' \<and> p_shut q = ShDone) \<and>
    (\<forall>ls' q. run (live_step env) p ls' q \<and> list_all shut_label ls' \<longrightarrow>
       length ls' \<le> shut_work cfg p \<and>
       ((\<nexists>l u. shut_label l \<and> live_step env q l u) \<longrightarrow> p_shut q = ShDone \<and> client_returned q \<and>
          wg_done (p_buf q) \<and> used (p_buf q) = 0))"
proof (intro conjI allI impI)
  have I: "shut_inv cfg p" by (rule reach_shut [OF assms])
  show "\<exists>ls' q. run (live_step env) p ls' q \<and> list_all shut_label ls' \<and> p_shut q = ShDone"
    using shutting.reaches_goal [OF I] by (simp add: list_all_iff)
  fix ls' q assume r: "run (live_step env) p ls' q \<and> list_all shut_label ls'"
  then have all: "\<forall>l \<in> set ls'. shut_label l" by (simp add: list_all_iff)
  show "length ls' \<le> shut_work cfg p" using shutting.free_run(1) [OF _ I all, of env q] r by simp
  assume stuck: "\<nexists>l u. shut_label l \<and> live_step env q l u"
  show d: "p_shut q = ShDone" by (rule shutting.stuck_at_goal [OF _ I _ all stuck]) (use r in simp_all)
  have J: "shut_inv cfg q" using shutting.free_run(2) [OF _ I all] r by blast
  then show "client_returned q" and w: "wg_done (p_buf q)" using d by (simp_all add: shut_inv_def shut_ok_def)
  then show "used (p_buf q) = 0" using J by (simp add: shut_inv_def buf_good_def exit_ok_def wg_done_def)
qed

theorem processor_shutdown_returns_witness:
  "\<exists>ls' q. run (live_step exProcEnv) ((exBuffered exDrop)\<lparr>p_coord := map_option client_Close (p_coord (exBuffered exDrop)),
     p_shut := ShClient\<rparr>) ls' q \<and> list_all shut_label ls' \<and> p_shut q = ShDone"
proof -
  let ?p = "(exBuffered exDrop)\<lparr>p_coord := map_option client_Close (p_coord (exBuffered exDrop)), p_shut := ShClient\<rparr>"
  have "proc_step exProcEnv (exBuffered exDrop) LShutdown ?p"
    by (rule pr_shutdown) (auto simp: exBuffered_def initProc_def)
  from run_snoc [OF ex_buffered_run this]
  obtain ls where r: "proc_reach exProcEnv exCfg exDrop ls ?p" unfolding proc_reach_def exInit_def by blast
  have "\<forall>l \<in> set (p_trace ?p). sound_label l" using exReq_storable(1) by (simp add: exBuffered_def sound_label_def)
  then show ?thesis using processor_shutdown_returns [OF r exCfg_ok] by simp
qed

end
