(* ===== verification/Policy_Types.thy ===== *)
theory Policy_Types
  imports Registry
begin

text \<open>
  The types of the policies: what \<open>Build\<close> makes of a configuration is one policy per entry, of the type the
  entry names, with the fields its constructor promises (a status filter has codes, a value filter has no
  empty value, an OTTL filter has a sequence, only one level of nesting), and evaluating batches changes
  nothing of it but caches.
\<close>

section \<open>Types and well-formed policies\<close>

fun policy_type :: "('r, 'c, 'q) Evaluator \<Rightarrow> PolicyType" where
  "policy_type alwaysSample = AlwaysSample"
| "policy_type (latency lo up) = Latency"
| "policy_type (statusCodeFilter codes) = StatusCode"
| "policy_type (stringAttributeFilter key m) = StringAttribute"
| "policy_type (numericAttributeFilter key mn mx) = NumericAttribute"
| "policy_type (booleanAttributeFilter key v) = BooleanAttribute"
| "policy_type (probabilisticSampler threshold seed) = Probabilistic"
| "policy_type traceFlags = TraceFlags"
| "policy_type (traceStateFilter key vals) = TraceState"
| "policy_type (ottlConditionFilter sexpr eexpr) = OTTLCondition"
| "policy_type (andPolicy subs) = And"
| "policy_type (notPolicy sub) = Not"
| "policy_type (dropPolicy subs) = Drop"

fun matcher_ok :: "('r, 'c) matcher \<Rightarrow> bool" where
  "matcher_ok (MValues vs) \<longleftrightarrow> list_all (\<lambda>v. v \<noteq> []) vs"
| "matcher_ok (MRegex rs c) \<longleftrightarrow> True"

fun leaf_ok :: "('r, 'c, 'q) Evaluator \<Rightarrow> bool" where
  "leaf_ok (statusCodeFilter codes) \<longleftrightarrow> codes \<noteq> []"
| "leaf_ok (stringAttributeFilter key m) \<longleftrightarrow> matcher_ok m"
| "leaf_ok (traceStateFilter key vals) \<longleftrightarrow> list_all (\<lambda>v. v \<noteq> [] \<and> length key + length v < 256) vals"
| "leaf_ok (ottlConditionFilter sexpr eexpr) \<longleftrightarrow> sexpr \<noteq> None \<or> eexpr \<noteq> None"
| "leaf_ok (andPolicy subs) \<longleftrightarrow> False"
| "leaf_ok (notPolicy sub) \<longleftrightarrow> False"
| "leaf_ok (dropPolicy subs) \<longleftrightarrow> False"
| "leaf_ok _ \<longleftrightarrow> True"

fun policy_ok :: "('r, 'c, 'q) Evaluator \<Rightarrow> bool" where
  "policy_ok (andPolicy subs) \<longleftrightarrow> list_all leaf_ok subs"
| "policy_ok (notPolicy sub) \<longleftrightarrow> leaf_ok sub"
| "policy_ok (dropPolicy subs) \<longleftrightarrow> list_all leaf_ok subs"
| "policy_ok e \<longleftrightarrow> leaf_ok e"

section \<open>The constructors\<close>

lemma status_codes_length: "status_codes ss = Inr cs \<Longrightarrow> length cs = length ss"
  by (induction ss arbitrary: cs) (auto simp: map_sum_Inr_iff split: if_splits)

lemma status_filter_ok: "NewStatusCodeFilter ss = Inr e \<Longrightarrow> leaf_ok e \<and> policy_type e = StatusCode"
  using status_codes_length [of ss] by (auto simp: NewStatusCodeFilter_def map_sum_Inr_iff split: if_splits)

lemma string_filter_ok:
  "NewStringAttributeFilter env key vals rx n = Inr e \<Longrightarrow> leaf_ok e \<and> policy_type e = StringAttribute"
  by (auto simp: NewStringAttributeFilter_def Let_def map_sum_Inr_iff list_all_iff split: if_splits)

lemma ottl_filter_ok:
  "NewOTTLConditionFilter env sc ec m = Inr e \<Longrightarrow> leaf_ok e \<and> policy_type e = OTTLCondition"
  by (auto simp: NewOTTLConditionFilter_def map_sum_Inr_iff split: if_splits sum.splits)

lemma state_filter_ok: "leaf_ok (NewTraceStateFilter key vals) \<and> policy_type (NewTraceStateFilter key vals) = TraceState"
  by (simp add: NewTraceStateFilter_def list_all_iff)

lemmas constructor_ok = status_filter_ok string_filter_ok ottl_filter_ok

lemma buildShared_ok: "buildShared env oob cfg = Inr e \<Longrightarrow> leaf_ok e \<and> policy_type e = pc_Type cfg"
  by (auto simp: buildShared_def NewProbabilisticSampler_def Let_def state_filter_ok
      split: PolicyType.splits dest: constructor_ok)

lemma build_subs_ok: "build_subs env oob wrap i cs = Inr es \<Longrightarrow> list_all leaf_ok es"
  by (induction cs arbitrary: i es) (auto simp: map_sum_Inr_iff split: sum.splits dest: buildShared_ok)

lemma leaf_policy_ok: "leaf_ok e \<Longrightarrow> policy_ok e"
  by (cases e) auto

lemma buildPolicy_ok: "buildPolicy env oob p = Inr e \<Longrightarrow> policy_ok e \<and> policy_type e = pc_Type (pol_Shared p)"
  by (auto simp: buildPolicy_def buildAndPolicy_def buildNotPolicy_def buildDropPolicy_def map_sum_Inr_iff
      split: PolicyType.splits dest: build_subs_ok buildShared_ok intro: leaf_policy_ok)

lemma Build_ok:
  "Build env oob ps = Inr es \<Longrightarrow> list_all policy_ok es \<and> map policy_type es = map (pc_Type \<circ> pol_Shared) ps"
  by (induction ps arbitrary: es) (auto simp: map_sum_Inr_iff split: sum.splits dest: buildPolicy_ok)

section \<open>Evaluation keeps the policies\<close>

text \<open>The policy without its caches.\<close>

definition strip :: "('r, 'c) matcher \<Rightarrow> ('r, unit) matcher" where
  "strip = map_matcher id (\<lambda>_. ())"

definition skeleton :: "('r, 'c, 'q) Evaluator \<Rightarrow> ('r, unit, 'q) Evaluator" where
  "skeleton = map_Evaluator id (\<lambda>_. ()) id"

lemma strip_simps [simp]: "strip (MRegex rs c) = MRegex rs ()" "strip (MValues vs) = MValues vs"
  by (simp_all add: strip_def)

lemma skeleton_simps [simp]:
  "skeleton alwaysSample = alwaysSample" "skeleton (latency lo up) = latency lo up"
  "skeleton (statusCodeFilter codes) = statusCodeFilter codes"
  "skeleton (stringAttributeFilter key m) = stringAttributeFilter key (strip m)"
  "skeleton (numericAttributeFilter key mn mx) = numericAttributeFilter key mn mx"
  "skeleton (booleanAttributeFilter key v) = booleanAttributeFilter key v"
  "skeleton (probabilisticSampler th seed) = probabilisticSampler th seed"
  "skeleton traceFlags = traceFlags" "skeleton (traceStateFilter key vals) = traceStateFilter key vals"
  "skeleton (ottlConditionFilter se ee) = ottlConditionFilter se ee"
  "skeleton (andPolicy subs) = andPolicy (map skeleton subs)" "skeleton (notPolicy sub) = notPolicy (skeleton sub)"
  "skeleton (dropPolicy subs) = dropPolicy (map skeleton subs)"
  by (simp_all add: skeleton_def strip_def condSeq.map_id0 option.map_id)

lemma same_policies_skeleton: "same_policies es es' \<longleftrightarrow> map skeleton es = map skeleton es'"
  by (simp add: same_policies_def skeleton_def)

lemma skeleton_matcher [simp]: "matcher_ok (strip m) = matcher_ok m"
  by (cases m) auto

lemma skeleton_leaf [simp]: "leaf_ok (skeleton e) = leaf_ok e"
  by (cases e) auto

lemma skeleton_ok: "policy_ok (skeleton e) = policy_ok e" "policy_type (skeleton e) = policy_type e"
  by (cases e; simp add: list_all_iff)+

lemma run_matcher_skeleton:
  "strip (snd (run_matcher env s m)) = strip m"
  by (cases m) (auto split: prod.split)

lemma string_filter_skeleton:
  fixes m :: "('r, 'c) matcher"
  assumes "stringAttribute_Evaluate env key m t = (d, m')"
  shows "strip m' = strip m"
proof -
  define I where "I n \<longleftrightarrow> strip n = strip m" for n :: "('r, 'c) matcher"
  have keep: "I (snd (any_st f xs n))" if "\<And>x n. I n \<Longrightarrow> I (snd (f x n))" "I n"
    for f and xs :: "'x list" and n
    using that(2)
  proof (induction xs arbitrary: n)
    case (Cons x xs)
    then show ?case using that(1) [OF Cons.prems, of x] by (auto split: prod.split)
  qed simp
  have res: "I (snd (string_resource env key r n))" and spn: "I (snd (string_span env key x n))" if "I n" for r x n
    using that by (auto simp: I_def string_resource_def string_span_def run_matcher_skeleton split: option.split)
  have "I (snd (hasResourceOrSpanWithCondition t (string_resource env key) (string_span env key) m))"
    unfolding hasResourceOrSpanWithCondition_def decide_def snd_conv
  proof (rule keep)
    fix rs :: ResourceSpans and n assume n: "I n"
    obtain b n' where r: "string_resource env key (rs_resource rs) n = (b, n')" by (metis prod.exhaust)
    with res [OF n, of "rs_resource rs"] have "I n'" by simp
    then have "I (snd (any_st (\<lambda>ss. any_st (string_span env key) (ss_spans ss)) (rs_scopes rs) n'))"
      by (intro keep spn)
    with r \<open>I n'\<close> show "I (snd (case string_resource env key (rs_resource rs) n of (b, s') \<Rightarrow>
        if b then (True, s') else any_st (\<lambda>ss. any_st (string_span env key) (ss_spans ss)) (rs_scopes rs) s'))"
      by simp
  qed (simp add: I_def)
  then show ?thesis using assms by (simp add: I_def)
qed

lemma Evaluate_skeleton:
  shows "skeleton (snd (Evaluate env e t)) = skeleton e"
    and "map skeleton (snd (snd (allSubsMatch env es t))) = map skeleton es"
  by (induction env e t and env es t rule: Evaluate_allSubsMatch.induct)
    (auto split: prod.splits Decision.splits simp del: stringAttribute_Evaluate_def dest: string_filter_skeleton)

lemma Chain_skeleton: "same_policies es (snd (Chain_Evaluate (Evaluate env) es t))"
  unfolding same_policies_skeleton
proof (induction es)
  case (Cons e es)
  obtain d x e' where "Evaluate env e t = ((d, x), e')" by (metis prod.exhaust)
  with Evaluate_skeleton(1) [of env e t] Cons show ?case by (auto split: prod.split)
qed simp

lemma evaluate_all_skeleton: "same_policies es (evaluate_all env ts es)"
proof (induction ts arbitrary: es)
  case (Cons t ts)
  then show ?case using Chain_skeleton [of es env t] by (simp add: evaluate_all_def same_policies_skeleton)
qed (simp add: evaluate_all_def same_policies_skeleton)

lemma same_policies_ok:
  assumes "same_policies es es'"
  shows "list_all policy_ok es' = list_all policy_ok es" and "map policy_type es' = map policy_type es"
proof -
  have "list_all policy_ok (map skeleton xs) = list_all policy_ok xs" "map policy_type (map skeleton xs) = map policy_type xs"
    for xs :: "('a, 'b, 'c) Evaluator list"
    by (simp_all add: list_all_iff skeleton_ok)
  then show "list_all policy_ok es' = list_all policy_ok es" "map policy_type es' = map policy_type es"
    using assms unfolding same_policies_skeleton by metis+
qed

section \<open>Built policies are well typed\<close>

text \<open>C28: A configuration that \<open>Build\<close> accepts is turned into one policy per entry, in order, each of the
  type its entry names and well formed (status codes, values, conditions present as its constructor demands,
  no compound policy inside a compound one); and this type is preserved: after any number of batches the
  chain is the same but for the contents of its caches.\<close>

theorem built_policies_typed:
  assumes "Build env oob ps = Inr es"
  shows "same_policies es (evaluate_all env ts es) \<and> list_all policy_ok (evaluate_all env ts es) \<and>
    map policy_type (evaluate_all env ts es) = map (pc_Type \<circ> pol_Shared) ps"
  using Build_ok [OF assms] same_policies_ok [OF evaluate_all_skeleton [of es env ts]] evaluate_all_skeleton by metis

theorem built_policies_typed_witness:
  "\<exists>es. Build exEnv (\<lambda>_. 0) [exPolicy Drop StatusCode, exPolicy Not StringAttribute, exPolicy TraceState Drop] = Inr es \<and>
     map policy_type (evaluate_all exEnv [exTraces, exTraces] es) = [Drop, Not, TraceState]"
proof -
  obtain es where es:
    "Build exEnv (\<lambda>_. 0) [exPolicy Drop StatusCode, exPolicy Not StringAttribute, exPolicy TraceState Drop] = Inr es"
    by (simp add: exPolicy_def exShared_def exEnv_def buildPolicy_def buildDropPolicy_def buildNotPolicy_def
        buildShared_def NewStatusCodeFilter_def NewStringAttributeFilter_def Let_def)
  from built_policies_typed [OF es, of "[exTraces, exTraces]"] es show ?thesis by (auto simp: exPolicy_def)
qed

end
