(* ===== verification/Coord_Server.thy ===== *)
theory Coord_Server
  imports Prelude
begin

text \<open>
  The coordinator's gRPC server (\<open>coordinator/server/server.go\<close>): \<open>New\<close>, \<open>Broadcast\<close> and \<open>Connect\<close>
  with its receiving loop and its sending goroutine.

  A connection is a \<open>streamEntry\<close>, numbered in the order of the calls of \<open>Connect\<close>; \<open>sv_streams\<close> is the
  map from the random IDs to the connections. The mutex makes each use of the map one step. The
  peer of a stream is the environment: it decides what \<open>Recv\<close> returns, whether \<open>Send\<close> succeeds, and
  when the flush timer fires. A counter that is nil is \<open>None\<close>; the size of a message
  (\<open>proto.Size\<close>) is a parameter.

  \<open>se_offered\<close>, \<open>se_batches\<close> (with whether the \<open>Send\<close> succeeded), \<open>se_refused\<close> and \<open>se_cut\<close> record
  what happened on a connection, for the properties: the decisions put into its channel, those
  passed to \<open>Send\<close>, the number refused because the channel was full, and the batch under
  collection when the connection ended.
\<close>

definition maxBatchSize :: nat where "maxBatchSize = 256"

definition streamCap :: nat where "streamCap = 256"

datatype senderPc = SndIdle | SndDrain "bytes list" | SndSend "bytes list" | SndDone

datatype receiverPc = RcvLoop | RcvLeave | RcvReturned

record streamEntry =
  se_id :: string
  se_ch :: "bytes list"
  se_done :: bool
  se_snd :: senderPc
  se_rcv :: receiverPc
  se_offered :: "bytes list"
  se_batches :: "(bytes list \<times> bool) list"
  se_refused :: nat
  se_cut :: "bytes list"

record serverState =
  sv_streams :: "(string \<times> nat) list"
  sv_conns :: "streamEntry list"
  sv_bytesIn :: "nat option"
  sv_bytesOut :: "nat option"
  sv_droppedSends :: "nat option"
  sv_sendErrors :: "nat option"

definition server_New :: "nat option \<Rightarrow> nat option \<Rightarrow> nat option \<Rightarrow> nat option \<Rightarrow> serverState" where
  "server_New bytesIn bytesOut droppedSends sendErrors = \<lparr>sv_streams = [], sv_conns = [], sv_bytesIn = bytesIn,
     sv_bytesOut = bytesOut, sv_droppedSends = droppedSends, sv_sendErrors = sendErrors\<rparr>"

text \<open>\<open>counter.Add(n)\<close>, behind the test for nil.\<close>

definition counter_Add :: "nat \<Rightarrow> nat option \<Rightarrow> nat option" where
  "counter_Add n c = map_option (\<lambda>m. m + n) c"

section \<open>Connect\<close>

definition newEntry :: "string \<Rightarrow> streamEntry" where
  "newEntry i = \<lparr>se_id = i, se_ch = [], se_done = False, se_snd = SndIdle, se_rcv = RcvLoop, se_offered = [],
     se_batches = [], se_refused = 0, se_cut = []\<rparr>"

text \<open>\<open>randomID\<close> over the eight bytes drawn; a failure of the random source panics.\<close>

definition randomID :: "bytes \<Rightarrow> string" where
  "randomID b = hex b"

definition map_delete :: "'k \<Rightarrow> ('k \<times> 'v) list \<Rightarrow> ('k \<times> 'v) list" where
  "map_delete k m = filter (\<lambda>e. fst e \<noteq> k) m"

definition register :: "string \<Rightarrow> serverState \<Rightarrow> serverState" where
  "register i s = s\<lparr>sv_streams := (i, length (sv_conns s)) # map_delete i (sv_streams s),
     sv_conns := sv_conns s @ [newEntry i]\<rparr>"

definition upd_conn :: "nat \<Rightarrow> (streamEntry \<Rightarrow> streamEntry) \<Rightarrow> serverState \<Rightarrow> serverState" where
  "upd_conn n f s = (if n < length (sv_conns s) then s\<lparr>sv_conns := (sv_conns s)[n := f (sv_conns s ! n)]\<rparr> else s)"

text \<open>A received message: its size is counted, and a notification is passed to \<open>onNotify\<close>.\<close>

definition count_in :: "nat \<Rightarrow> serverState \<Rightarrow> serverState" where
  "count_in n s = s\<lparr>sv_bytesIn := counter_Add n (sv_bytesIn s)\<rparr>"

text \<open>The deferred function: off the map first, then \<open>close(done)\<close>.\<close>

definition leave_map :: "nat \<Rightarrow> serverState \<Rightarrow> serverState" where
  "leave_map n s = upd_conn n (\<lambda>c. c\<lparr>se_rcv := RcvLeave\<rparr>)
     (s\<lparr>sv_streams := map_delete (se_id (sv_conns s ! n)) (sv_streams s)\<rparr>)"

definition close_done :: "nat \<Rightarrow> serverState \<Rightarrow> serverState" where
  "close_done n s = upd_conn n (\<lambda>c. c\<lparr>se_rcv := RcvReturned, se_done := True\<rparr>) s"

text \<open>The sending goroutine: the first ID of a batch, the next one, and the end of the collection.\<close>

definition snd_take :: "bytes \<Rightarrow> bytes list \<Rightarrow> streamEntry \<Rightarrow> streamEntry" where
  "snd_take tid ch c = c\<lparr>se_ch := ch, se_snd := SndDrain [tid]\<rparr>"

definition snd_more :: "bytes list \<Rightarrow> bytes \<Rightarrow> bytes list \<Rightarrow> streamEntry \<Rightarrow> streamEntry" where
  "snd_more ids tid ch c = c\<lparr>se_ch := ch, se_snd := SndDrain (ids @ [tid])\<rparr>"

definition snd_batch :: "(bytes list \<Rightarrow> nat) \<Rightarrow> nat \<Rightarrow> bytes list \<Rightarrow> bool \<Rightarrow> serverState \<Rightarrow> serverState" where
  "snd_batch msgSize n ids ok s =
     upd_conn n (\<lambda>c. c\<lparr>se_snd := SndIdle, se_batches := se_batches c @ [(ids, ok)]\<rparr>)
       (s\<lparr>sv_bytesOut := counter_Add (msgSize ids) (sv_bytesOut s),
          sv_sendErrors := (if ok then sv_sendErrors s else counter_Add 1 (sv_sendErrors s))\<rparr>)"

text \<open>\<open>done\<close>: what is still in the channel is counted as dropped; a batch under collection is not.\<close>

definition snd_done :: "nat \<Rightarrow> bytes list \<Rightarrow> serverState \<Rightarrow> serverState" where
  "snd_done n ids s =
     upd_conn n (\<lambda>c. c\<lparr>se_snd := SndDone, se_cut := ids\<rparr>)
       (s\<lparr>sv_droppedSends := (if 0 < length (se_ch (sv_conns s ! n))
            then counter_Add (length (se_ch (sv_conns s ! n))) (sv_droppedSends s) else sv_droppedSends s)\<rparr>)"

section \<open>Broadcast\<close>

definition offer :: "bytes \<Rightarrow> streamEntry \<Rightarrow> streamEntry" where
  "offer tid c = (case try_send streamCap tid (se_ch c) of
       Some ch \<Rightarrow> c\<lparr>se_ch := ch, se_offered := se_offered c @ [tid]\<rparr>
     | None \<Rightarrow> c\<lparr>se_refused := Suc (se_refused c)\<rparr>)"

definition Broadcast_one :: "bytes \<Rightarrow> nat \<Rightarrow> serverState \<Rightarrow> serverState" where
  "Broadcast_one tid n s =
     upd_conn n (offer tid)
       (if n < length (sv_conns s) \<and> try_send streamCap tid (se_ch (sv_conns s ! n)) = None
        then s\<lparr>sv_droppedSends := counter_Add 1 (sv_droppedSends s)\<rparr> else s)"

definition Broadcast :: "bytes \<Rightarrow> serverState \<Rightarrow> serverState" where
  "Broadcast tid s = fold (Broadcast_one tid) (map snd (sv_streams s)) s"

section \<open>The server as a step relation\<close>

datatype serverLabel =
    LConnect string
  | LRecvNotify nat bytes
  | LRecvOther nat
  | LRecvEnd nat
  | LLeave nat
  | LSender nat
  | LBroadcast bytes

inductive server_step :: "(bytes list \<Rightarrow> nat) \<Rightarrow> serverState \<Rightarrow> serverLabel \<Rightarrow> serverState \<Rightarrow> bool"
  for msgSize :: "bytes list \<Rightarrow> nat" where
  sv_connect: "length b = 8 \<Longrightarrow> server_step msgSize s (LConnect (randomID b)) (register (randomID b) s)"
| sv_notify: "n < length (sv_conns s) \<Longrightarrow> se_rcv (sv_conns s ! n) = RcvLoop \<Longrightarrow>
    server_step msgSize s (LRecvNotify n tid) (count_in m s)"
| sv_other: "n < length (sv_conns s) \<Longrightarrow> se_rcv (sv_conns s ! n) = RcvLoop \<Longrightarrow>
    server_step msgSize s (LRecvOther n) (count_in m s)"
| sv_end: "n < length (sv_conns s) \<Longrightarrow> se_rcv (sv_conns s ! n) = RcvLoop \<Longrightarrow>
    server_step msgSize s (LRecvEnd n) (leave_map n s)"
| sv_leave: "n < length (sv_conns s) \<Longrightarrow> se_rcv (sv_conns s ! n) = RcvLeave \<Longrightarrow>
    server_step msgSize s (LLeave n) (close_done n s)"
| sv_take: "n < length (sv_conns s) \<Longrightarrow> se_snd (sv_conns s ! n) = SndIdle \<Longrightarrow>
    chan_recv (se_ch (sv_conns s ! n)) = Some (tid, ch) \<Longrightarrow>
    server_step msgSize s (LSender n) (upd_conn n (snd_take tid ch) s)"
| sv_more: "n < length (sv_conns s) \<Longrightarrow> se_snd (sv_conns s ! n) = SndDrain ids \<Longrightarrow> length ids < maxBatchSize \<Longrightarrow>
    chan_recv (se_ch (sv_conns s ! n)) = Some (tid, ch) \<Longrightarrow>
    server_step msgSize s (LSender n) (upd_conn n (snd_more ids tid ch) s)"
| sv_flush: "n < length (sv_conns s) \<Longrightarrow> se_snd (sv_conns s ! n) = SndDrain ids \<Longrightarrow>
    server_step msgSize s (LSender n) (upd_conn n (\<lambda>c. c\<lparr>se_snd := SndSend ids\<rparr>) s)"
| sv_send: "n < length (sv_conns s) \<Longrightarrow> se_snd (sv_conns s ! n) = SndSend ids \<Longrightarrow>
    server_step msgSize s (LSender n) (snd_batch msgSize n ids ok s)"
| sv_drain_done: "n < length (sv_conns s) \<Longrightarrow> se_snd (sv_conns s ! n) = SndDrain ids \<Longrightarrow> length ids < maxBatchSize \<Longrightarrow>
    se_done (sv_conns s ! n) \<Longrightarrow> server_step msgSize s (LSender n) (snd_done n ids s)"
| sv_idle_done: "n < length (sv_conns s) \<Longrightarrow> se_snd (sv_conns s ! n) = SndIdle \<Longrightarrow>
    se_done (sv_conns s ! n) \<Longrightarrow> server_step msgSize s (LSender n) (snd_done n [] s)"
| sv_broadcast: "server_step msgSize s (LBroadcast tid) (Broadcast tid s)"

section \<open>The invariant\<close>

text \<open>The decisions the sending goroutine has taken and not yet passed to \<open>Send\<close>.\<close>

definition collecting :: "streamEntry \<Rightarrow> bytes list" where
  "collecting c = (case se_snd c of SndDrain ids \<Rightarrow> ids | SndSend ids \<Rightarrow> ids | _ \<Rightarrow> [])"

definition sent :: "streamEntry \<Rightarrow> bytes list" where
  "sent c = concat (map fst (se_batches c))"

definition conn_ok :: "streamEntry \<Rightarrow> bool" where
  "conn_ok c \<longleftrightarrow> length (se_ch c) \<le> streamCap \<and> se_offered c = sent c @ collecting c @ se_cut c @ se_ch c \<and>
     (\<forall>b \<in> set (se_batches c). 0 < length (fst b) \<and> length (fst b) \<le> maxBatchSize) \<and>
     length (collecting c) \<le> maxBatchSize \<and> (se_snd c \<noteq> SndDone \<longrightarrow> se_cut c = []) \<and>
     (\<forall>ids. se_snd c \<in> {SndDrain ids, SndSend ids} \<longrightarrow> ids \<noteq> []) \<and>
     (se_snd c = SndDone \<longrightarrow> se_done c) \<and> (se_done c \<longrightarrow> se_rcv c = RcvReturned)"

text \<open>What a connection has added to the count of dropped decisions.\<close>

definition counted :: "streamEntry \<Rightarrow> nat" where
  "counted c = se_refused c + (if se_snd c = SndDone then length (se_ch c) else 0)"

definition streams_ok :: "serverState \<Rightarrow> bool" where
  "streams_ok s \<longleftrightarrow> distinct (map fst (sv_streams s)) \<and> (\<forall>(i, n) \<in> set (sv_streams s).
     n < length (sv_conns s) \<and> se_id (sv_conns s ! n) = i \<and> se_rcv (sv_conns s ! n) = RcvLoop)"

definition server_inv :: "nat option \<Rightarrow> serverState \<Rightarrow> bool" where
  "server_inv d s \<longleftrightarrow> (\<forall>c \<in> set (sv_conns s). conn_ok c) \<and> streams_ok s \<and>
     sv_droppedSends s = counter_Add (sum_list (map counted (sv_conns s))) d"

lemma streams_distinct: "streams_ok s \<Longrightarrow> distinct (map snd (sv_streams s))"
proof -
  assume ok: "streams_ok s"
  have "inj_on snd (set (sv_streams s))"
  proof (rule inj_onI)
    fix x y assume "x \<in> set (sv_streams s)" "y \<in> set (sv_streams s)" "snd x = snd y"
    moreover have "fst z = se_id (sv_conns s ! snd z)" if "z \<in> set (sv_streams s)" for z
      using ok that by (auto simp: streams_ok_def)
    ultimately show "x = y" by (metis prod.expand)
  qed
  with ok show ?thesis by (simp add: streams_ok_def distinct_map)
qed

lemma counter_Add_Add [simp]: "counter_Add m (counter_Add n c) = counter_Add (n + m) c" "counter_Add 0 c = c"
  by (cases c; simp add: counter_Add_def)+

lemma sum_counted_upd:
  "n < length cs \<Longrightarrow> counted c' = counted (cs ! n) + m \<Longrightarrow>
   sum_list (map counted (cs[n := c'])) = sum_list (map counted cs) + m"
proof (induction cs arbitrary: n)
  case (Cons c cs)
  then show ?case by (cases n) auto
qed simp

text \<open>Changing one connection, with what it adds to the count.\<close>

lemma upd_conn_inv:
  assumes "\<forall>c \<in> set (sv_conns s). conn_ok c" and "streams_ok s" and n: "n < length (sv_conns s)"
    and "sv_droppedSends s = counter_Add (sum_list (map counted (sv_conns s)) + m) d"
    and "conn_ok (f (sv_conns s ! n))" and "counted (f (sv_conns s ! n)) = counted (sv_conns s ! n) + m"
    and "se_id (f (sv_conns s ! n)) = se_id (sv_conns s ! n)"
    and "se_rcv (f (sv_conns s ! n)) = se_rcv (sv_conns s ! n) \<or> n \<notin> snd ` set (sv_streams s)"
  shows "server_inv d (upd_conn n f s)"
proof -
  have "conn_ok c" if "c \<in> set ((sv_conns s)[n := f (sv_conns s ! n)])" for c
    using that assms(1,5) set_update_subset_insert [of "sv_conns s" n] by fastforce
  moreover have "streams_ok (upd_conn n f s)"
  proof -
    have "se_id ((sv_conns s)[n := f (sv_conns s ! n)] ! k) = i \<and> se_rcv ((sv_conns s)[n := f (sv_conns s ! n)] ! k) = RcvLoop"
      if "(i, k) \<in> set (sv_streams s)" for i k
    proof -
      have "se_id (sv_conns s ! k) = i" "se_rcv (sv_conns s ! k) = RcvLoop" "k \<in> snd ` set (sv_streams s)"
        using that assms(2) by (force simp: streams_ok_def)+
      then show ?thesis using assms(7,8) n by (cases "k = n") auto
    qed
    then show ?thesis using assms(2) n by (auto simp: streams_ok_def upd_conn_def)
  qed
  ultimately show ?thesis
    using n assms(4) sum_counted_upd [OF n assms(6)] by (simp add: server_inv_def upd_conn_def)
qed

lemma offer_ok: "conn_ok c \<Longrightarrow> se_rcv c = RcvLoop \<Longrightarrow> conn_ok (offer tid c)"
  by (auto simp: conn_ok_def offer_def try_send_def collecting_def sent_def split: option.splits if_splits senderPc.splits)

lemma offer_frame [simp]:
  "se_id (offer tid c) = se_id c" "se_rcv (offer tid c) = se_rcv c" "se_snd (offer tid c) = se_snd c"
  "se_done (offer tid c) = se_done c"
  by (simp_all add: offer_def split: option.split)

lemma counted_offer:
  "se_snd c \<noteq> SndDone \<Longrightarrow> counted (offer tid c) = counted c + (if try_send streamCap tid (se_ch c) = None then 1 else 0)"
  by (simp add: counted_def offer_def split: option.split)

lemma Broadcast_one_inv:
  assumes I: "server_inv d s" and "n \<in> snd ` set (sv_streams s)"
  shows "server_inv d (Broadcast_one tid n s)" and "sv_streams (Broadcast_one tid n s) = sv_streams s"
proof -
  let ?m = "if try_send streamCap tid (se_ch (sv_conns s ! n)) = None then 1 else 0 :: nat"
  let ?s = "s\<lparr>sv_droppedSends := counter_Add ?m (sv_droppedSends s)\<rparr>"
  have n: "n < length (sv_conns s)" "se_rcv (sv_conns s ! n) = RcvLoop" "conn_ok (sv_conns s ! n)"
    using assms by (auto simp: server_inv_def streams_ok_def)
  then have nd: "se_snd (sv_conns s ! n) \<noteq> SndDone" by (auto simp: conn_ok_def)
  have b: "Broadcast_one tid n s = upd_conn n (offer tid) ?s" using n(1) by (simp add: Broadcast_one_def)
  then show "sv_streams (Broadcast_one tid n s) = sv_streams s" by (simp add: upd_conn_def)
  have "\<forall>c \<in> set (sv_conns ?s). conn_ok c" "streams_ok ?s"
    "sv_droppedSends ?s = counter_Add (sum_list (map counted (sv_conns ?s)) + ?m) d"
    using I by (auto simp: server_inv_def streams_ok_def)
  then show "server_inv d (Broadcast_one tid n s)"
    unfolding b using n offer_ok [OF n(3,2)] counted_offer [OF nd] by (intro upd_conn_inv [where m = ?m]) simp_all
qed

lemma Broadcast_inv: "server_inv d s \<Longrightarrow> server_inv d (Broadcast tid s)"
proof -
  have "set ns \<subseteq> snd ` set (sv_streams s) \<Longrightarrow> server_inv d s \<Longrightarrow> server_inv d (fold (Broadcast_one tid) ns s)" for ns s
    by (induction ns arbitrary: s) (simp_all add: Broadcast_one_inv)
  then show "server_inv d s \<Longrightarrow> server_inv d (Broadcast tid s)" unfolding Broadcast_def by simp
qed

lemma map_delete_ok: "streams_ok s \<Longrightarrow> streams_ok (s\<lparr>sv_streams := map_delete i (sv_streams s)\<rparr>)"
  by (auto simp: streams_ok_def map_delete_def distinct_map_filter)

lemma register_inv:
  assumes "server_inv d s"
  shows "server_inv d (register i s)"
proof -
  have "streams_ok (register i s)"
    using assms by (auto simp: server_inv_def streams_ok_def register_def map_delete_def distinct_map_filter
        newEntry_def nth_append)
  moreover have "conn_ok (newEntry i)" "counted (newEntry i) = 0"
    by (simp_all add: conn_ok_def newEntry_def collecting_def sent_def counted_def)
  ultimately show ?thesis using assms by (simp add: server_inv_def register_def)
qed

lemma leave_map_inv:
  assumes I: "server_inv d s" and n: "n < length (sv_conns s)" and r: "se_rcv (sv_conns s ! n) = RcvLoop"
  shows "server_inv d (leave_map n s)"
proof -
  let ?s = "s\<lparr>sv_streams := map_delete (se_id (sv_conns s ! n)) (sv_streams s)\<rparr>"
  have "n \<notin> snd ` set (sv_streams ?s)" using I by (auto simp: server_inv_def streams_ok_def map_delete_def)
  moreover have "conn_ok (sv_conns s ! n)" using I n by (simp add: server_inv_def)
  then have "conn_ok ((sv_conns s ! n)\<lparr>se_rcv := RcvLeave\<rparr>)"
    using r by (auto simp: conn_ok_def collecting_def sent_def)
  ultimately show ?thesis
    unfolding leave_map_def using I n map_delete_ok [of s]
    by (intro upd_conn_inv [where m = 0]) (auto simp: server_inv_def counted_def)
qed

lemma snd_done_inv:
  assumes I: "server_inv d s" and n: "n < length (sv_conns s)" and dn: "se_done (sv_conns s ! n)"
    and ids: "se_snd (sv_conns s ! n) = SndDrain ids \<or> se_snd (sv_conns s ! n) = SndIdle \<and> ids = []"
  shows "server_inv d (snd_done n ids s)"
proof -
  let ?c = "sv_conns s ! n"
  let ?s = "s\<lparr>sv_droppedSends := counter_Add (length (se_ch ?c)) (sv_droppedSends s)\<rparr>"
  have b: "snd_done n ids s = upd_conn n (\<lambda>c. c\<lparr>se_snd := SndDone, se_cut := ids\<rparr>) ?s" by (simp add: snd_done_def)
  have "conn_ok ?c" using I n by (simp add: server_inv_def)
  then have ok: "conn_ok (?c\<lparr>se_snd := SndDone, se_cut := ids\<rparr>)"
    using ids dn by (auto simp: conn_ok_def collecting_def sent_def)
  have c: "counted (?c\<lparr>se_snd := SndDone, se_cut := ids\<rparr>) = counted ?c + length (se_ch ?c)"
    using ids by (auto simp: counted_def)
  have "\<forall>c \<in> set (sv_conns ?s). conn_ok c" "streams_ok ?s"
    "sv_droppedSends ?s = counter_Add (sum_list (map counted (sv_conns ?s)) + length (se_ch ?c)) d"
    using I by (auto simp: server_inv_def streams_ok_def)
  then show ?thesis unfolding b using n ok c by (intro upd_conn_inv [where m = "length (se_ch ?c)"]) simp_all
qed

text \<open>A step of the sending goroutine that leaves the counters of dropped decisions alone.\<close>

lemma snd_inv:
  assumes "server_inv d s" and "n < length (sv_conns s)"
    and "conn_ok (sv_conns s ! n) \<Longrightarrow> conn_ok (f (sv_conns s ! n))" and "counted (f (sv_conns s ! n)) = counted (sv_conns s ! n)"
    and "se_id (f (sv_conns s ! n)) = se_id (sv_conns s ! n)" and "se_rcv (f (sv_conns s ! n)) = se_rcv (sv_conns s ! n)"
  shows "server_inv d (upd_conn n f s)"
  using assms by (intro upd_conn_inv [where m = 0]) (auto simp: server_inv_def)

lemma count_in_inv: "server_inv d s \<Longrightarrow> server_inv d (count_in m s)"
  by (simp add: count_in_def server_inv_def streams_ok_def)

lemma server_step_inv:
  assumes "server_step msgSize s l t" and I: "server_inv d s"
  shows "server_inv d t"
  using assms(1)
proof cases
  case (sv_leave n)
  have "n \<notin> snd ` set (sv_streams s)" using I sv_leave(4) by (force simp: server_inv_def streams_ok_def)
  moreover have "conn_ok (sv_conns s ! n)" using I sv_leave(3) by (simp add: server_inv_def)
  then have "conn_ok ((sv_conns s ! n)\<lparr>se_rcv := RcvReturned, se_done := True\<rparr>)"
    by (auto simp: conn_ok_def collecting_def sent_def)
  ultimately show ?thesis
    unfolding sv_leave(2) close_done_def using I sv_leave(3)
    by (intro upd_conn_inv [where m = 0]) (auto simp: server_inv_def counted_def)
next
  case (sv_take n tid ch)
  then show ?thesis
    using I chan.recv_Some [OF sv_take(5)]
    by (auto intro!: snd_inv simp: conn_ok_def snd_take_def collecting_def sent_def counted_def maxBatchSize_def)
next
  case (sv_more n ids tid ch)
  then show ?thesis
    using I chan.recv_Some [OF sv_more(6)]
    by (auto intro!: snd_inv simp: conn_ok_def snd_more_def collecting_def sent_def counted_def)
next
  case (sv_flush n ids)
  then show ?thesis using I by (auto intro!: snd_inv simp: conn_ok_def collecting_def sent_def counted_def)
next
  case (sv_send n ids ok)
  let ?s = "s\<lparr>sv_bytesOut := counter_Add (msgSize ids) (sv_bytesOut s),
      sv_sendErrors := (if ok then sv_sendErrors s else counter_Add 1 (sv_sendErrors s))\<rparr>"
  have "server_inv d ?s" using I by (simp add: server_inv_def streams_ok_def)
  then show ?thesis
    unfolding sv_send(2) snd_batch_def using sv_send(3,4)
    by (auto intro!: snd_inv simp: conn_ok_def collecting_def sent_def counted_def)
next
  case (sv_broadcast tid)
  then show ?thesis using I Broadcast_inv by simp
qed (use I in \<open>auto simp: register_inv leave_map_inv snd_done_inv count_in_inv\<close>)

lemma server_reach_inv: "run (server_step msgSize) (server_New bi bo d se) ls s \<Longrightarrow> server_inv d s"
  using run_invariant [of "server_step msgSize" "server_New bi bo d se" ls s "server_inv d"] server_step_inv
  by (auto simp: server_inv_def streams_ok_def server_New_def)

text \<open>What \<open>Broadcast\<close> does to each connection.\<close>

lemma Broadcast_conns:
  assumes "streams_ok s" and "n < length (sv_conns s)"
  shows "sv_conns (Broadcast tid s) ! n =
    (if n \<in> snd ` set (sv_streams s) then offer tid (sv_conns s ! n) else sv_conns s ! n)"
proof -
  have len: "length (sv_conns (Broadcast_one tid m s)) = length (sv_conns s)" for m s
    by (simp add: Broadcast_one_def upd_conn_def)
  have "distinct ns \<Longrightarrow> n < length (sv_conns s) \<Longrightarrow> sv_conns (fold (Broadcast_one tid) ns s) ! n =
      (if n \<in> set ns then offer tid (sv_conns s ! n) else sv_conns s ! n)" for ns s
  proof (induction ns arbitrary: s)
    case (Cons m ns)
    have "sv_conns (Broadcast_one tid m s) ! n = (if n = m then offer tid (sv_conns s ! n) else sv_conns s ! n)"
      using Cons.prems(2) by (auto simp: Broadcast_one_def upd_conn_def)
    then show ?case using Cons len by auto
  qed simp
  from this [OF streams_distinct [OF assms(1)] assms(2)] show ?thesis by (simp add: Broadcast_def)
qed

text \<open>As long as no two connections draw the same random ID, every open connection is in the map.\<close>

fun connect_ids :: "serverLabel list \<Rightarrow> string list" where
  "connect_ids [] = []"
| "connect_ids (LConnect i # ls) = i # connect_ids ls"
| "connect_ids (_ # ls) = connect_ids ls"

lemma connect_ids_append [simp]: "connect_ids (xs @ ys) = connect_ids xs @ connect_ids ys"
  by (induction xs rule: connect_ids.induct) auto

definition all_listed :: "serverState \<Rightarrow> bool" where
  "all_listed s \<longleftrightarrow> (\<forall>n < length (sv_conns s). se_rcv (sv_conns s ! n) = RcvLoop \<longrightarrow>
     (se_id (sv_conns s ! n), n) \<in> set (sv_streams s))"

lemma upd_conn_ids: "(\<And>c. se_id (f c) = se_id c) \<Longrightarrow> map se_id (sv_conns (upd_conn n f s)) = map se_id (sv_conns s)"
  by (simp add: upd_conn_def map_update list_update_same_conv)

lemma Broadcast_frame:
  "map se_id (sv_conns (Broadcast tid s)) = map se_id (sv_conns s)"
  "map se_rcv (sv_conns (Broadcast tid s)) = map se_rcv (sv_conns s)"
  "sv_streams (Broadcast tid s) = sv_streams s"
proof -
  have "map se_id (sv_conns (fold (Broadcast_one tid) ns s)) = map se_id (sv_conns s) \<and>
      map se_rcv (sv_conns (fold (Broadcast_one tid) ns s)) = map se_rcv (sv_conns s) \<and>
      sv_streams (fold (Broadcast_one tid) ns s) = sv_streams s" for ns
    by (induction ns arbitrary: s)
      (simp_all add: Broadcast_one_def upd_conn_def map_update list_update_same_conv)
  then show "map se_id (sv_conns (Broadcast tid s)) = map se_id (sv_conns s)"
    "map se_rcv (sv_conns (Broadcast tid s)) = map se_rcv (sv_conns s)"
    "sv_streams (Broadcast tid s) = sv_streams s" by (simp_all add: Broadcast_def)
qed

lemma server_step_ids:
  assumes "server_step msgSize s l t"
  shows "map se_id (sv_conns t) = map se_id (sv_conns s) @ connect_ids [l]"
  using assms
  by cases (simp_all add: register_def newEntry_def count_in_def leave_map_def close_done_def snd_take_def snd_more_def
    snd_batch_def snd_done_def upd_conn_ids Broadcast_frame)

lemma listed_upd:
  assumes A: "all_listed s" and i: "\<And>c. se_id (f c) = se_id c" and r: "\<And>c. se_rcv (f c) = RcvLoop \<Longrightarrow> se_rcv c = RcvLoop"
  shows "all_listed (upd_conn n f s)"
  unfolding all_listed_def
proof (intro allI impI)
  fix m assume m: "m < length (sv_conns (upd_conn n f s))" "se_rcv (sv_conns (upd_conn n f s) ! m) = RcvLoop"
  have c: "sv_conns (upd_conn n f s) ! m = (if m = n then f (sv_conns s ! m) else sv_conns s ! m)"
    using m(1) by (auto simp: upd_conn_def split: if_splits)
  have l: "m < length (sv_conns s)" using m(1) by (simp add: upd_conn_def split: if_splits)
  have "se_rcv (sv_conns s ! m) = RcvLoop" using m(2) r unfolding c by (cases "m = n") simp_all
  then have "(se_id (sv_conns s ! m), m) \<in> set (sv_streams s)" using A l unfolding all_listed_def by blast
  moreover have "sv_streams (upd_conn n f s) = sv_streams s" by (simp add: upd_conn_def)
  ultimately show "(se_id (sv_conns (upd_conn n f s) ! m), m) \<in> set (sv_streams (upd_conn n f s))"
    unfolding c by (auto simp: i)
qed

lemma listed_counters:
  "all_listed s \<Longrightarrow> sv_conns t = sv_conns s \<Longrightarrow> sv_streams t = sv_streams s \<Longrightarrow> all_listed t"
  by (simp add: all_listed_def)

lemma server_step_listed:
  assumes "server_step msgSize s l t" and A: "all_listed s" and ok: "streams_ok s" and d: "distinct (map se_id (sv_conns t))"
  shows "all_listed t"
  using assms(1)
proof cases
  case (sv_connect b)
  let ?i = "randomID b"
  have "?i \<notin> set (map se_id (sv_conns s))" using d unfolding sv_connect(2) by (simp add: register_def newEntry_def)
  then have "\<forall>m < length (sv_conns s). se_id (sv_conns s ! m) \<noteq> ?i" by (metis length_map nth_map nth_mem)
  then show ?thesis
    using A unfolding sv_connect(2)
    by (auto simp: all_listed_def register_def newEntry_def map_delete_def nth_append)
next
  case (sv_end n)
  have ids: "se_id (sv_conns s ! m) \<noteq> se_id (sv_conns s ! n)" if "m < length (sv_conns s)" "m \<noteq> n" for m
    using d that sv_end(3) server_step_ids [OF assms(1)] unfolding sv_end(1)
    by (metis append_Nil2 connect_ids.simps(1,5) distinct_conv_nth length_map nth_map)
  show ?thesis
    unfolding sv_end(2) all_listed_def
    using A ids sv_end(3) by (auto simp: all_listed_def leave_map_def upd_conn_def map_delete_def nth_list_update)
next
  case (sv_broadcast tid)
  have "length (sv_conns t) = length (sv_conns s)" using Broadcast_frame(1) sv_broadcast by (metis length_map)
  moreover have "se_rcv (sv_conns t ! n) = se_rcv (sv_conns s ! n)" "se_id (sv_conns t ! n) = se_id (sv_conns s ! n)"
    if "n < length (sv_conns s)" for n
    using Broadcast_frame(1,2) [of tid s] sv_broadcast that calculation by (metis nth_map)+
  ultimately show ?thesis using A Broadcast_frame(3) [of tid s] sv_broadcast(2) by (simp add: all_listed_def)
qed (auto simp: count_in_def close_done_def snd_take_def snd_more_def snd_batch_def snd_done_def
    intro!: listed_upd intro: listed_counters [OF A])

lemma server_reach_listed:
  assumes "run (server_step msgSize) (server_New bi bo d se) ls s" and "distinct (connect_ids ls)"
  shows "all_listed s"
proof -
  have "map se_id (sv_conns s) = connect_ids ls \<and> (distinct (connect_ids ls) \<longrightarrow> all_listed s)"
    using assms(1)
  proof (induction rule: run.induct)
    case run_nil
    then show ?case by (simp add: server_New_def all_listed_def)
  next
    case (run_snoc ls t l u)
    have "streams_ok t" using server_reach_inv [OF run_snoc(1)] by (simp add: server_inv_def)
    then show ?case
      using run_snoc.IH server_step_ids [OF run_snoc.hyps(2)] server_step_listed [OF run_snoc.hyps(2)] by auto
  qed
  with assms(2) show ?thesis by simp
qed

text \<open>Only \<open>Broadcast\<close> adds to what a connection is offered.\<close>

lemma upd_conn_offered:
  "(\<And>c. se_offered (f c) = se_offered c) \<Longrightarrow>
   map se_offered (sv_conns (upd_conn n f s)) = map se_offered (sv_conns s)"
  by (simp add: upd_conn_def map_update list_update_same_conv)

lemma server_offered:
  assumes "server_step msgSize s l t" and "\<And>tid. l \<noteq> LBroadcast tid"
  shows "set (map se_offered (sv_conns t)) \<subseteq> insert [] (set (map se_offered (sv_conns s)))"
proof -
  have "map se_offered (sv_conns t) = map se_offered (sv_conns s) \<or> map se_offered (sv_conns t) = map se_offered (sv_conns s) @ [[]]"
    using assms(1)
    by cases (simp_all add: assms(2) register_def newEntry_def count_in_def leave_map_def close_done_def
      snd_batch_def snd_done_def snd_take_def snd_more_def upd_conn_offered)
  then show ?thesis by (metis Un_insert_right empty_set list.simps(15) set_append subset_insertI sup_bot.right_neutral order_refl)
qed

lemma Broadcast_offered:
  assumes "streams_ok s" and "c \<in> set (sv_conns (Broadcast tid s))"
  shows "\<exists>c' \<in> set (sv_conns s). se_offered c = se_offered c' \<or> se_offered c = se_offered c' @ [tid]"
proof -
  have len: "length (sv_conns (fold (Broadcast_one tid) ns s)) = length (sv_conns s)" for ns s
    by (induction ns arbitrary: s) (simp_all add: Broadcast_one_def upd_conn_def)
  obtain n where n: "n < length (sv_conns s)" "c = sv_conns (Broadcast tid s) ! n"
    using assms(2) len by (auto simp: in_set_conv_nth Broadcast_def)
  have "se_offered (offer tid d) = se_offered d \<or> se_offered (offer tid d) = se_offered d @ [tid]" for d
    by (simp add: offer_def split: option.split)
  then show ?thesis using n Broadcast_conns [OF assms(1) n(1), of tid] by (intro bexI [of _ "sv_conns s ! n"]) auto
qed

text \<open>
  \<open>offers P\<close>: every connection has been offered a list that satisfies \<open>P\<close>. The server's own steps
  keep it; a broadcast keeps it for the lists extended by its ID.
\<close>

definition offers :: "(bytes list \<Rightarrow> bool) \<Rightarrow> serverState \<Rightarrow> bool" where
  "offers P s \<longleftrightarrow> server_inv (Some 0) s \<and> (\<forall>c \<in> set (sv_conns s). P (se_offered c))"

lemma offers_mono: "offers P s \<Longrightarrow> (\<And>xs. P xs \<Longrightarrow> P' xs) \<Longrightarrow> offers P' s"
  by (simp add: offers_def)

lemma offers_New: "offers P (server_New bi bo (Some 0) se)"
  by (simp add: offers_def server_New_def server_inv_def streams_ok_def counter_Add_def)

lemma offers_step:
  assumes "server_step msgSize s l t" and "\<And>tid. l \<noteq> LBroadcast tid" and "offers P s" and "P []"
  shows "offers P t"
proof -
  have "P (se_offered c)" if c: "c \<in> set (sv_conns t)" for c
  proof -
    have "se_offered c = [] \<or> se_offered c \<in> se_offered ` set (sv_conns s)"
      using server_offered [OF assms(1,2)] c by auto
    then show ?thesis using assms(3,4) by (auto simp: offers_def)
  qed
  then show ?thesis using assms(3) server_step_inv [OF assms(1)] by (simp add: offers_def)
qed

lemma offers_Broadcast:
  assumes "offers P s" and "\<And>xs. P xs \<Longrightarrow> P' xs \<and> P' (xs @ [tid])"
  shows "offers P' (Broadcast tid s)"
proof -
  have ok: "streams_ok s" using assms(1) by (simp add: offers_def server_inv_def)
  have "P' (se_offered c)" if c: "c \<in> set (sv_conns (Broadcast tid s))" for c
  proof -
    obtain c' where c': "c' \<in> set (sv_conns s)" "se_offered c = se_offered c' \<or> se_offered c = se_offered c' @ [tid]"
      using Broadcast_offered [OF ok c] by blast
    then have "P (se_offered c')" using assms(1) by (simp add: offers_def)
    then show ?thesis using assms(2) c'(2) by auto
  qed
  then show ?thesis using assms(1) Broadcast_inv by (simp add: offers_def)
qed

lemma offers_Broadcast_mset:
  assumes "offers (\<lambda>xs. mset xs \<subseteq># mset ys) s"
  shows "offers (\<lambda>xs. mset xs \<subseteq># mset (ys @ [tid])) (Broadcast tid s)"
proof (rule offers_Broadcast [OF assms])
  fix xs :: "bytes list" assume "mset xs \<subseteq># mset ys"
  then show "mset xs \<subseteq># mset (ys @ [tid]) \<and> mset (xs @ [tid]) \<subseteq># mset (ys @ [tid])"
    by (auto intro: subset_mset.order_trans)
qed

text \<open>What has been passed to \<open>Send\<close> was offered.\<close>

lemma offers_batch:
  assumes "offers P s" and "c \<in> set (sv_conns s)" and "(ids, ok) \<in> set (se_batches c)" and "t \<in> set ids"
  shows "t \<in> set (se_offered c) \<and> P (se_offered c)"
proof -
  have "conn_ok c" using assms(1,2) by (simp add: offers_def server_inv_def)
  then have "t \<in> set (se_offered c)" using assms(3,4) by (force simp: conn_ok_def sent_def)
  then show ?thesis using assms(1,2) by (simp add: offers_def)
qed

text \<open>The ID of a connection for which the random source gave \<open>n\<close>.\<close>

definition exConn :: "byte \<Rightarrow> string" where
  "exConn n = randomID [0, 0, 0, 0, 0, 0, 0, n]"

lemma exConn_inj [simp]: "exConn m = exConn n \<longleftrightarrow> m = n"
  using hex_inj by (fastforce simp: exConn_def randomID_def)

lemma exConnect: "server_step msgSize s (LConnect (exConn n)) (register (exConn n) s)"
  unfolding exConn_def by (rule sv_connect) simp

section \<open>Properties\<close>

text \<open>C23: A broadcast reaches every open connection. In a reachable state, as long as no two connections
  drew the same random ID, \<open>Broadcast\<close> appends the decision to the channel of exactly those
  connections whose receiving loop is running and whose channel has room (fewer than 256 waiting); the
  channel of every other connection, and the number of connections, is left alone.\<close>

theorem broadcast_reaches_all:
  assumes "run (server_step msgSize) (server_New bi bo d se) ls s" and "distinct (connect_ids ls)"
    and "n < length (sv_conns s)"
  shows "se_ch (sv_conns (Broadcast tid s) ! n) = se_ch (sv_conns s ! n) @
      (if se_rcv (sv_conns s ! n) = RcvLoop \<and> length (se_ch (sv_conns s ! n)) < 256 then [tid] else []) \<and>
    length (sv_conns (Broadcast tid s)) = length (sv_conns s)"
proof -
  have ok: "streams_ok s" using server_reach_inv [OF assms(1)] by (simp add: server_inv_def)
  have "n \<in> snd ` set (sv_streams s) \<longleftrightarrow> se_rcv (sv_conns s ! n) = RcvLoop"
  proof
    assume "n \<in> snd ` set (sv_streams s)"
    then obtain i where "(i, n) \<in> set (sv_streams s)" by auto
    then show "se_rcv (sv_conns s ! n) = RcvLoop" using ok unfolding streams_ok_def by blast
  next
    assume "se_rcv (sv_conns s ! n) = RcvLoop"
    then have "(se_id (sv_conns s ! n), n) \<in> set (sv_streams s)"
      using server_reach_listed [OF assms(1,2)] assms(3) unfolding all_listed_def by blast
    then show "n \<in> snd ` set (sv_streams s)" by force
  qed
  moreover have "length (sv_conns (Broadcast tid s)) = length (sv_conns s)"
    using Broadcast_frame(1) [of tid s] by (metis length_map)
  ultimately show ?thesis
    using Broadcast_conns [OF ok assms(3), of tid] by (simp add: offer_def try_send_def streamCap_def)
qed

theorem broadcast_reaches_all_witness:
  "\<exists>s. run (server_step length) (server_New None None None None) [LConnect (exConn 1), LConnect (exConn 2), LRecvEnd 0] s \<and>
     map se_ch (sv_conns (Broadcast [7] s)) = [[], [[7]]]"
proof -
  define a where "a = register (exConn 1) (server_New None None None None)"
  define b where "b = register (exConn 2) a"
  define s where "s = leave_map 0 b"
  note defs = a_def b_def s_def leave_map_def register_def server_New_def map_delete_def upd_conn_def newEntry_def
  have st: "server_step length (server_New None None None None) (LConnect (exConn 1)) a" "server_step length a (LConnect (exConn 2)) b"
    unfolding a_def b_def by (rule exConnect)+
  have "server_step length b (LRecvEnd 0) s" unfolding s_def by (rule sv_end) (simp_all add: defs)
  note r = run_snoc [OF run_snoc [OF run_snoc [OF run_nil [of "server_step length" "server_New None None None None"] st(1)] st(2)] this]
  have "se_ch (sv_conns (Broadcast [7] s) ! 0) = []" "se_ch (sv_conns (Broadcast [7] s) ! 1) = [[7]]"
    "length (sv_conns (Broadcast [7] s)) = 2"
    using broadcast_reaches_all [OF r, of 0 "[7]"] broadcast_reaches_all [OF r, of 1 "[7]"] by (simp_all add: defs)
  then have "map se_ch (sv_conns (Broadcast [7] s)) = [[], [[7]]]"
    by (cases "sv_conns (Broadcast [7] s)" rule: remdups_adj.cases) auto
  with r show ?thesis by auto
qed

text \<open>C24: On every stream the decisions go out in the order of the broadcasts, each at most once, in
  non-empty batches of at most 256: what was put into a connection's channel is, in order, what was
  passed to \<open>Send\<close>, then the batch under collection, then (after the connection has ended) the
  batch that was cut off, then what is still in the channel, which never holds more than 256.\<close>

theorem server_stream_fifo:
  assumes "run (server_step msgSize) (server_New bi bo d se) ls s" and "c \<in> set (sv_conns s)"
  shows "se_offered c = concat (map fst (se_batches c)) @ collecting c @ se_cut c @ se_ch c \<and>
    (\<forall>b \<in> set (se_batches c). 0 < length (fst b) \<and> length (fst b) \<le> 256) \<and> length (se_ch c) \<le> 256"
  using server_reach_inv [OF assms(1)] assms(2)
  by (simp add: server_inv_def conn_ok_def sent_def maxBatchSize_def streamCap_def)

definition exCut :: serverState where
  "exCut = \<lparr>sv_streams = [], sv_conns = [\<lparr>se_id = exConn 1, se_ch = [], se_done = True, se_snd = SndDone, se_rcv = RcvReturned,
     se_offered = [[1]], se_batches = [], se_refused = 0, se_cut = [[1]]\<rparr>], sv_bytesIn = Some 0,
     sv_bytesOut = Some 0, sv_droppedSends = Some 0, sv_sendErrors = Some 0\<rparr>"

lemma exCut_run:
  "run (server_step length) (server_New (Some 0) (Some 0) (Some 0) (Some 0))
     [LConnect (exConn 1), LBroadcast [1], LSender 0, LRecvEnd 0, LLeave 0, LSender 0] exCut"
proof -
  define s where "s = server_New (Some 0) (Some 0) (Some 0) (Some 0)"
  define a where "a = register (exConn 1) s"
  define b where "b = Broadcast [1] a"
  define c where "c = upd_conn 0 (snd_take [1] []) b"
  define d where "d = leave_map 0 c"
  define e where "e = close_done 0 d"
  note defs = s_def a_def b_def c_def d_def e_def server_New_def register_def newEntry_def map_delete_def
    Broadcast_def Broadcast_one_def upd_conn_def offer_def try_send_def streamCap_def snd_take_def leave_map_def
    close_done_def snd_done_def chan_recv_def maxBatchSize_def
  have st: "server_step length s (LConnect (exConn 1)) a" "server_step length a (LBroadcast [1]) b"
    unfolding a_def b_def by (rule exConnect sv_broadcast)+
  have c: "server_step length b (LSender 0) c" unfolding c_def by (rule sv_take) (simp_all add: defs)
  have d: "server_step length c (LRecvEnd 0) d" unfolding d_def by (rule sv_end) (simp_all add: defs)
  have e: "server_step length d (LLeave 0) e" unfolding e_def by (rule sv_leave) (simp_all add: defs)
  have "server_step length e (LSender 0) (snd_done 0 [[1]] e)" by (rule sv_drain_done) (simp_all add: defs)
  moreover have "snd_done 0 [[1]] e = exCut" by (simp add: defs exCut_def)
  ultimately have f: "server_step length e (LSender 0) exCut" by simp
  note r = run_snoc [OF run_snoc [OF run_snoc [OF run_nil [of "server_step length" s] st(1)] st(2)] c]
  note r = run_snoc [OF run_snoc [OF run_snoc [OF r d] e] f]
  then show ?thesis by (simp add: s_def)
qed

theorem server_stream_fifo_witness:
  "\<exists>c \<in> set (sv_conns exCut). se_offered c = concat (map fst (se_batches c)) @ collecting c @ se_cut c @ se_ch c"
  using server_stream_fifo [OF exCut_run, of "sv_conns exCut ! 0"] by (simp add: exCut_def)

lemma counted_cut:
  assumes "conn_ok c"
  shows "counted c + length (se_cut c) =
    se_refused c + (if se_snd c = SndDone then length (se_offered c) - length (sent c) else 0)"
  using assms by (auto simp: conn_ok_def counted_def collecting_def)

text \<open>C32: The drop counter misses cut-off batches. \<open>droppedSends\<close> plus the number of decisions that
  were being collected into a batch when their connection ended equals the number of refused
  broadcasts plus, over the connections that have ended, the number of decisions put into the
  channel and never passed to \<open>Send\<close>.\<close>

theorem server_drops_counted:
  assumes "run (server_step msgSize) (server_New bi bo (Some 0) se) ls s"
  shows "\<exists>m. sv_droppedSends s = Some m \<and>
    m + sum_list (map (\<lambda>c. length (se_cut c)) (sv_conns s)) =
      sum_list (map se_refused (sv_conns s)) +
      sum_list (map (\<lambda>c. length (se_offered c) - length (concat (map fst (se_batches c))))
        (filter (\<lambda>c. se_snd c = SndDone) (sv_conns s)))"
proof -
  have I: "server_inv (Some 0) s" using assms by (rule server_reach_inv)
  have "\<forall>c \<in> set cs. conn_ok c \<Longrightarrow>
      sum_list (map counted cs) + sum_list (map (\<lambda>c. length (se_cut c)) cs) = sum_list (map se_refused cs) +
      sum_list (map (\<lambda>c. length (se_offered c) - length (sent c)) (filter (\<lambda>c. se_snd c = SndDone) cs))" for cs
  proof (induction cs)
    case (Cons c cs)
    then show ?case using counted_cut [of c] by auto
  qed simp
  from this [of "sv_conns s"] I show ?thesis by (simp add: server_inv_def counter_Add_def sent_def)
qed

theorem server_drops_counted_witness:
  "\<exists>m. sv_droppedSends exCut = Some m \<and> m + 1 = 0 + (1 :: nat)"
  using server_drops_counted [OF exCut_run] by (simp add: exCut_def)

end
