(* ===== verification/Pub_Sub.thy ===== *)
theory Pub_Sub
  imports Prelude "HOL-Library.Sublist"
begin

text \<open>
  The three implementations of the coordinator's \<open>PubSub\<close> interface (\<open>coordinator/pubsub.go\<close>):
  \<open>memory\<close>, \<open>redis\<close> and \<open>proxy\<close>, and \<open>onNotify\<close>, the function literal \<open>main\<close> passes to the server, which
  publishes over any of them.

  Outside the program are the expiring cache (\<open>go-cache\<close>), the Redis service and the parent
  coordinator: the cache is a parameter (\<open>cacheOps\<close>), Redis and the parent are the environment,
  whose answers are arguments or choices of a step. The lists \<open>mp_handled\<close>, \<open>rp_handled\<close> and \<open>px_handled\<close>
  record the calls of the handler, which is the server's \<open>Broadcast\<close>.
\<close>

datatype pubError = ErrSetNX | ErrPublish

type_synonym pubResult = "bool \<times> pubError option"

section \<open>memory\<close>

record 'c cacheOps =
  cache_New :: "duration \<Rightarrow> duration \<Rightarrow> 'c"
  cache_Add :: "bytes \<Rightarrow> time \<Rightarrow> 'c \<Rightarrow> 'c option"

record 'c memoryPubSub =
  mp_cache :: 'c
  mp_handled :: "bytes list"

definition memory_New :: "'c cacheOps \<Rightarrow> duration \<Rightarrow> 'c memoryPubSub" where
  "memory_New ops ttl = \<lparr>mp_cache = cache_New ops ttl (wrap64 (ttl * 2)), mp_handled = []\<rparr>"

definition memory_Publish :: "'c cacheOps \<Rightarrow> time \<Rightarrow> bytes \<Rightarrow> 'c memoryPubSub \<Rightarrow> pubResult \<times> 'c memoryPubSub" where
  "memory_Publish ops now tid p =
     (case cache_Add ops tid now (mp_cache p) of
        None \<Rightarrow> ((False, None), p)
      | Some c \<Rightarrow> ((True, None), p\<lparr>mp_cache := c, mp_handled := mp_handled p @ [tid]\<rparr>))"

text \<open>
  The documented behaviour of \<open>Add\<close>: it fails exactly if the key is present and has not expired,
  and an entry added at \<open>now\<close> with a positive time to live expires when that has passed. \<open>live c k t\<close>
  says whether \<open>k\<close> is present and unexpired at \<open>t\<close>.
\<close>

definition cache_ok :: "'c cacheOps \<Rightarrow> ('c \<Rightarrow> bytes \<Rightarrow> time \<Rightarrow> bool) \<Rightarrow> duration \<Rightarrow> bool" where
  "cache_ok ops live ttl \<longleftrightarrow> 0 < ttl \<and> (\<forall>k t d. \<not> live (cache_New ops ttl d) k t) \<and>
     (\<forall>k now c. cache_Add ops k now c = None \<longleftrightarrow> live c k now) \<and>
     (\<forall>k now c c' k' t. cache_Add ops k now c = Some c' \<longrightarrow>
        live c' k' t = (if k' = k then t \<le> now + ttl else live c k' t))"

section \<open>redis\<close>

definition channel :: string where "channel = ''retrosampling:interesting''"

definition decidedKey :: "bytes \<Rightarrow> string" where
  "decidedKey tid = ''retrosampling:decided:'' @ hex tid"

datatype setReply = SetOK | SetOther | SetNil | SetFailed

datatype redisCmd = CmdSetNX string duration | CmdPublish string bytes

record redisPubSub =
  rp_ttl :: duration
  rp_ownReader :: bool
  rp_cancelled :: bool
  rp_cmds :: "redisCmd list"
  rp_handled :: "bytes list"
  rp_closed :: nat

definition redis_New :: "bool \<Rightarrow> duration \<Rightarrow> redisPubSub" where
  "redis_New ownReader ttl = \<lparr>rp_ttl = ttl, rp_ownReader = ownReader, rp_cancelled = False, rp_cmds = [],
     rp_handled = [], rp_closed = 0\<rparr>"

text \<open>\<open>Publish\<close> sends one or two commands, with other goroutines running in between.\<close>

definition redis_SetNX :: "bytes \<Rightarrow> redisPubSub \<Rightarrow> redisPubSub" where
  "redis_SetNX tid p = p\<lparr>rp_cmds := rp_cmds p @ [CmdSetNX (decidedKey tid) (rp_ttl p)]\<rparr>"

definition redis_PUBLISH :: "bytes \<Rightarrow> redisPubSub \<Rightarrow> redisPubSub" where
  "redis_PUBLISH tid p = p\<lparr>rp_cmds := rp_cmds p @ [CmdPublish channel tid]\<rparr>"

definition redis_Publish :: "setReply \<Rightarrow> bool \<Rightarrow> bytes \<Rightarrow> redisPubSub \<Rightarrow> pubResult \<times> redisPubSub" where
  "redis_Publish reply published tid p =
     (let p' = redis_SetNX tid p in
      case reply of
        SetNil \<Rightarrow> ((False, None), p')
      | SetFailed \<Rightarrow> ((False, Some ErrSetNX), p')
      | SetOther \<Rightarrow> ((False, None), p')
      | SetOK \<Rightarrow> ((True, if published then None else Some ErrPublish), redis_PUBLISH tid p'))"

text \<open>One turn of \<open>receive\<close> with a message (nil when the subscription is closed).\<close>

definition redis_receive :: "bytes option \<Rightarrow> redisPubSub \<Rightarrow> redisPubSub" where
  "redis_receive msg p = (case msg of None \<Rightarrow> p | Some payload \<Rightarrow> p\<lparr>rp_handled := rp_handled p @ [payload]\<rparr>)"

text \<open>\<open>Close\<close>: the errors of the clients closed are joined.\<close>

definition redis_Close :: "bool \<Rightarrow> bool \<Rightarrow> redisPubSub \<Rightarrow> bool \<times> redisPubSub" where
  "redis_Close writeOk readOk p =
     (writeOk \<and> (rp_ownReader p \<longrightarrow> readOk),
      p\<lparr>rp_cancelled := True, rp_closed := rp_closed p + (if rp_ownReader p then 2 else 1)\<rparr>)"

section \<open>proxy\<close>

definition px_second :: duration where "px_second = 1000000000"

definition sendBufSize :: nat where "sendBufSize = 256"

definition maxBackoff :: duration where "maxBackoff = 30 * px_second"

datatype ppc = XTop | XDial | XSend | XWait | XDone

record proxyState =
  px_sendCh :: "bytes list"
  px_ctxDone :: bool
  px_connDone :: bool
  px_backoff :: duration
  px_pc :: ppc
  px_live :: bool
  px_old :: nat
  px_queued :: "bytes list"
  px_taken :: "(bytes \<times> bool) list"
  px_handled :: "bytes list"

definition proxy_New :: proxyState where
  "proxy_New = \<lparr>px_sendCh = [], px_ctxDone = False, px_connDone = False, px_backoff = px_second, px_pc = XTop,
     px_live = False, px_old = 0, px_queued = [], px_taken = [], px_handled = []\<rparr>"

definition proxy_Publish :: "bytes \<Rightarrow> proxyState \<Rightarrow> pubResult \<times> proxyState" where
  "proxy_Publish tid p = ((False, None),
     case try_send sendBufSize tid (px_sendCh p) of
       Some ch \<Rightarrow> p\<lparr>px_sendCh := ch, px_queued := px_queued p @ [tid]\<rparr>
     | None \<Rightarrow> p)"

definition proxy_Close :: "proxyState \<Rightarrow> proxyState" where
  "proxy_Close p = p\<lparr>px_ctxDone := True\<rparr>"

definition grow_backoff :: "duration \<Rightarrow> duration" where
  "grow_backoff b = min (b * 2) maxBackoff"

text \<open>\<open>recv\<close>: every ID of a batch is handled; an error cancels the connection's context.\<close>

definition proxy_recv :: "bytes list \<Rightarrow> proxyState \<Rightarrow> proxyState" where
  "proxy_recv ids p = p\<lparr>px_handled := px_handled p @ ids\<rparr>"

definition leave_send :: "ppc \<Rightarrow> proxyState \<Rightarrow> proxyState" where
  "leave_send pc p = p\<lparr>px_connDone := True, px_old := (if px_live p then Suc (px_old p) else px_old p),
     px_live := False, px_pc := pc\<rparr>"

datatype proxyLabel = XPublish bytes | XClose | XRun | XRecv "bytes list"

text \<open>
  \<open>run\<close> and \<open>send\<close>. The context of a connection ends with that of the proxy (\<open>px_ctxDone\<close>) or by the
  cancellation in \<open>recv\<close> (\<open>px_connDone\<close>). The receiving goroutine of the current stream is
  \<open>px_live\<close>; \<open>px_old\<close> counts those of earlier streams, which \<open>run\<close> does not wait for and which may
  still hand on a batch they have received.
\<close>

inductive proxy_step :: "proxyState \<Rightarrow> proxyLabel \<Rightarrow> proxyState \<Rightarrow> bool" where
  x_publish: "proxy_step p (XPublish tid) (snd (proxy_Publish tid p))"
| x_close: "proxy_step p XClose (proxy_Close p)"
| x_top_done: "px_pc p = XTop \<Longrightarrow> px_ctxDone p \<Longrightarrow> proxy_step p XRun (p\<lparr>px_pc := XDone\<rparr>)"
| x_top: "px_pc p = XTop \<Longrightarrow> \<not> px_ctxDone p \<Longrightarrow> proxy_step p XRun (p\<lparr>px_pc := XDial, px_connDone := False\<rparr>)"
| x_dial_failed: "px_pc p = XDial \<Longrightarrow> proxy_step p XRun (p\<lparr>px_pc := XWait\<rparr>)"
| x_dialled: "px_pc p = XDial \<Longrightarrow> proxy_step p XRun (p\<lparr>px_pc := XSend, px_live := True\<rparr>)"
| x_send: "px_pc p = XSend \<Longrightarrow> chan_recv (px_sendCh p) = Some (tid, ch) \<Longrightarrow>
    proxy_step p XRun (p\<lparr>px_sendCh := ch, px_taken := px_taken p @ [(tid, True)]\<rparr>)"
| x_send_failed: "px_pc p = XSend \<Longrightarrow> chan_recv (px_sendCh p) = Some (tid, ch) \<Longrightarrow>
    proxy_step p XRun (leave_send XWait (p\<lparr>px_sendCh := ch, px_taken := px_taken p @ [(tid, False)]\<rparr>))"
| x_conn_done: "px_pc p = XSend \<Longrightarrow> px_connDone p \<Longrightarrow> \<not> px_ctxDone p \<Longrightarrow> proxy_step p XRun (leave_send XWait p)"
| x_ctx_done: "px_pc p = XSend \<Longrightarrow> px_ctxDone p \<Longrightarrow>
    proxy_step p XRun (leave_send XTop (p\<lparr>px_backoff := px_second\<rparr>))"
| x_wait_done: "px_pc p = XWait \<Longrightarrow> px_ctxDone p \<Longrightarrow> proxy_step p XRun (p\<lparr>px_pc := XDone\<rparr>)"
| x_waited: "px_pc p = XWait \<Longrightarrow>
    proxy_step p XRun (p\<lparr>px_backoff := grow_backoff (px_backoff p), px_pc := XTop\<rparr>)"
| x_recv: "px_live p \<or> 0 < px_old p \<Longrightarrow> proxy_step p (XRecv ids) (proxy_recv ids p)"
| x_recv_error: "px_live p \<Longrightarrow> proxy_step p XRun (p\<lparr>px_live := False, px_connDone := True\<rparr>)"
| x_old_error: "0 < px_old p \<Longrightarrow> proxy_step p XRun (p\<lparr>px_old := px_old p - 1\<rparr>)"

section \<open>onNotify\<close>

record 's notifyState =
  ns_ps :: 's
  ns_novel :: nat
  ns_errors :: "bytes list"

text \<open>The function literal of \<open>main\<close>, over the \<open>Publish\<close> of the active implementation.\<close>

definition onNotify :: "(bytes \<Rightarrow> 's \<Rightarrow> pubResult \<times> 's) \<Rightarrow> bool \<Rightarrow> bytes \<Rightarrow> 's notifyState \<Rightarrow> 's notifyState" where
  "onNotify publish ctxDone tid s =
     (if ctxDone then s
      else case publish tid (ns_ps s) of ((novel, err), ps) \<Rightarrow>
        if err \<noteq> None then s\<lparr>ns_ps := ps, ns_errors := ns_errors s @ [tid]\<rparr>
        else if novel then s\<lparr>ns_ps := ps, ns_novel := Suc (ns_novel s)\<rparr>
        else s\<lparr>ns_ps := ps\<rparr>)"

text \<open>The contract of the interface: publishing an ID calls the handler at most once, with that ID, and
  only if it is reported as novel.\<close>

locale pub_sub =
  fixes publish :: "bytes \<Rightarrow> 's \<Rightarrow> pubResult \<times> 's"
    and handled :: "'s \<Rightarrow> bytes list"
  assumes publish_handles: "publish tid s = ((novel, err), s') \<Longrightarrow>
    handled s' = handled s \<or> handled s' = handled s @ [tid] \<and> novel \<and> err = None"
begin

lemma notify_one: "\<exists>ys. (ys = [] \<or> ys = [tid]) \<and> handled (ns_ps (onNotify publish c tid s)) = handled (ns_ps s) @ ys \<and>
    length ys + ns_novel s \<le> ns_novel (onNotify publish c tid s)"
proof -
  obtain novel err ps where p: "publish tid (ns_ps s) = ((novel, err), ps)" by (metis prod.exhaust)
  from publish_handles [OF p] consider "handled ps = handled (ns_ps s)"
    | "handled ps = handled (ns_ps s) @ [tid]" "novel" "err = None" by blast
  then show ?thesis
  proof cases
    case 1
    then show ?thesis by (intro exI [of _ "[]"]) (simp add: onNotify_def p)
  next
    case 2
    then show ?thesis
      by (cases c; intro exI [of _ "if c then [] else [tid]"]) (simp_all add: onNotify_def p)
  qed
qed

text \<open>Over any sequence of notifications the handler sees a subsequence of them, and none of its
  calls is missing in the count.\<close>

lemma notify_all: "\<exists>ys. subseq ys tids \<and> handled (ns_ps (fold (onNotify publish c) tids s)) = handled (ns_ps s) @ ys \<and>
    length ys + ns_novel s \<le> ns_novel (fold (onNotify publish c) tids s)"
proof (induction tids arbitrary: s)
  case (Cons tid tids)
  obtain ys where ys: "ys = [] \<or> ys = [tid]" "handled (ns_ps (onNotify publish c tid s)) = handled (ns_ps s) @ ys"
    "length ys + ns_novel s \<le> ns_novel (onNotify publish c tid s)" using notify_one by blast
  obtain zs where "subseq zs tids" "handled (ns_ps (fold (onNotify publish c) tids (onNotify publish c tid s))) =
      handled (ns_ps (onNotify publish c tid s)) @ zs"
    "length zs + ns_novel (onNotify publish c tid s) \<le> ns_novel (fold (onNotify publish c) tids (onNotify publish c tid s))"
    using Cons.IH by blast
  with ys show ?case by (intro exI [of _ "ys @ zs"]) auto
qed simp

end

text \<open>Where a novel ID is always handed to the handler at once, the count is exact.\<close>

locale counting_pub_sub = pub_sub +
  assumes publish_novel: "publish tid s = ((True, None), s') \<Longrightarrow> handled s' = handled s @ [tid]"
begin

lemma notify_count_one:
  "length (handled (ns_ps (onNotify publish c tid s))) + ns_novel s = length (handled (ns_ps s)) + ns_novel (onNotify publish c tid s)"
proof -
  obtain novel err ps where p: "publish tid (ns_ps s) = ((novel, err), ps)" by (metis prod.exhaust)
  show ?thesis
  proof (cases "novel \<and> err = None")
    case True
    with p publish_novel [of tid "ns_ps s" ps] show ?thesis by (simp add: onNotify_def)
  next
    case False
    with publish_handles [OF p] have "handled ps = handled (ns_ps s)" by blast
    with p False show ?thesis by (auto simp: onNotify_def)
  qed
qed

lemma notify_count:
  "\<exists>ys. subseq ys tids \<and> handled (ns_ps (fold (onNotify publish c) tids s)) = handled (ns_ps s) @ ys \<and>
     ns_novel (fold (onNotify publish c) tids s) = ns_novel s + length ys"
proof -
  obtain ys where ys: "subseq ys tids" "handled (ns_ps (fold (onNotify publish c) tids s)) = handled (ns_ps s) @ ys"
    using notify_all by blast
  have "length (handled (ns_ps (fold (onNotify publish c) tids s))) + ns_novel s =
      length (handled (ns_ps s)) + ns_novel (fold (onNotify publish c) tids s)"
  proof (induction tids arbitrary: s)
    case (Cons tid tids)
    show ?case using Cons [of "onNotify publish c tid s"] notify_count_one [of c tid s] by simp
  qed simp
  with ys show ?thesis by auto
qed

end

interpretation mem: counting_pub_sub "memory_Publish ops now" mp_handled for ops now
  by unfold_locales (auto simp: memory_Publish_def split: option.splits)

interpretation red: pub_sub "redis_Publish reply published" rp_handled for reply published
  by unfold_locales (auto simp: redis_Publish_def redis_SetNX_def redis_PUBLISH_def Let_def split: setReply.splits)

interpretation prx: counting_pub_sub proxy_Publish px_handled
  by unfold_locales (auto simp: proxy_Publish_def split: option.splits)

section \<open>The proxy's invariant\<close>

definition proxy_inv :: "proxyState \<Rightarrow> bool" where
  "proxy_inv p \<longleftrightarrow> length (px_sendCh p) \<le> sendBufSize \<and> px_queued p = map fst (px_taken p) @ px_sendCh p \<and>
     px_second \<le> px_backoff p \<and> px_backoff p \<le> maxBackoff \<and> (px_pc p = XDone \<longrightarrow> px_ctxDone p)"

lemma proxy_step_inv:
  assumes "proxy_step p l q" and I: "proxy_inv p"
  shows "proxy_inv q"
  using assms(1)
proof cases
  case (x_publish tid)
  then show ?thesis
    using I chan.send_within_capacity [of sendBufSize tid "px_sendCh p"] chan.send_Some [of sendBufSize tid "px_sendCh p"]
    by (auto simp: proxy_inv_def proxy_Publish_def split: option.split)
next
  case (x_send tid ch)
  then show ?thesis using I chan.recv_Some [of "px_sendCh p" tid ch] by (auto simp: proxy_inv_def)
next
  case (x_send_failed tid ch)
  then show ?thesis using I chan.recv_Some [of "px_sendCh p" tid ch] by (auto simp: proxy_inv_def leave_send_def)
qed (use I in \<open>auto simp: proxy_inv_def proxy_Close_def proxy_recv_def leave_send_def grow_backoff_def
      maxBackoff_def px_second_def\<close>)

lemma proxy_reach_inv: "run proxy_step proxy_New ls p \<Longrightarrow> proxy_inv p"
  using run_invariant [of proxy_step proxy_New ls p proxy_inv] proxy_step_inv
  by (auto simp: proxy_inv_def proxy_New_def maxBackoff_def px_second_def)

section \<open>Keys\<close>

lemma decidedKey_inj: "decidedKey a = decidedKey b \<longleftrightarrow> a = b"
  using hex_inj [of a b] by (auto simp: decidedKey_def)

section \<open>Properties\<close>

text \<open>Over the in-memory \<open>PubSub\<close>, any sequence of notifications calls the handler with a
  subsequence of them, in order and each at most once, and \<open>interestingTraces\<close> counts exactly those calls.\<close>

theorem onNotify_counts:
  "\<exists>ys. subseq ys tids \<and>
     mp_handled (ns_ps (fold (onNotify (memory_Publish ops now) c) tids s)) = mp_handled (ns_ps s) @ ys \<and>
     ns_novel (fold (onNotify (memory_Publish ops now) c) tids s) = ns_novel s + length ys"
  by (rule mem.notify_count)

text \<open>\<open>Publish\<close> over Redis keeps traces apart and publishes at most once per decision: two trace
  IDs have the same deduplication key only if they are equal, the commands issued are one \<open>SET NX\<close>
  on that key with the configured time to live and, exactly if it was answered \<open>OK\<close>, one
  \<open>PUBLISH\<close> of the ID; the trace is reported as novel exactly in that case.\<close>

theorem redis_publish_once:
  "(decidedKey tid = decidedKey tid' \<longleftrightarrow> tid = tid') \<and>
   rp_cmds (snd (redis_Publish reply published tid p)) =
     rp_cmds p @ [CmdSetNX (decidedKey tid) (rp_ttl p)] @ (if reply = SetOK then [CmdPublish channel tid] else []) \<and>
   fst (redis_Publish reply published tid p) =
     (reply = SetOK, if reply = SetFailed then Some ErrSetNX
                     else if reply = SetOK \<and> \<not> published then Some ErrPublish else None)"
  by (cases reply) (auto simp: decidedKey_inj redis_Publish_def redis_SetNX_def redis_PUBLISH_def Let_def)

text \<open>The proxy forwards notifications in order, each at most once, and its wait between two
  attempts stays between 1 and 30 seconds.\<close>

theorem proxy_fifo_backoff:
  assumes "run proxy_step proxy_New ls p"
  shows "px_queued p = map fst (px_taken p) @ px_sendCh p \<and> length (px_sendCh p) \<le> 256 \<and>
    px_second \<le> px_backoff p \<and> px_backoff p \<le> 30 * px_second"
  using proxy_reach_inv [OF assms] by (simp add: proxy_inv_def sendBufSize_def maxBackoff_def)

theorem proxy_fifo_backoff_witness:
  "px_queued (snd (proxy_Publish [7] proxy_New)) = [] @ px_sendCh (snd (proxy_Publish [7] proxy_New))"
proof -
  have "run proxy_step proxy_New [XPublish [7]] (snd (proxy_Publish [7] proxy_New))"
    using run_snoc [of proxy_step proxy_New "[]" proxy_New "XPublish [7]"] run_nil [of proxy_step proxy_New]
      x_publish [of proxy_New "[7]"] by simp
  from proxy_fifo_backoff [OF this] show ?thesis
    by (simp add: proxy_Publish_def proxy_New_def try_send_def sendBufSize_def)
qed

end
