(* ===== verification/Coordinator.thy ===== *)
theory Coordinator
  imports Coord_Server Pub_Sub
begin

text \<open>
  The coordinator in single-node mode (\<open>coordinator/main.go\<close>): the server, whose \<open>onNotify\<close> publishes
  on the in-memory \<open>PubSub\<close>, whose handler is the server's \<open>Broadcast\<close>.

  Between the \<open>Add\<close> to the cache and the \<open>Broadcast\<close> other goroutines may run: \<open>cd_pending\<close> holds
  the IDs whose \<open>Broadcast\<close> is still to come. \<open>interestingTraces\<close> (\<open>cd_novel\<close>) is counted after it,
  and again other goroutines may run before that: \<open>cd_uncounted\<close> is the number of calls in between.
  \<open>cd_adds\<close> and \<open>cd_sent\<close> record the successful additions with their times and the broadcasts.
\<close>

record 'c coordState =
  cd_srv :: serverState
  cd_ps :: "'c memoryPubSub"
  cd_clock :: time
  cd_ctxDone :: bool
  cd_pending :: "bytes list"
  cd_uncounted :: nat
  cd_novel :: nat
  cd_adds :: "(time \<times> bytes) list"
  cd_sent :: "bytes list"

definition coord_New :: "'c cacheOps \<Rightarrow> duration \<Rightarrow> time \<Rightarrow> 'c coordState" where
  "coord_New ops ttl now = \<lparr>cd_srv = server_New (Some 0) (Some 0) (Some 0) (Some 0), cd_ps = memory_New ops ttl,
     cd_clock = now, cd_ctxDone = False, cd_pending = [], cd_uncounted = 0, cd_novel = 0, cd_adds = [], cd_sent = []\<rparr>"

text \<open>\<open>onNotify\<close> up to the call of the handler.\<close>

definition single_notify :: "'c cacheOps \<Rightarrow> bytes \<Rightarrow> 'c coordState \<Rightarrow> 'c coordState" where
  "single_notify ops tid s =
     (if cd_ctxDone s then s
      else case memory_Publish ops (cd_clock s) tid (cd_ps s) of ((novel, err), ps) \<Rightarrow>
        if novel then s\<lparr>cd_ps := ps, cd_pending := cd_pending s @ [tid], cd_adds := cd_adds s @ [(cd_clock s, tid)]\<rparr>
        else s\<lparr>cd_ps := ps\<rparr>)"

text \<open>The handler, and the count after \<open>Publish\<close> has returned.\<close>

definition single_handle :: "bytes \<Rightarrow> 'c coordState \<Rightarrow> 'c coordState" where
  "single_handle tid s = s\<lparr>cd_srv := Broadcast tid (cd_srv s), cd_pending := remove1 tid (cd_pending s),
     cd_uncounted := Suc (cd_uncounted s), cd_sent := cd_sent s @ [tid]\<rparr>"

definition single_count :: "'c coordState \<Rightarrow> 'c coordState" where
  "single_count s = s\<lparr>cd_uncounted := cd_uncounted s - 1, cd_novel := Suc (cd_novel s)\<rparr>"

datatype coordLabel = CServer serverLabel | CNotify nat bytes | CHandle bytes | CCount | CTime | CStop

fun own_label :: "serverLabel \<Rightarrow> bool" where
  "own_label (LRecvNotify n tid) = False"
| "own_label (LBroadcast tid) = False"
| "own_label _ = True"

inductive coord_step :: "'c cacheOps \<Rightarrow> (bytes list \<Rightarrow> nat) \<Rightarrow> 'c coordState \<Rightarrow> coordLabel \<Rightarrow> 'c coordState \<Rightarrow> bool"
  for ops :: "'c cacheOps" and msgSize :: "bytes list \<Rightarrow> nat" where
  cd_server: "own_label l \<Longrightarrow> server_step msgSize (cd_srv s) l v \<Longrightarrow> coord_step ops msgSize s (CServer l) (s\<lparr>cd_srv := v\<rparr>)"
| cd_notify: "server_step msgSize (cd_srv s) (LRecvNotify n tid) v \<Longrightarrow>
    coord_step ops msgSize s (CNotify n tid) (single_notify ops tid (s\<lparr>cd_srv := v\<rparr>))"
| cd_handle: "tid \<in> set (cd_pending s) \<Longrightarrow> coord_step ops msgSize s (CHandle tid) (single_handle tid s)"
| cd_count: "0 < cd_uncounted s \<Longrightarrow> coord_step ops msgSize s CCount (single_count s)"
| cd_time: "cd_clock s \<le> now \<Longrightarrow> coord_step ops msgSize s CTime (s\<lparr>cd_clock := now\<rparr>)"
| cd_stop: "coord_step ops msgSize s CStop (s\<lparr>cd_ctxDone := True\<rparr>)"

section \<open>The invariant\<close>

definition apart :: "duration \<Rightarrow> (time \<times> bytes) list \<Rightarrow> bool" where
  "apart ttl adds \<longleftrightarrow> sorted_wrt (\<lambda>(a, t) (b, u). t = u \<longrightarrow> a + ttl < b) adds"

definition coord_inv :: "('c \<Rightarrow> bytes \<Rightarrow> time \<Rightarrow> bool) \<Rightarrow> duration \<Rightarrow> 'c coordState \<Rightarrow> bool" where
  "coord_inv live ttl s \<longleftrightarrow> offers (\<lambda>xs. mset xs \<subseteq># mset (cd_sent s)) (cd_srv s) \<and> apart ttl (cd_adds s) \<and>
     (\<forall>(a, t) \<in> set (cd_adds s). a \<le> cd_clock s) \<and>
     (\<forall>k u. cd_clock s \<le> u \<longrightarrow> live (mp_cache (cd_ps s)) k u = (\<exists>a. (a, k) \<in> set (cd_adds s) \<and> u \<le> a + ttl)) \<and>
     mset (map snd (cd_adds s)) = mset (cd_sent s) + mset (cd_pending s) \<and> cd_novel s + cd_uncounted s = length (cd_sent s)"

lemma single_notify_inv:
  assumes ops: "cache_ok ops live ttl" and I: "coord_inv live ttl s"
  shows "coord_inv live ttl (single_notify ops tid s)"
proof (cases "cd_ctxDone s")
  case False
  show ?thesis
  proof (cases "cache_Add ops tid (cd_clock s) (mp_cache (cd_ps s))")
    case None
    then show ?thesis using I False by (simp add: single_notify_def memory_Publish_def)
  next
    case (Some c)
    have "\<not> live (mp_cache (cd_ps s)) tid (cd_clock s)" 
    proof -
      have "cache_Add ops tid (cd_clock s) (mp_cache (cd_ps s)) = None \<longleftrightarrow> live (mp_cache (cd_ps s)) tid (cd_clock s)"
        using ops unfolding cache_ok_def by blast
      with Some show ?thesis by simp
    qed
    moreover have "live (mp_cache (cd_ps s)) tid (cd_clock s) = (\<exists>a. (a, tid) \<in> set (cd_adds s) \<and> cd_clock s \<le> a + ttl)"
      using I by (simp add: coord_inv_def)
    ultimately have "\<forall>(a, t) \<in> set (cd_adds s). t = tid \<longrightarrow> a + ttl < cd_clock s" by (auto simp: not_le)
    then have ap: "apart ttl (cd_adds s @ [(cd_clock s, tid)])" using I by (auto simp: coord_inv_def apart_def sorted_wrt_append)
    have lv: "live c k u = (if k = tid then u \<le> cd_clock s + ttl else live (mp_cache (cd_ps s)) k u)" for k u
      using ops Some by (simp add: cache_ok_def)
    have "live c k u = (\<exists>a. (a, k) \<in> set (cd_adds s @ [(cd_clock s, tid)]) \<and> u \<le> a + ttl)" if "cd_clock s \<le> u" for k u
    proof (cases "k = tid")
      case True
      have "u \<le> cd_clock s + ttl" if "(a, tid) \<in> set (cd_adds s)" "u \<le> a + ttl" for a
      proof -
        have "a \<le> cd_clock s" using I that(1) by (auto simp: coord_inv_def)
        with that(2) show ?thesis by simp
      qed
      then show ?thesis unfolding lv using True by auto
    next
      case False
      then show ?thesis using I that by (simp add: lv coord_inv_def)
    qed
    moreover have "single_notify ops tid s = s\<lparr>cd_ps := (cd_ps s)\<lparr>mp_cache := c, mp_handled := mp_handled (cd_ps s) @ [tid]\<rparr>,
        cd_pending := cd_pending s @ [tid], cd_adds := cd_adds s @ [(cd_clock s, tid)]\<rparr>"
      using Some False by (simp add: single_notify_def memory_Publish_def)
    ultimately show ?thesis using I ap by (auto simp: coord_inv_def)
  qed
qed (use I in \<open>simp add: single_notify_def\<close>)

lemma single_handle_inv:
  assumes I: "coord_inv live ttl s" and t: "tid \<in> set (cd_pending s)"
  shows "coord_inv live ttl (single_handle tid s)"
proof -
  have "offers (\<lambda>xs. mset xs \<subseteq># mset (cd_sent s @ [tid])) (Broadcast tid (cd_srv s))"
    by (rule offers_Broadcast_mset) (use I in \<open>simp add: coord_inv_def\<close>)
  moreover have "mset (cd_sent s) + mset (cd_pending s) = mset (cd_sent s) + {#tid#} + mset (remove1 tid (cd_pending s))"
    using t by simp
  ultimately show ?thesis using I by (simp add: coord_inv_def single_handle_def)
qed

lemma coord_step_inv:
  assumes "coord_step ops msgSize s l t" and ops: "cache_ok ops live ttl" and I: "coord_inv live ttl s"
  shows "coord_inv live ttl t"
proof -
  have srv: "coord_inv live ttl (s\<lparr>cd_srv := v\<rparr>)"
    if "server_step msgSize (cd_srv s) m v" "\<And>tid. m \<noteq> LBroadcast tid" for m v
    using I offers_step [OF that] by (simp add: coord_inv_def)
  from assms(1) show ?thesis
  proof cases
    case (cd_server m v)
    then have "m \<noteq> LBroadcast tid" for tid by auto
    then show ?thesis using srv cd_server by simp
  next
    case (cd_notify n tid v)
    then show ?thesis using srv [OF cd_notify(3)] single_notify_inv [OF ops] by simp
  next
    case (cd_handle tid)
    then show ?thesis using single_handle_inv [OF I] by simp
  next
    case cd_count
    obtain n where "cd_uncounted s = Suc n" using cd_count(3) by (cases "cd_uncounted s") simp_all
    then show ?thesis using I cd_count(2) by (simp add: coord_inv_def single_count_def)
  next
    case (cd_time now)
    then show ?thesis using I by (fastforce simp: coord_inv_def)
  next
    case cd_stop
    then show ?thesis using I by (simp add: coord_inv_def)
  qed
qed

lemma coord_reach_inv:
  assumes "cache_ok ops live ttl" and "run (coord_step ops msgSize) (coord_New ops ttl now) ls s"
  shows "coord_inv live ttl s"
proof (rule run_invariant [OF assms(2)])
  show "coord_inv live ttl (coord_New ops ttl now)"
    using assms(1) offers_New by (simp add: coord_inv_def coord_New_def apart_def memory_New_def cache_ok_def)
qed (use assms(1) coord_step_inv in blast)

section \<open>Properties\<close>

text \<open>C13: A single-node coordinator decides a trace once per lifetime of its key, and broadcasts each
  decision once. In every run of the server, the in-memory \<open>PubSub\<close> and \<open>onNotify\<close> together, two
  decisions for the same trace are more than \<open>decided_key_ttl\<close> apart; the decisions are exactly the
  broadcasts made and those still to come, with multiplicity; \<open>interestingTraces\<close> and the
  calls about to count add up to the broadcasts made; and no connection's channel is ever given a decision more often than it was broadcast.\<close>

theorem single_node_once:
  assumes "cache_ok ops live ttl" and "run (coord_step ops msgSize) (coord_New ops ttl now) ls s"
  shows "(\<forall>i j a b t. i < j \<and> j < length (cd_adds s) \<and> cd_adds s ! i = (a, t) \<and> cd_adds s ! j = (b, t) \<longrightarrow> a + ttl < b) \<and>
    mset (map snd (cd_adds s)) = mset (cd_sent s) + mset (cd_pending s) \<and> cd_novel s + cd_uncounted s = length (cd_sent s) \<and>
    (\<forall>c \<in> set (sv_conns (cd_srv s)). mset (se_offered c) \<subseteq># mset (cd_sent s))"
proof -
  have I: "coord_inv live ttl s" by (rule coord_reach_inv [OF assms])
  have "a + ttl < b" if "i < j" "j < length (cd_adds s)" "cd_adds s ! i = (a, t)" "cd_adds s ! j = (b, t)" for i j a b t
    using I that sorted_wrt_nth_less [of _ "cd_adds s" i j] by (fastforce simp: coord_inv_def apart_def)
  with I show ?thesis unfolding coord_inv_def offers_def by blast
qed

text \<open>A cache as an association list of keys and the times until which they are live.\<close>

definition exCache :: "(bytes \<times> time) list cacheOps" where
  "exCache = \<lparr>cache_New = (\<lambda>ttl d. []),
     cache_Add = (\<lambda>k now c. if \<exists>e. map_of c k = Some e \<and> now \<le> e then None else Some ((k, now + 5) # c))\<rparr>"

lemma exCache_ok: "cache_ok exCache (\<lambda>c k t. \<exists>e. map_of c k = Some e \<and> t \<le> e) 5"
  by (auto simp: cache_ok_def exCache_def)

theorem single_node_once_witness:
  "\<exists>s. run (coord_step exCache length) (coord_New exCache 5 0)
       [CServer (LConnect (exConn 1)), CNotify 0 [7], CNotify 0 [7], CHandle [7]] s \<and>
     cd_adds s = [(0, [7])] \<and> cd_sent s = [[7]] \<and> cd_novel s + cd_uncounted s = length (cd_sent s)"
proof -
  define a where "a = coord_New exCache 5 0"
  define b where "b = a\<lparr>cd_srv := register (exConn 1) (cd_srv a)\<rparr>"
  define c where "c = single_notify exCache [7] (b\<lparr>cd_srv := count_in 0 (cd_srv b)\<rparr>)"
  define d where "d = single_notify exCache [7] (c\<lparr>cd_srv := count_in 0 (cd_srv c)\<rparr>)"
  define e where "e = single_handle [7] d"
  note defs = a_def b_def c_def d_def e_def coord_New_def server_New_def memory_New_def register_def newEntry_def map_delete_def
    count_in_def single_notify_def memory_Publish_def exCache_def single_handle_def
  have b: "coord_step exCache length a (CServer (LConnect (exConn 1))) b" unfolding b_def by (rule cd_server) (simp_all add: exConnect)
  have c: "coord_step exCache length b (CNotify 0 [7]) c" unfolding c_def by (rule cd_notify, rule sv_notify) (simp_all add: defs)
  have d: "coord_step exCache length c (CNotify 0 [7]) d" unfolding d_def by (rule cd_notify, rule sv_notify) (simp_all add: defs)
  have e: "coord_step exCache length d (CHandle [7]) e" unfolding e_def by (rule cd_handle) (simp add: defs)
  note r = run_snoc [OF run_snoc [OF run_nil [of "coord_step exCache length" a] b] c]
  note r = run_snoc [OF run_snoc [OF r d] e]
  have r': "run (coord_step exCache length) (coord_New exCache 5 0)
      [CServer (LConnect (exConn 1)), CNotify 0 [7], CNotify 0 [7], CHandle [7]] e"
    using r by (simp add: a_def)
  have "cd_novel e + cd_uncounted e = length (cd_sent e)" using single_node_once [OF exCache_ok r'] by blast
  moreover have "cd_adds e = [(0, [7])]" "cd_sent e = [[7]]" by (simp_all add: defs)
  ultimately show ?thesis using r' by blast
qed

end
