(* ===== verification/Coord_Cluster.thy ===== *)
theory Coord_Cluster
  imports Coordinator
begin

text \<open>
  Coordinators in distributed mode: several processes, each with its own server and its own
  \<open>redis.PubSub\<close>, sharing one Redis (\<open>coordinator/main.go\<close>, \<open>coordinator/redis\<close>).

  Redis is outside the program: its keys are a parameter (\<open>redisOps\<close>), with the documented behaviour
  of \<open>SET\<close> with \<open>NX\<close> and a time to live as the hypothesis \<open>redis_ok\<close>. A command may be executed and its
  reply lost, or never be executed; a message published reaches any of the subscribers, at most
  once each. \<open>Publish\<close> sends two commands, and other goroutines run in between: \<open>cl_publishing\<close> holds
  the IDs whose \<open>SET\<close> was answered and whose \<open>PUBLISH\<close> is still to come, with their process. After \<open>Close\<close> the
  receiving goroutine may still take messages until it notices.
  \<open>cl_adds\<close> and \<open>cl_published\<close> record the keys set with their times and the messages published.
\<close>

record 'r redisOps =
  redis_Set :: "string \<Rightarrow> duration \<Rightarrow> time \<Rightarrow> 'r \<Rightarrow> 'r option"

text \<open>
  \<open>redis_Set ops k ttl now r\<close> is \<open>None\<close> if the key exists. \<open>live r k t\<close>: the key \<open>k\<close> exists at time \<open>t\<close>
  if nothing else happens until then.
\<close>

definition redis_ok :: "'r redisOps \<Rightarrow> ('r \<Rightarrow> string \<Rightarrow> time \<Rightarrow> bool) \<Rightarrow> bool" where
  "redis_ok ops live \<longleftrightarrow> (\<forall>k ttl now r r'. redis_Set ops k ttl now r = Some r' \<longrightarrow> \<not> live r k now \<and>
     (\<forall>k' t. live r' k' t = (if k' = k then t < now + ttl else live r k' t)))"

record redisNode =
  rn_srv :: serverState
  rn_ps :: redisPubSub
  rn_ctxDone :: bool
  rn_inbox :: "bytes list"
  rn_novel :: nat
  rn_errors :: "bytes list"

record 'r clusterState =
  cl_nodes :: "redisNode list"
  cl_redis :: 'r
  cl_clock :: time
  cl_publishing :: "(nat \<times> bytes) list"
  cl_adds :: "(time \<times> bytes) list"
  cl_published :: "bytes list"

text \<open>\<open>main\<close> in distributed mode; \<open>own\<close> says whether a process reads from a replica.\<close>

definition node_New :: "duration \<Rightarrow> bool \<Rightarrow> redisNode" where
  "node_New ttl own = \<lparr>rn_srv = server_New (Some 0) (Some 0) (Some 0) (Some 0), rn_ps = redis_New own ttl,
     rn_ctxDone = False, rn_inbox = [], rn_novel = 0, rn_errors = []\<rparr>"

definition cluster_New :: "duration \<Rightarrow> bool list \<Rightarrow> 'r \<Rightarrow> time \<Rightarrow> 'r clusterState" where
  "cluster_New ttl owns r now = \<lparr>cl_nodes = map (node_New ttl) owns, cl_redis = r, cl_clock = now,
     cl_publishing = [], cl_adds = [], cl_published = []\<rparr>"

section \<open>The steps of a process\<close>

definition upd_node :: "nat \<Rightarrow> (redisNode \<Rightarrow> redisNode) \<Rightarrow> 'r clusterState \<Rightarrow> 'r clusterState" where
  "upd_node i f s = s\<lparr>cl_nodes := (cl_nodes s)[i := f (cl_nodes s ! i)]\<rparr>"

text \<open>\<open>onNotify\<close> up to the reply to \<open>SET\<close>, and after the reply to \<open>PUBLISH\<close>.\<close>

definition node_set :: "setReply \<Rightarrow> bytes \<Rightarrow> redisNode \<Rightarrow> redisNode" where
  "node_set reply tid v = v\<lparr>rn_ps := redis_SetNX tid (rn_ps v),
     rn_errors := (if reply = SetFailed then rn_errors v @ [tid] else rn_errors v)\<rparr>"

definition redis_notify :: "nat \<Rightarrow> setReply \<Rightarrow> bytes \<Rightarrow> 'r clusterState \<Rightarrow> 'r clusterState" where
  "redis_notify i reply tid s = (upd_node i (node_set reply tid) s)
     \<lparr>cl_publishing := cl_publishing s @ (if reply = SetOK then [(i, tid)] else [])\<rparr>"

definition node_published :: "bool \<Rightarrow> bytes \<Rightarrow> redisNode \<Rightarrow> redisNode" where
  "node_published ok tid v =
     (let v' = v\<lparr>rn_ps := redis_PUBLISH tid (rn_ps v)\<rparr> in
      if ok then v'\<lparr>rn_novel := Suc (rn_novel v)\<rparr> else v'\<lparr>rn_errors := rn_errors v @ [tid]\<rparr>)"

text \<open>\<open>PUBLISH\<close>: the message reaches the processes in \<open>to\<close>.\<close>

definition redis_deliver :: "nat set \<Rightarrow> bytes \<Rightarrow> redisNode list \<Rightarrow> redisNode list" where
  "redis_deliver to tid vs =
     map (\<lambda>(j, v). if j \<in> to then v\<lparr>rn_inbox := rn_inbox v @ [tid]\<rparr> else v) (enumerate 0 vs)"

definition redis_published :: "nat \<Rightarrow> bool \<Rightarrow> nat set \<Rightarrow> bytes \<Rightarrow> 'r clusterState \<Rightarrow> 'r clusterState" where
  "redis_published i ok to tid s = (upd_node i (node_published ok tid) s)
     \<lparr>cl_nodes := redis_deliver to tid (cl_nodes (upd_node i (node_published ok tid) s)),
      cl_publishing := remove1 (i, tid) (cl_publishing s), cl_published := cl_published s @ [tid]\<rparr>"

text \<open>One turn of \<open>receive\<close>, whose handler is \<open>Broadcast\<close>.\<close>

definition node_receive :: "bytes \<Rightarrow> redisNode \<Rightarrow> redisNode" where
  "node_receive tid v = v\<lparr>rn_inbox := tl (rn_inbox v), rn_ps := redis_receive (Some tid) (rn_ps v),
     rn_srv := Broadcast tid (rn_srv v)\<rparr>"

datatype clusterLabel =
    KServer nat serverLabel
  | KNotify nat nat bytes
  | KPublish nat bytes
  | KReceive nat
  | KLose nat
  | KTime
  | KStop nat
  | KClose nat

inductive cluster_step :: "'r redisOps \<Rightarrow> (bytes list \<Rightarrow> nat) \<Rightarrow> 'r clusterState \<Rightarrow> clusterLabel \<Rightarrow> 'r clusterState \<Rightarrow> bool"
  for ops :: "'r redisOps" and msgSize :: "bytes list \<Rightarrow> nat" where
  kl_server: "i < length (cl_nodes s) \<Longrightarrow> own_label l \<Longrightarrow> server_step msgSize (rn_srv (cl_nodes s ! i)) l v \<Longrightarrow>
    cluster_step ops msgSize s (KServer i l) (upd_node i (\<lambda>n. n\<lparr>rn_srv := v\<rparr>) s)"
| kl_ignore: "i < length (cl_nodes s) \<Longrightarrow> server_step msgSize (rn_srv (cl_nodes s ! i)) (LRecvNotify n tid) v \<Longrightarrow>
    rn_ctxDone (cl_nodes s ! i) \<Longrightarrow> cluster_step ops msgSize s (KNotify i n tid) (upd_node i (\<lambda>n. n\<lparr>rn_srv := v\<rparr>) s)"
| kl_new: "i < length (cl_nodes s) \<Longrightarrow> server_step msgSize (rn_srv (cl_nodes s ! i)) (LRecvNotify n tid) v \<Longrightarrow>
    \<not> rn_ctxDone (cl_nodes s ! i) \<Longrightarrow>
    redis_Set ops (decidedKey tid) (rp_ttl (rn_ps (cl_nodes s ! i))) (cl_clock s) (cl_redis s) = Some r \<Longrightarrow>
    reply \<in> {SetOK, SetFailed} \<Longrightarrow>
    cluster_step ops msgSize s (KNotify i n tid)
      (redis_notify i reply tid ((upd_node i (\<lambda>n. n\<lparr>rn_srv := v\<rparr>) s)\<lparr>cl_redis := r, cl_adds := cl_adds s @ [(cl_clock s, tid)]\<rparr>))"
| kl_known: "i < length (cl_nodes s) \<Longrightarrow> server_step msgSize (rn_srv (cl_nodes s ! i)) (LRecvNotify n tid) v \<Longrightarrow>
    \<not> rn_ctxDone (cl_nodes s ! i) \<Longrightarrow>
    redis_Set ops (decidedKey tid) (rp_ttl (rn_ps (cl_nodes s ! i))) (cl_clock s) (cl_redis s) = None \<Longrightarrow>
    cluster_step ops msgSize s (KNotify i n tid) (redis_notify i SetNil tid (upd_node i (\<lambda>n. n\<lparr>rn_srv := v\<rparr>) s))"
| kl_set_failed: "i < length (cl_nodes s) \<Longrightarrow> server_step msgSize (rn_srv (cl_nodes s ! i)) (LRecvNotify n tid) v \<Longrightarrow>
    \<not> rn_ctxDone (cl_nodes s ! i) \<Longrightarrow> reply \<in> {SetFailed, SetOther} \<Longrightarrow>
    cluster_step ops msgSize s (KNotify i n tid) (redis_notify i reply tid (upd_node i (\<lambda>n. n\<lparr>rn_srv := v\<rparr>) s))"
| kl_publish: "i < length (cl_nodes s) \<Longrightarrow> (i, tid) \<in> set (cl_publishing s) \<Longrightarrow>
    cluster_step ops msgSize s (KPublish i tid) (redis_published i ok to tid s)"
| kl_publish_failed: "i < length (cl_nodes s) \<Longrightarrow> (i, tid) \<in> set (cl_publishing s) \<Longrightarrow>
    cluster_step ops msgSize s (KPublish i tid)
      ((upd_node i (node_published False tid) s)\<lparr>cl_publishing := remove1 (i, tid) (cl_publishing s)\<rparr>)"
| kl_receive: "i < length (cl_nodes s) \<Longrightarrow> rn_inbox (cl_nodes s ! i) = tid # rest \<Longrightarrow>
    cluster_step ops msgSize s (KReceive i) (upd_node i (node_receive tid) s)"
| kl_lose: "i < length (cl_nodes s) \<Longrightarrow> rn_inbox (cl_nodes s ! i) = tid # rest \<Longrightarrow>
    cluster_step ops msgSize s (KLose i) (upd_node i (\<lambda>n. n\<lparr>rn_inbox := rest\<rparr>) s)"
| kl_time: "cl_clock s \<le> now \<Longrightarrow> cluster_step ops msgSize s KTime (s\<lparr>cl_clock := now\<rparr>)"
| kl_stop: "i < length (cl_nodes s) \<Longrightarrow>
    cluster_step ops msgSize s (KStop i) (upd_node i (\<lambda>n. n\<lparr>rn_ctxDone := True\<rparr>) s)"
| kl_close: "i < length (cl_nodes s) \<Longrightarrow> rn_ctxDone (cl_nodes s ! i) \<Longrightarrow>
    cluster_step ops msgSize s (KClose i) (upd_node i (\<lambda>n. n\<lparr>rn_ps := snd (redis_Close writeOk readOk (rn_ps n))\<rparr>) s)"

text \<open>Without interleaving, the two halves are \<open>onNotify\<close> over \<open>Publish\<close>.\<close>

lemma node_notify_sequential:
  assumes "onNotify (redis_Publish reply ok) False tid \<lparr>ns_ps = rn_ps v, ns_novel = rn_novel v, ns_errors = rn_errors v\<rparr> = n"
  shows "(if reply = SetOK then node_published ok tid (node_set reply tid v) else node_set reply tid v) =
    v\<lparr>rn_ps := ns_ps n, rn_novel := ns_novel n, rn_errors := ns_errors n\<rparr>"
  using assms
  by (cases reply) (auto simp: onNotify_def redis_Publish_def node_published_def node_set_def Let_def)

section \<open>The invariant\<close>

text \<open>A process has broadcast, and put into the channels of its streams, only messages published.\<close>

definition node_ok :: "duration \<Rightarrow> bytes list \<Rightarrow> redisNode \<Rightarrow> bool" where
  "node_ok ttl D v \<longleftrightarrow> rp_ttl (rn_ps v) = ttl \<and>
     offers (\<lambda>xs. mset xs \<subseteq># mset (rp_handled (rn_ps v))) (rn_srv v) \<and>
     mset (rp_handled (rn_ps v)) + mset (rn_inbox v) \<subseteq># mset D"

definition spaced :: "duration \<Rightarrow> (time \<times> bytes) list \<Rightarrow> bool" where
  "spaced ttl adds \<longleftrightarrow> sorted_wrt (\<lambda>(a, t) (b, u). t = u \<longrightarrow> a + ttl \<le> b) adds"

text \<open>The keys set and not yet expired are in Redis.\<close>

definition keys_ok :: "('r \<Rightarrow> string \<Rightarrow> time \<Rightarrow> bool) \<Rightarrow> duration \<Rightarrow> time \<Rightarrow> 'r \<Rightarrow> (time \<times> bytes) list \<Rightarrow> bool" where
  "keys_ok live ttl now r adds \<longleftrightarrow> spaced ttl adds \<and>
     (\<forall>(a, t) \<in> set adds. a \<le> now \<and> (\<forall>u. now \<le> u \<and> u < a + ttl \<longrightarrow> live r (decidedKey t) u))"

definition cluster_inv :: "('r \<Rightarrow> string \<Rightarrow> time \<Rightarrow> bool) \<Rightarrow> duration \<Rightarrow> 'r clusterState \<Rightarrow> bool" where
  "cluster_inv live ttl s \<longleftrightarrow> (\<forall>v \<in> set (cl_nodes s). node_ok ttl (cl_published s) v) \<and>
     keys_ok live ttl (cl_clock s) (cl_redis s) (cl_adds s) \<and>
     mset (cl_published s) + mset (map snd (cl_publishing s)) \<subseteq># mset (map snd (cl_adds s))"

lemma subset_mset_addD1: "M + N \<subseteq># K \<Longrightarrow> M \<subseteq># K"
  by (rule subset_mset.order_trans [OF mset_subset_eq_add_left])

lemma ball_update: "\<forall>x \<in> set xs. P x \<Longrightarrow> P y \<Longrightarrow> \<forall>x \<in> set (xs[i := y]). P x"
  using set_update_subset_insert [of xs i y] by blast

lemma keys_ok_Set:
  assumes "redis_ok ops live" and "keys_ok live ttl now r adds" and set: "redis_Set ops (decidedKey tid) ttl now r = Some r'"
  shows "keys_ok live ttl now r' (adds @ [(now, tid)])"
proof -
  have no: "\<not> live r (decidedKey tid) now"
    and lv: "live r' k t = (if k = decidedKey tid then t < now + ttl else live r k t)" for k t
    using assms(1) set unfolding redis_ok_def by blast+
  have "\<forall>(a, t) \<in> set adds. t = tid \<longrightarrow> a + ttl \<le> now"
    using assms(2) no unfolding keys_ok_def by (fastforce simp: not_le)
  then have "spaced ttl (adds @ [(now, tid)])"
    using assms(2) by (auto simp: keys_ok_def spaced_def sorted_wrt_append)
  moreover have "live r' (decidedKey t) u" if "(a, t) \<in> set adds" "now \<le> u" "u < a + ttl" for a t u
  proof (cases "t = tid")
    case True
    have "a \<le> now" using assms(2) that(1) by (auto simp: keys_ok_def)
    then show ?thesis using that True by (simp add: lv)
  next
    case False
    then show ?thesis using assms(2) that by (auto simp: lv keys_ok_def decidedKey_inj)
  qed
  moreover have "\<forall>(a, t) \<in> set adds. a \<le> now" using assms(2) by (auto simp: keys_ok_def)
  ultimately show ?thesis by (auto simp: keys_ok_def lv)
qed

lemma keys_ok_time: "keys_ok live ttl now r adds \<Longrightarrow> now \<le> now' \<Longrightarrow> keys_ok live ttl now' r adds"
  by (fastforce simp: keys_ok_def)

lemma node_ok_set: "node_ok ttl D v \<Longrightarrow> node_ok ttl D (node_set reply tid v)"
  by (simp add: node_ok_def node_set_def redis_SetNX_def)

lemma node_ok_published: "node_ok ttl D v \<Longrightarrow> node_ok ttl D (node_published ok tid v)"
  by (simp add: node_ok_def node_published_def redis_PUBLISH_def Let_def)

lemma node_ok_receive: "node_ok ttl D v \<Longrightarrow> rn_inbox v = tid # rest \<Longrightarrow> node_ok ttl D (node_receive tid v)"
  using offers_Broadcast_mset [of "rp_handled (rn_ps v)" "rn_srv v" tid]
  by (auto simp: node_ok_def node_receive_def redis_receive_def)

lemma node_ok_server:
  assumes "node_ok ttl D v" and "server_step msgSize (rn_srv v) l w" and "\<And>tid. l \<noteq> LBroadcast tid"
  shows "node_ok ttl D (v\<lparr>rn_srv := w\<rparr>)"
  using assms(1) offers_step [OF assms(2,3)] by (simp add: node_ok_def)

lemma node_ok_inbox:
  assumes "node_ok ttl D v"
  shows "node_ok ttl (D @ [tid]) v" and "node_ok ttl (D @ [tid]) (v\<lparr>rn_inbox := rn_inbox v @ [tid]\<rparr>)"
  using assms by (auto simp: node_ok_def intro: subset_mset.order_trans)

lemma node_ok_lose: "node_ok ttl D v \<Longrightarrow> rn_inbox v = tid # rest \<Longrightarrow> node_ok ttl D (v\<lparr>rn_inbox := rest\<rparr>)"
  using mset_subset_eq_insertD [of tid "mset (rp_handled (rn_ps v)) + mset rest" "mset D"]
  by (auto simp: node_ok_def)

lemma deliver_ok:
  assumes "\<forall>v \<in> set vs. node_ok ttl D v"
  shows "\<forall>v \<in> set (redis_deliver to tid vs). node_ok ttl (D @ [tid]) v"
  using assms node_ok_inbox by (auto simp: redis_deliver_def in_set_enumerate_eq)

lemma deliver_length [simp]: "length (redis_deliver to tid vs) = length vs"
  by (simp add: redis_deliver_def)

lemma publishing_removed:
  assumes "(i, t) \<in> set ps" and "M + mset (map snd ps) \<subseteq># N"
  shows "M + {#t#} + mset (map snd (remove1 (i, t) ps)) \<subseteq># N" and "M + mset (map snd (remove1 (i, t) ps)) \<subseteq># N"
proof -
  have eq: "mset (map snd ps) = {#t#} + mset (map snd (remove1 (i, t) ps))"
    using assms(1) by (induction ps) auto
  show "M + {#t#} + mset (map snd (remove1 (i, t) ps)) \<subseteq># N" using assms(2) unfolding eq by (simp add: add.assoc)
  then show "M + mset (map snd (remove1 (i, t) ps)) \<subseteq># N"
    using mset_subset_eq_insertD by fastforce
qed

text \<open>A step that changes one process, and the rest only in ways that keep the invariant.\<close>

lemma upd_node_inv:
  assumes "cluster_inv live ttl s" and "node_ok ttl (cl_published s) (f (cl_nodes s ! i))"
  shows "cluster_inv live ttl (upd_node i f s)"
  using assms ball_update [of "cl_nodes s" "node_ok ttl (cl_published s)" "f (cl_nodes s ! i)" i]
  by (simp add: cluster_inv_def upd_node_def)

lemma redis_notify_inv:
  assumes I: "cluster_inv live ttl s" and i: "i < length (cl_nodes s)" and "reply \<noteq> SetOK"
  shows "cluster_inv live ttl (redis_notify i reply tid s)"
proof -
  have "cluster_inv live ttl (upd_node i (node_set reply tid) s)"
    by (rule upd_node_inv [OF I]) (use I i node_ok_set in \<open>auto simp: cluster_inv_def\<close>)
  then show ?thesis using assms(3) by (simp add: cluster_inv_def redis_notify_def upd_node_def)
qed

lemma cluster_node: "cluster_inv live ttl s \<Longrightarrow> i < length (cl_nodes s) \<Longrightarrow> node_ok ttl (cl_published s) (cl_nodes s ! i)"
  by (simp add: cluster_inv_def)

lemma redis_new_inv:
  assumes I: "cluster_inv live ttl s" and ok: "redis_ok ops live" and i: "i < length (cl_nodes s)"
    and set: "redis_Set ops (decidedKey tid) ttl (cl_clock s) (cl_redis s) = Some r"
  shows "cluster_inv live ttl (redis_notify i reply tid (s\<lparr>cl_redis := r, cl_adds := cl_adds s @ [(cl_clock s, tid)]\<rparr>))"
proof -
  have "keys_ok live ttl (cl_clock s) r (cl_adds s @ [(cl_clock s, tid)])"
    by (rule keys_ok_Set [OF ok _ set]) (use I in \<open>simp add: cluster_inv_def\<close>)
  moreover have "\<forall>v \<in> set ((cl_nodes s)[i := node_set reply tid (cl_nodes s ! i)]). node_ok ttl (cl_published s) v"
    by (rule ball_update) (use I node_ok_set [OF cluster_node [OF I i]] in \<open>auto simp: cluster_inv_def\<close>)
  moreover have "mset (cl_published s) + mset (map snd (cl_publishing s)) \<subseteq># mset (map snd (cl_adds s))"
    using I by (simp add: cluster_inv_def)
  ultimately show ?thesis
    by (auto simp: cluster_inv_def redis_notify_def upd_node_def intro: subset_mset.order_trans)
qed

lemma redis_published_inv:
  assumes I: "cluster_inv live ttl s" and i: "i < length (cl_nodes s)" and p: "(i, tid) \<in> set (cl_publishing s)"
  shows "cluster_inv live ttl (redis_published i ok to tid s)"
proof -
  have "\<forall>v \<in> set ((cl_nodes s)[i := node_published ok tid (cl_nodes s ! i)]). node_ok ttl (cl_published s) v"
    by (rule ball_update) (use I node_ok_published [OF cluster_node [OF I i]] in \<open>auto simp: cluster_inv_def\<close>)
  from deliver_ok [OF this] show ?thesis
    using I publishing_removed(1) [OF p, of "mset (cl_published s)"]
    by (simp add: cluster_inv_def redis_published_def upd_node_def)
qed

lemma cluster_step_inv:
  assumes "cluster_step ops msgSize s l t" and ok: "redis_ok ops live" and I: "cluster_inv live ttl s"
  shows "cluster_inv live ttl t"
proof -
  have srv: "cluster_inv live ttl (upd_node i (\<lambda>n. n\<lparr>rn_srv := v\<rparr>) s)"
    if "i < length (cl_nodes s)" "server_step msgSize (rn_srv (cl_nodes s ! i)) m v" "\<And>tid. m \<noteq> LBroadcast tid" for i m v
    by (rule upd_node_inv [OF I]) (use node_ok_server [OF cluster_node [OF I that(1)] that(2,3)] in simp)
  have len: "length (cl_nodes (upd_node i f s)) = length (cl_nodes s)" for i f by (simp add: upd_node_def)
  from assms(1) show ?thesis
  proof cases
    case (kl_server i m v)
    then have "m \<noteq> LBroadcast tid" for tid by auto
    then show ?thesis using srv kl_server by simp
  next
    case (kl_ignore i n tid v)
    then show ?thesis using srv by simp
  next
    case (kl_new i n tid v r reply)
    let ?u = "upd_node i (\<lambda>n. n\<lparr>rn_srv := v\<rparr>) s"
    have "rp_ttl (rn_ps (cl_nodes s ! i)) = ttl" using cluster_node [OF I kl_new(3)] by (simp add: node_ok_def)
    then show ?thesis
      using redis_new_inv [OF srv [OF kl_new(3,4)] ok, of i tid r reply] kl_new by (simp add: upd_node_def)
  next
    case (kl_known i n tid v)
    then show ?thesis using redis_notify_inv [OF srv] len by simp
  next
    case (kl_set_failed i n tid v reply)
    then show ?thesis using redis_notify_inv [OF srv, of i "LRecvNotify n tid" v i reply tid] len by auto
  next
    case (kl_publish i tid ok to)
    then show ?thesis using redis_published_inv [OF I] by simp
  next
    case (kl_publish_failed i tid)
    have "cluster_inv live ttl (upd_node i (node_published False tid) s)"
      by (rule upd_node_inv [OF I], rule node_ok_published, rule cluster_node [OF I kl_publish_failed(3)])
    then show ?thesis
      using kl_publish_failed(2) publishing_removed(2) [OF kl_publish_failed(4), of "mset (cl_published s)"]
      by (simp add: cluster_inv_def upd_node_def)
  next
    case (kl_receive i tid rest)
    then show ?thesis
      using upd_node_inv [OF I, of "node_receive tid" i] node_ok_receive [OF cluster_node [OF I]] by simp
  next
    case (kl_lose i tid rest)
    then show ?thesis
      using upd_node_inv [OF I, of "\<lambda>n. n\<lparr>rn_inbox := rest\<rparr>" i] node_ok_lose [OF cluster_node [OF I]] by simp
  next
    case (kl_time now)
    then show ?thesis
      using I keys_ok_time [of live ttl "cl_clock s" "cl_redis s" "cl_adds s" now] by (simp add: cluster_inv_def)
  next
    case (kl_stop i)
    have "node_ok ttl (cl_published s) ((cl_nodes s ! i)\<lparr>rn_ctxDone := True\<rparr>)"
      using cluster_node [OF I kl_stop(3)] by (simp add: node_ok_def)
    then show ?thesis using upd_node_inv [OF I, of "\<lambda>n. n\<lparr>rn_ctxDone := True\<rparr>"] kl_stop(2) by simp
  next
    case (kl_close i writeOk readOk)
    have "node_ok ttl (cl_published s) ((cl_nodes s ! i)\<lparr>rn_ps := snd (redis_Close writeOk readOk (rn_ps (cl_nodes s ! i)))\<rparr>)"
      using cluster_node [OF I kl_close(3)] by (simp add: node_ok_def redis_Close_def)
    then show ?thesis
      using upd_node_inv [OF I, of "\<lambda>n. n\<lparr>rn_ps := snd (redis_Close writeOk readOk (rn_ps n))\<rparr>"] kl_close(2) by simp
  qed
qed

lemma cluster_reach_inv:
  assumes "redis_ok ops live" and "run (cluster_step ops msgSize) (cluster_New ttl owns r now) ls s"
  shows "cluster_inv live ttl s"
proof (rule run_invariant [OF assms(2)])
  show "cluster_inv live ttl (cluster_New ttl owns r now)"
    using offers_New by (auto simp: cluster_inv_def cluster_New_def node_New_def node_ok_def redis_New_def keys_ok_def spaced_def)
qed (use assms(1) cluster_step_inv in blast)

section \<open>Properties\<close>


text \<open>Redis as an association list of keys and the times until which they exist.\<close>

definition exRedis :: "(string \<times> time) list redisOps" where
  "exRedis = \<lparr>redis_Set = (\<lambda>k ttl now r. if \<exists>e. map_of r k = Some e \<and> now < e then None else Some ((k, now + ttl) # r))\<rparr>"

lemma exRedis_ok: "redis_ok exRedis (\<lambda>r k t. \<exists>e. map_of r k = Some e \<and> t < e)"
  by (auto simp: redis_ok_def exRedis_def split: if_splits)

text \<open>Two processes are notified of the same trace; one publishes it, the other broadcasts it.\<close>

lemma ex_cluster:
  "\<exists>s. run (cluster_step exRedis length) (cluster_New 5 [False, False] [] 0)
       [KServer 0 (LConnect (exConn 1)), KServer 1 (LConnect (exConn 2)), KNotify 0 0 [7], KNotify 1 0 [7], KPublish 0 [7], KReceive 1] s \<and>
     cl_adds s = [(0, [7])] \<and> cl_published s = [[7]] \<and> map (\<lambda>v. rp_handled (rn_ps v)) (cl_nodes s) = [[], [[7]]] \<and>
     map (\<lambda>v. map se_offered (sv_conns (rn_srv v))) (cl_nodes s) = [[[]], [[[7]]]]"
proof -
  define a :: "(string \<times> time) list clusterState" where "a = cluster_New 5 [False, False] [] 0"
  define b where "b = upd_node 0 (\<lambda>n. n\<lparr>rn_srv := register (exConn 1) (rn_srv (cl_nodes a ! 0))\<rparr>) a"
  define c where "c = upd_node 1 (\<lambda>n. n\<lparr>rn_srv := register (exConn 2) (rn_srv (cl_nodes b ! 1))\<rparr>) b"
  define d where "d = redis_notify 0 SetOK [7] ((upd_node 0 (\<lambda>n. n\<lparr>rn_srv := count_in 0 (rn_srv (cl_nodes c ! 0))\<rparr>) c)
    \<lparr>cl_redis := [(decidedKey [7], 0 + 5)], cl_adds := cl_adds c @ [(cl_clock c, [7])]\<rparr>)"
  define e where "e = redis_notify 1 SetNil [7] (upd_node 1 (\<lambda>n. n\<lparr>rn_srv := count_in 0 (rn_srv (cl_nodes d ! 1))\<rparr>) d)"
  define f where "f = redis_published 0 True {1} [7] e"
  define g where "g = upd_node 1 (node_receive [7]) f"
  note defs = a_def b_def c_def cluster_New_def node_New_def upd_node_def server_New_def register_def newEntry_def map_delete_def
    redis_New_def exRedis_def count_in_def
  note more_defs = defs d_def e_def redis_notify_def node_set_def redis_SetNX_def
  have b: "cluster_step exRedis length a (KServer 0 (LConnect (exConn 1))) b"
    unfolding b_def by (rule kl_server, simp add: defs, simp, rule exConnect)
  have c: "cluster_step exRedis length b (KServer 1 (LConnect (exConn 2))) c"
    unfolding c_def by (rule kl_server, simp add: defs, simp, rule exConnect)
  have d: "cluster_step exRedis length c (KNotify 0 0 [7]) d"
    unfolding d_def by (rule kl_new, simp add: defs, rule sv_notify) (simp_all add: defs)
  have e: "cluster_step exRedis length d (KNotify 1 0 [7]) e"
    unfolding e_def by (rule kl_known, simp add: more_defs, rule sv_notify) (simp_all add: more_defs)
  have f: "cluster_step exRedis length e (KPublish 0 [7]) f"
    unfolding f_def by (rule kl_publish) (simp_all add: more_defs)
  have inbox: "rn_inbox (cl_nodes f ! 1) = [[7]]"
    by (simp add: f_def redis_published_def redis_deliver_def node_published_def redis_PUBLISH_def Let_def more_defs)
  have g: "cluster_step exRedis length f (KReceive 1) g"
    unfolding g_def
    by (rule kl_receive [OF _ inbox])
      (simp add: f_def redis_published_def redis_deliver_def node_published_def Let_def more_defs)
  have "cl_adds g = [(0, [7])] \<and> cl_published g = [[7]] \<and> map (\<lambda>v. rp_handled (rn_ps v)) (cl_nodes g) = [[], [[7]]] \<and>
      map (\<lambda>v. map se_offered (sv_conns (rn_srv v))) (cl_nodes g) = [[[]], [[[7]]]]"
    by (simp add: g_def f_def redis_published_def redis_deliver_def node_published_def redis_PUBLISH_def node_receive_def
        redis_receive_def Broadcast_def Broadcast_one_def upd_conn_def offer_def try_send_def streamCap_def Let_def more_defs)
  moreover note r = run_snoc [OF run_snoc [OF run_snoc [OF run_nil [of "cluster_step exRedis length" a] b] c] d]
  note r = run_snoc [OF run_snoc [OF run_snoc [OF r e] f] g]
  ultimately show ?thesis using r by (auto simp: a_def)
qed


end
