(* ===== verification/Coord_Relay.thy ===== *)
theory Coord_Relay
  imports Coord_Cluster
begin

text \<open>
  What the collectors rely on, whichever mode the coordinator runs in: a batch it sends holds only
  trace IDs it was notified of. \<open>decision_relay\<close> is that contract over a step relation; a coordinator
  in single-node mode and a cluster of coordinators in distributed mode fulfil it.

  A coordinator in proxy mode (\<open>coordinator/main.go\<close>, \<open>coordinator/proxy\<close>) is a server whose \<open>PubSub\<close>
  is a client of another coordinator. \<open>proxied_step\<close> puts any number of such proxies in front of a
  parent; if the parent fulfils the contract then so does the whole, so proxies can be stacked.
\<close>

section \<open>The contract\<close>

text \<open>
  \<open>notified l\<close>: the IDs that come in with a step. \<open>batches s\<close>: what has been passed to \<open>Send\<close>.
  \<open>carries Q s\<close>: every ID inside satisfies \<open>Q\<close>.
\<close>

locale decision_relay =
  fixes cstep :: "'d \<Rightarrow> 'm \<Rightarrow> 'd \<Rightarrow> bool"
    and start :: "'d \<Rightarrow> bool"
    and notified :: "'m \<Rightarrow> bytes set"
    and batches :: "'d \<Rightarrow> bytes list set"
    and carries :: "(bytes \<Rightarrow> bool) \<Rightarrow> 'd \<Rightarrow> bool"
  assumes carries_start: "start s \<Longrightarrow> carries Q s"
    and carries_step: "cstep s l t \<Longrightarrow> carries Q s \<Longrightarrow> (\<And>x. x \<in> notified l \<Longrightarrow> Q x) \<Longrightarrow> carries Q t"
    and carries_batch: "carries Q s \<Longrightarrow> ids \<in> batches s \<Longrightarrow> x \<in> set ids \<Longrightarrow> Q x"
    and carries_mono: "carries Q s \<Longrightarrow> (\<And>x. Q x \<Longrightarrow> R x) \<Longrightarrow> carries R s"
begin

lemma run_carries:
  assumes "run cstep s ls t" and "start s" and "\<And>l x. l \<in> set ls \<Longrightarrow> x \<in> notified l \<Longrightarrow> Q x"
  shows "carries Q t"
  by (rule run_invariant [OF assms(1)]) (use assms(2,3) carries_start carries_step in auto)

lemma sends_only_notified:
  assumes "run cstep s ls t" and "start s" and "ids \<in> batches t" and "x \<in> set ids"
  shows "\<exists>l \<in> set ls. x \<in> notified l"
  using carries_batch [OF run_carries [OF assms(1,2), of "\<lambda>x. \<exists>l \<in> set ls. x \<in> notified l"] assms(3,4)] by blast

end

section \<open>Servers\<close>

definition server_batches :: "serverState \<Rightarrow> bytes list set" where
  "server_batches s = (\<Union>c \<in> set (sv_conns s). fst ` set (se_batches c))"

definition server_ids :: "(bytes \<Rightarrow> bool) \<Rightarrow> serverState \<Rightarrow> bool" where
  "server_ids Q s \<longleftrightarrow> offers (list_all Q) s"

lemma server_ids_step:
  "server_step msgSize s l t \<Longrightarrow> (\<And>tid. l \<noteq> LBroadcast tid) \<Longrightarrow> server_ids Q s \<Longrightarrow> server_ids Q t"
  unfolding server_ids_def by (erule offers_step) auto

lemma server_ids_Broadcast: "server_ids Q s \<Longrightarrow> Q tid \<Longrightarrow> server_ids Q (Broadcast tid s)"
  unfolding server_ids_def by (erule offers_Broadcast) auto

lemma server_ids_batch: "server_ids Q s \<Longrightarrow> ids \<in> server_batches s \<Longrightarrow> x \<in> set ids \<Longrightarrow> Q x"
  using offers_batch [of "list_all Q" s] by (fastforce simp: server_ids_def server_batches_def list_all_iff)

lemma server_ids_mono: "server_ids Q s \<Longrightarrow> (\<And>x. Q x \<Longrightarrow> R x) \<Longrightarrow> server_ids R s"
  unfolding server_ids_def by (erule offers_mono) (auto simp: list_all_iff)

lemma server_ids_New: "server_ids Q (server_New bi bo (Some 0) se)"
  by (simp add: server_ids_def offers_New)

section \<open>Single-node mode\<close>

fun coord_notified :: "coordLabel \<Rightarrow> bytes set" where
  "coord_notified (CNotify n t) = {t}"
| "coord_notified _ = {}"

definition coord_batches :: "'c coordState \<Rightarrow> bytes list set" where
  "coord_batches s = server_batches (cd_srv s)"

definition coord_ids :: "(bytes \<Rightarrow> bool) \<Rightarrow> 'c coordState \<Rightarrow> bool" where
  "coord_ids Q s \<longleftrightarrow> server_ids Q (cd_srv s) \<and> list_all Q (cd_pending s)"

lemma coord_step_ids:
  assumes "coord_step ops msgSize s l t" and I: "coord_ids Q s" and N: "\<And>x. x \<in> coord_notified l \<Longrightarrow> Q x"
  shows "coord_ids Q t"
  using assms(1)
proof cases
  case (cd_server m v)
  then have "m \<noteq> LBroadcast tid" for tid by auto
  then show ?thesis using I server_ids_step [OF cd_server(4)] cd_server(2) by (simp add: coord_ids_def)
next
  case (cd_notify n tid v)
  have "server_ids Q v" using I server_ids_step [OF cd_notify(3)] by (simp add: coord_ids_def)
  moreover have "Q tid" using N cd_notify(1) by simp
  ultimately show ?thesis
    using I unfolding cd_notify(2) single_notify_def by (auto simp: coord_ids_def split: prod.splits)
next
  case (cd_handle tid)
  have "Q tid" using I cd_handle(3) by (auto simp: coord_ids_def list_all_iff)
  then show ?thesis
    using I server_ids_Broadcast notin_set_remove1 [of _ "cd_pending s" tid] unfolding cd_handle(2)
    by (auto simp: coord_ids_def single_handle_def list_all_iff)
qed (use I in \<open>simp_all add: coord_ids_def single_count_def\<close>)

interpretation single: decision_relay "coord_step ops msgSize" "\<lambda>s. \<exists>ttl now. s = coord_New ops ttl now"
  coord_notified coord_batches coord_ids for ops msgSize
proof
  show "\<exists>ttl now. s = coord_New ops ttl now \<Longrightarrow> coord_ids Q s" for s Q
    by (auto simp: coord_ids_def coord_New_def server_ids_New)
  show "coord_ids Q s \<Longrightarrow> (\<And>x. Q x \<Longrightarrow> R x) \<Longrightarrow> coord_ids R s" for Q R and s :: "'a coordState"
    by (auto simp: coord_ids_def list_all_iff intro: server_ids_mono)
  show "coord_ids Q s \<Longrightarrow> ids \<in> coord_batches s \<Longrightarrow> x \<in> set ids \<Longrightarrow> Q x" for Q ids x and s :: "'a coordState"
    by (auto simp: coord_ids_def coord_batches_def intro: server_ids_batch)
qed (rule coord_step_ids)

section \<open>Distributed mode\<close>

fun cluster_notified :: "clusterLabel \<Rightarrow> bytes set" where
  "cluster_notified (KNotify i n t) = {t}"
| "cluster_notified _ = {}"

definition cluster_batches :: "'r clusterState \<Rightarrow> bytes list set" where
  "cluster_batches s = (\<Union>v \<in> set (cl_nodes s). server_batches (rn_srv v))"

definition node_ids :: "(bytes \<Rightarrow> bool) \<Rightarrow> redisNode \<Rightarrow> bool" where
  "node_ids Q v \<longleftrightarrow> server_ids Q (rn_srv v) \<and> list_all Q (rn_inbox v)"

definition cluster_ids :: "(bytes \<Rightarrow> bool) \<Rightarrow> 'r clusterState \<Rightarrow> bool" where
  "cluster_ids Q s \<longleftrightarrow> (\<forall>v \<in> set (cl_nodes s). node_ids Q v) \<and> (\<forall>(i, t) \<in> set (cl_publishing s). Q t)"

lemma upd_node_ids:
  "cluster_ids Q s \<Longrightarrow> node_ids Q (f (cl_nodes s ! i)) \<Longrightarrow> cluster_ids Q (upd_node i f s)"
  using ball_update [of "cl_nodes s" "node_ids Q" "f (cl_nodes s ! i)" i] by (simp add: cluster_ids_def upd_node_def)

lemma cluster_node_ids: "cluster_ids Q s \<Longrightarrow> i < length (cl_nodes s) \<Longrightarrow> node_ids Q (cl_nodes s ! i)"
  by (simp add: cluster_ids_def)

lemma redis_notify_ids:
  assumes "cluster_ids Q s" and "i < length (cl_nodes s)" and "Q tid"
  shows "cluster_ids Q (redis_notify i reply tid s)"
proof -
  have "node_ids Q (node_set reply tid (cl_nodes s ! i))"
    using cluster_node_ids [OF assms(1,2)] by (simp add: node_ids_def node_set_def)
  from upd_node_ids [of Q s "node_set reply tid", OF assms(1) this] show ?thesis
    using assms(3) by (auto simp: cluster_ids_def redis_notify_def upd_node_def)
qed

lemma cluster_step_ids:
  assumes "cluster_step ops msgSize s l t" and I: "cluster_ids Q s" and N: "\<And>x. x \<in> cluster_notified l \<Longrightarrow> Q x"
  shows "cluster_ids Q t"
proof -
  have srv: "cluster_ids Q (upd_node i (\<lambda>n. n\<lparr>rn_srv := v\<rparr>) s)"
    if "i < length (cl_nodes s)" "server_step msgSize (rn_srv (cl_nodes s ! i)) m v" "\<And>tid. m \<noteq> LBroadcast tid" for i m v
    by (rule upd_node_ids [OF I]) (use cluster_node_ids [OF I that(1)] server_ids_step [OF that(2,3)] in \<open>auto simp: node_ids_def\<close>)
  have len: "length (cl_nodes (upd_node i f s)) = length (cl_nodes s)" for i f by (simp add: upd_node_def)
  have pub: "node_ids Q (node_published ok tid (cl_nodes s ! i))" if "i < length (cl_nodes s)" for ok tid i
    using cluster_node_ids [OF I that] by (simp add: node_ids_def node_published_def Let_def)
  have rem: "\<forall>(j, u) \<in> set (remove1 x (cl_publishing s)). Q u" for x
    using I set_remove1_subset [of x "cl_publishing s"] by (auto simp: cluster_ids_def)
  from assms(1) show ?thesis
  proof cases
    case (kl_server i m v)
    then have "m \<noteq> LBroadcast tid" for tid by auto
    then show ?thesis using srv kl_server by simp
  next
    case (kl_ignore i n tid v)
    then show ?thesis using srv by simp
  next
    case (kl_new i n tid v r reply)
    let ?u = "(upd_node i (\<lambda>n. n\<lparr>rn_srv := v\<rparr>) s)\<lparr>cl_redis := r, cl_adds := cl_adds s @ [(cl_clock s, tid)]\<rparr>"
    have "cluster_ids Q ?u" using srv [OF kl_new(3,4)] by (simp add: cluster_ids_def)
    from redis_notify_ids [OF this] show ?thesis using kl_new N len by simp
  next
    case (kl_known i n tid v)
    then show ?thesis using redis_notify_ids [OF srv] len N by simp
  next
    case (kl_set_failed i n tid v reply)
    then show ?thesis using redis_notify_ids [OF srv] len N by simp
  next
    case (kl_publish i tid ok to)
    have u: "cluster_ids Q (upd_node i (node_published ok tid) s)" by (rule upd_node_ids [OF I], rule pub [OF kl_publish(3)])
    have "Q tid" using I kl_publish(4) by (auto simp: cluster_ids_def)
    then have "\<forall>v \<in> set (redis_deliver to tid (cl_nodes (upd_node i (node_published ok tid) s))). node_ids Q v"
      using u by (auto simp: cluster_ids_def redis_deliver_def node_ids_def in_set_enumerate_eq)
    then show ?thesis
      using rem kl_publish(2)
      by (simp add: cluster_ids_def redis_published_def upd_node_def)
  next
    case (kl_publish_failed i tid)
    have "cluster_ids Q (upd_node i (node_published False tid) s)" by (rule upd_node_ids [OF I], rule pub [OF kl_publish_failed(3)])
    then show ?thesis
      using kl_publish_failed(2) rem
      by (simp add: cluster_ids_def upd_node_def)
  next
    case (kl_receive i tid rest)
    have "node_ids Q (node_receive tid (cl_nodes s ! i))"
      using cluster_node_ids [OF I kl_receive(3)] kl_receive(4) server_ids_Broadcast by (simp add: node_ids_def node_receive_def)
    then show ?thesis using upd_node_ids [OF I, of "node_receive tid" i] kl_receive(2) by simp
  next
    case (kl_lose i tid rest)
    have "node_ids Q ((cl_nodes s ! i)\<lparr>rn_inbox := rest\<rparr>)"
      using cluster_node_ids [OF I kl_lose(3)] kl_lose(4) by (simp add: node_ids_def)
    then show ?thesis using upd_node_ids [OF I, of "\<lambda>n. n\<lparr>rn_inbox := rest\<rparr>" i] kl_lose(2) by simp
  next
    case (kl_time now)
    then show ?thesis using I by (simp add: cluster_ids_def)
  next
    case (kl_stop i)
    have "node_ids Q ((cl_nodes s ! i)\<lparr>rn_ctxDone := True\<rparr>)"
      using cluster_node_ids [OF I kl_stop(3)] by (simp add: node_ids_def)
    then show ?thesis using upd_node_ids [OF I, of "\<lambda>n. n\<lparr>rn_ctxDone := True\<rparr>" i] kl_stop(2) by simp
  next
    case (kl_close i writeOk readOk)
    have "node_ids Q ((cl_nodes s ! i)\<lparr>rn_ps := snd (redis_Close writeOk readOk (rn_ps (cl_nodes s ! i)))\<rparr>)"
      using cluster_node_ids [OF I kl_close(3)] by (simp add: node_ids_def)
    then show ?thesis
      using upd_node_ids [OF I, of "\<lambda>n. n\<lparr>rn_ps := snd (redis_Close writeOk readOk (rn_ps n))\<rparr>" i] kl_close(2) by simp
  qed
qed

interpretation clustered: decision_relay "cluster_step ops msgSize" "\<lambda>s. \<exists>ttl owns r now. s = cluster_New ttl owns r now"
  cluster_notified cluster_batches cluster_ids for ops msgSize
proof
  show "\<exists>ttl owns r now. s = cluster_New ttl owns r now \<Longrightarrow> cluster_ids Q s" for s :: "'a clusterState" and Q
    by (auto simp: cluster_ids_def cluster_New_def node_New_def node_ids_def server_ids_New)
  show "cluster_ids Q s \<Longrightarrow> (\<And>x. Q x \<Longrightarrow> R x) \<Longrightarrow> cluster_ids R s" for Q R and s :: "'a clusterState"
    by (auto simp: cluster_ids_def node_ids_def list_all_iff intro: server_ids_mono)
  show "cluster_ids Q s \<Longrightarrow> ids \<in> cluster_batches s \<Longrightarrow> x \<in> set ids \<Longrightarrow> Q x" for Q ids x and s :: "'a clusterState"
    by (auto simp: cluster_ids_def cluster_batches_def node_ids_def intro: server_ids_batch)
qed (rule cluster_step_ids)

section \<open>Proxy mode\<close>

text \<open>
  A process in proxy mode: the server, the proxy's \<open>PubSub\<close>, and, for every batch its receiving
  goroutines have got, the IDs whose \<open>Broadcast\<close> is still to come.
\<close>

record proxyNode =
  pn_srv :: serverState
  pn_px :: proxyState
  pn_ctxDone :: bool
  pn_recvs :: "bytes list list"

definition proxyNode_New :: proxyNode where
  "proxyNode_New = \<lparr>pn_srv = server_New (Some 0) (Some 0) (Some 0) (Some 0), pn_px = proxy_New, pn_ctxDone = False,
     pn_recvs = []\<rparr>"

text \<open>\<open>onNotify\<close> over the proxy's \<open>Publish\<close>, which never reports a trace as novel.\<close>

definition proxy_notify :: "bytes \<Rightarrow> proxyNode \<Rightarrow> proxyNode" where
  "proxy_notify tid v = (if pn_ctxDone v then v else v\<lparr>pn_px := snd (proxy_Publish tid (pn_px v))\<rparr>)"

text \<open>One turn of the loop over a received batch: the handler is \<open>Broadcast\<close>.\<close>

definition proxy_handle :: "nat \<Rightarrow> proxyNode \<Rightarrow> proxyNode" where
  "proxy_handle k v = (case pn_recvs v ! k of [] \<Rightarrow> v
     | tid # rest \<Rightarrow> v\<lparr>pn_srv := Broadcast tid (pn_srv v), pn_recvs := (pn_recvs v)[k := rest]\<rparr>)"

datatype proxyNodeLabel = NServer serverLabel | NNotify nat bytes | NRun | NRecv "bytes list" | NHandle nat | NStop | NClose

inductive proxy_node_step :: "(bytes list \<Rightarrow> nat) \<Rightarrow> proxyNode \<Rightarrow> proxyNodeLabel \<Rightarrow> proxyNode \<Rightarrow> bool"
  for msgSize :: "bytes list \<Rightarrow> nat" where
  pn_server: "own_label l \<Longrightarrow> server_step msgSize (pn_srv v) l w \<Longrightarrow>
    proxy_node_step msgSize v (NServer l) (v\<lparr>pn_srv := w\<rparr>)"
| pn_notify: "server_step msgSize (pn_srv v) (LRecvNotify n tid) w \<Longrightarrow>
    proxy_node_step msgSize v (NNotify n tid) (proxy_notify tid (v\<lparr>pn_srv := w\<rparr>))"
| pn_run: "proxy_step (pn_px v) XRun x \<Longrightarrow> proxy_node_step msgSize v NRun (v\<lparr>pn_px := x\<rparr>)"
| pn_recv: "proxy_step (pn_px v) (XRecv ids) x \<Longrightarrow>
    proxy_node_step msgSize v (NRecv ids) (v\<lparr>pn_px := x, pn_recvs := pn_recvs v @ [ids]\<rparr>)"
| pn_handle: "k < length (pn_recvs v) \<Longrightarrow> proxy_node_step msgSize v (NHandle k) (proxy_handle k v)"
| pn_stop: "proxy_node_step msgSize v NStop (v\<lparr>pn_ctxDone := True\<rparr>)"
| pn_close: "pn_ctxDone v \<Longrightarrow> proxy_node_step msgSize v NClose (v\<lparr>pn_px := proxy_Close (pn_px v)\<rparr>)"

definition proxy_ids :: "(bytes \<Rightarrow> bool) \<Rightarrow> proxyNode \<Rightarrow> bool" where
  "proxy_ids Q v \<longleftrightarrow> server_ids Q (pn_srv v) \<and> proxy_inv (pn_px v) \<and> list_all Q (px_queued (pn_px v)) \<and>
     list_all (list_all Q) (pn_recvs v)"

fun node_notified :: "proxyNodeLabel \<Rightarrow> bytes set" where
  "node_notified (NNotify n t) = {t}"
| "node_notified _ = {}"

lemma proxy_queued:
  assumes "proxy_step p l q"
  shows "px_queued q = px_queued p \<or> (\<exists>tid. l = XPublish tid \<and> px_queued q = px_queued p @ [tid])"
  using assms by cases (auto simp: proxy_Publish_def proxy_Close_def proxy_recv_def leave_send_def split: option.splits)

lemma proxy_node_ids:
  assumes "proxy_node_step msgSize v l w" and I: "proxy_ids Q v" and N: "\<And>x. x \<in> node_notified l \<Longrightarrow> Q x"
    and R: "\<And>ids. l = NRecv ids \<Longrightarrow> list_all Q ids"
  shows "proxy_ids Q w"
  using assms(1)
proof cases
  case (pn_server m u)
  then have "m \<noteq> LBroadcast tid" for tid by auto
  then show ?thesis using I server_ids_step [OF pn_server(4)] pn_server(2) by (simp add: proxy_ids_def)
next
  case (pn_notify n tid u)
  have "server_ids Q u" using I server_ids_step [OF pn_notify(3)] by (simp add: proxy_ids_def)
  moreover have "Q tid" using N pn_notify(1) by simp
  ultimately show ?thesis
    using I proxy_queued [OF x_publish, of tid "pn_px v"] proxy_step_inv [OF x_publish, of "pn_px v" tid] pn_notify(2)
    by (auto simp: proxy_ids_def proxy_notify_def)
next
  case (pn_run x)
  then show ?thesis using I proxy_queued [OF pn_run(3)] proxy_step_inv [OF pn_run(3)] by (auto simp: proxy_ids_def)
next
  case (pn_recv ids x)
  then show ?thesis
    using I R proxy_queued [OF pn_recv(3)] proxy_step_inv [OF pn_recv(3)] by (auto simp: proxy_ids_def)
next
  case (pn_handle k)
  then show ?thesis
  proof (cases "pn_recvs v ! k")
    case (Cons tid rest)
    have "list_all Q (tid # rest)" using I pn_handle(3) Cons unfolding proxy_ids_def list_all_length by metis
    moreover have "list_all (list_all Q) ((pn_recvs v)[k := rest])"
      using I \<open>list_all Q (tid # rest)\<close> ball_update [of "pn_recvs v" "list_all Q" rest k]
      by (simp add: proxy_ids_def list_all_iff)
    ultimately show ?thesis
      using I server_ids_Broadcast pn_handle(2) Cons by (simp add: proxy_ids_def proxy_handle_def)
  qed (use I in \<open>simp add: proxy_handle_def\<close>)
next
  case pn_stop
  then show ?thesis using I by (simp add: proxy_ids_def)
next
  case pn_close
  then show ?thesis
    using I proxy_step_inv [OF x_close, of "pn_px v"] proxy_queued [OF x_close, of "pn_px v"] by (auto simp: proxy_ids_def)
qed

section \<open>Proxies in front of a parent\<close>

record 'd proxiedState =
  pd_parent :: 'd
  pd_nodes :: "proxyNode list"

datatype 'm proxiedLabel = PParent 'm | PForward nat 'm | PNode nat proxyNodeLabel

definition proxied_New :: "'d \<Rightarrow> nat \<Rightarrow> 'd proxiedState" where
  "proxied_New d n = \<lparr>pd_parent = d, pd_nodes = replicate n proxyNode_New\<rparr>"

text \<open>
  The parent hears from its own clients (\<open>PParent\<close>) and from proxies (\<open>PForward\<close>): what a proxy has taken
  out for \<open>Send\<close>. A proxy receives a batch the parent has passed to \<open>Send\<close>. As everywhere, nothing is
  assumed about order, loss or duplication on the way.
\<close>

inductive proxied_step :: "(bytes list \<Rightarrow> nat) \<Rightarrow> ('d \<Rightarrow> 'm \<Rightarrow> 'd \<Rightarrow> bool) \<Rightarrow> ('m \<Rightarrow> bytes set) \<Rightarrow> ('d \<Rightarrow> bytes list set) \<Rightarrow>
    'd proxiedState \<Rightarrow> 'm proxiedLabel \<Rightarrow> 'd proxiedState \<Rightarrow> bool"
  for msgSize :: "bytes list \<Rightarrow> nat" and cstep :: "'d \<Rightarrow> 'm \<Rightarrow> 'd \<Rightarrow> bool" and notified :: "'m \<Rightarrow> bytes set"
    and batches :: "'d \<Rightarrow> bytes list set" where
  pd_own: "cstep (pd_parent s) m d \<Longrightarrow> proxied_step msgSize cstep notified batches s (PParent m) (s\<lparr>pd_parent := d\<rparr>)"
| pd_forward: "j < length (pd_nodes s) \<Longrightarrow> cstep (pd_parent s) m d \<Longrightarrow>
    notified m \<subseteq> fst ` set (px_taken (pn_px (pd_nodes s ! j))) \<Longrightarrow>
    proxied_step msgSize cstep notified batches s (PForward j m) (s\<lparr>pd_parent := d\<rparr>)"
| pd_node: "j < length (pd_nodes s) \<Longrightarrow> proxy_node_step msgSize (pd_nodes s ! j) l v \<Longrightarrow>
    (\<And>ids. l = NRecv ids \<Longrightarrow> ids \<in> batches (pd_parent s)) \<Longrightarrow>
    proxied_step msgSize cstep notified batches s (PNode j l) (s\<lparr>pd_nodes := (pd_nodes s)[j := v]\<rparr>)"

fun proxied_notified :: "('m \<Rightarrow> bytes set) \<Rightarrow> 'm proxiedLabel \<Rightarrow> bytes set" where
  "proxied_notified notified (PParent m) = notified m"
| "proxied_notified notified (PForward j m) = {}"
| "proxied_notified notified (PNode j l) = node_notified l"

definition proxied_batches :: "('d \<Rightarrow> bytes list set) \<Rightarrow> 'd proxiedState \<Rightarrow> bytes list set" where
  "proxied_batches batches s = batches (pd_parent s) \<union> (\<Union>v \<in> set (pd_nodes s). server_batches (pn_srv v))"

definition proxied_ids :: "((bytes \<Rightarrow> bool) \<Rightarrow> 'd \<Rightarrow> bool) \<Rightarrow> (bytes \<Rightarrow> bool) \<Rightarrow> 'd proxiedState \<Rightarrow> bool" where
  "proxied_ids carries Q s \<longleftrightarrow> carries Q (pd_parent s) \<and> (\<forall>v \<in> set (pd_nodes s). proxy_ids Q v)"

lemma proxyNode_New_ids: "proxy_ids Q proxyNode_New"
  by (simp add: proxy_ids_def proxyNode_New_def server_ids_New proxy_inv_def proxy_New_def maxBackoff_def px_second_def)

lemma proxy_ids_mono: "proxy_ids Q v \<Longrightarrow> (\<And>x. Q x \<Longrightarrow> R x) \<Longrightarrow> proxy_ids R v"
  by (auto simp: proxy_ids_def list_all_iff intro: server_ids_mono)

context decision_relay
begin

lemma proxied_step_ids:
  assumes "proxied_step msgSize cstep notified batches s l t" and I: "proxied_ids carries Q s"
    and N: "\<And>x. x \<in> proxied_notified notified l \<Longrightarrow> Q x"
  shows "proxied_ids carries Q t"
  using assms(1)
proof cases
  case (pd_own m d)
  then show ?thesis using I N carries_step [OF pd_own(3)] by (simp add: proxied_ids_def)
next
  case (pd_forward j m d)
  have v: "proxy_ids Q (pd_nodes s ! j)" using I pd_forward(3) by (simp add: proxied_ids_def)
  have "Q x" if "x \<in> notified m" for x
  proof -
    have "x \<in> set (px_queued (pn_px (pd_nodes s ! j)))"
      using v pd_forward(5) that by (auto simp: proxy_ids_def proxy_inv_def)
    then show ?thesis using v by (simp add: proxy_ids_def list_all_iff)
  qed
  then show ?thesis using I carries_step [OF pd_forward(4)] pd_forward(2) by (simp add: proxied_ids_def)
next
  case (pd_node j m v)
  have "proxy_ids Q v"
  proof (rule proxy_node_ids [OF pd_node(4)])
    show "proxy_ids Q (pd_nodes s ! j)" using I pd_node(3) by (simp add: proxied_ids_def)
    show "Q x" if "x \<in> node_notified m" for x using N pd_node(1) that by simp
    show "list_all Q ids" if "m = NRecv ids" for ids
      using I carries_batch [of Q "pd_parent s" ids] pd_node(5) [OF that] by (auto simp: proxied_ids_def list_all_iff)
  qed
  then show ?thesis
    using I ball_update [of "pd_nodes s" "proxy_ids Q" v j] pd_node(2) by (simp add: proxied_ids_def)
qed

text \<open>Proxies in front of a relay are a relay.\<close>

lemma proxied_relay:
  "decision_relay (proxied_step msgSize cstep notified batches) (\<lambda>s. \<exists>d n. start d \<and> s = proxied_New d n)
     (proxied_notified notified) (proxied_batches batches) (proxied_ids carries)"
proof
  show "\<exists>d n. start d \<and> s = proxied_New d n \<Longrightarrow> proxied_ids carries Q s" for s Q
    using carries_start proxyNode_New_ids by (auto simp: proxied_ids_def proxied_New_def)
  show "proxied_ids carries Q s \<Longrightarrow> ids \<in> proxied_batches batches s \<Longrightarrow> x \<in> set ids \<Longrightarrow> Q x" for Q s ids x
    using carries_batch [of Q "pd_parent s" ids x] server_ids_batch [of Q _ ids x]
    by (auto simp: proxied_ids_def proxied_batches_def proxy_ids_def)
  show "proxied_ids carries Q s \<Longrightarrow> (\<And>x. Q x \<Longrightarrow> R x) \<Longrightarrow> proxied_ids carries R s" for Q R s
    using carries_mono [of Q "pd_parent s" R] proxy_ids_mono [of Q _ R] by (simp add: proxied_ids_def)
qed (rule proxied_step_ids)

end

interpretation proxied_single: decision_relay "proxied_step msgSize (coord_step ops msgSize) coord_notified coord_batches"
  "\<lambda>s. \<exists>d n. (\<exists>ttl now. d = coord_New ops ttl now) \<and> s = proxied_New d n" "proxied_notified coord_notified"
  "proxied_batches coord_batches" "proxied_ids coord_ids" for ops msgSize
  by (rule single.proxied_relay)

interpretation proxied_cluster: decision_relay "proxied_step msgSize (cluster_step ops msgSize) cluster_notified cluster_batches"
  "\<lambda>s. \<exists>d n. (\<exists>ttl owns r now. d = cluster_New ttl owns r now) \<and> s = proxied_New d n" "proxied_notified cluster_notified"
  "proxied_batches cluster_batches" "proxied_ids cluster_ids" for ops msgSize
  by (rule clustered.proxied_relay)

end
