(* ===== verification/Sampling_System.thy ===== *)
theory Sampling_System
  imports Processor_Guarantees Coord_Relay
begin

text \<open>
  Several collectors and a coordinator together: \<open>sys_step\<close> interleaves the processors (\<open>proc_step\<close>) with any
  coordinator that fulfils \<open>decision_relay\<close>. Between them is the network: the coordinator can receive a
  notification that some client has taken out for \<open>Send\<close>, and a client can receive a batch that was passed to
  \<open>Send\<close> on some connection. Nothing is assumed about order, loss or duplication, so what holds here holds for
  the streams of gRPC.

  The first sections follow a trace ID through one component each: what the buffer delivers is in its interest
  set, and what is in the interest set was decided by the own policies or came from the coordinator. The system
  theorem is proved once in the locale, and stated for a single-node coordinator and for proxies in
  front of a cluster that shares a Redis.
\<close>

section \<open>The buffer delivers only what it was asked for\<close>

definition asked :: "bufferState \<Rightarrow> TraceID set" where
  "asked s = dom (interestEntries (interest s))"

definition delivered :: "bufferState \<Rightarrow> TraceID set" where
  "delivered s = fst ` set (deliveries (events s))"

lemma prune_entries: "dom (interestEntries (pruneInterestLocked dw now s)) \<subseteq> dom (interestEntries s)"
proof (induction dw now s rule: pruneInterestLocked.induct)
  case (1 dw now s)
  show ?case
  proof (cases "prune_step dw now s")
    case None
    then show ?thesis by (simp add: pruneInterestLocked.simps [of dw now s])
  next
    case (Some s')
    then have "dom (interestEntries s') \<subseteq> dom (interestEntries s)"
      by (auto simp: prune_step_def split: option.splits if_splits)
    with 1 [OF Some] show ?thesis using Some by (simp add: pruneInterestLocked.simps [of dw now s])
  qed
qed

lemma AddInterest_entries: "dom (interestEntries (AddInterest dw now t s)) \<subseteq> insert t (dom (interestEntries s))"
  using prune_entries [of dw now s] by (auto simp: AddInterest_def Let_def split: option.splits)

lemma scan_record_asked:
  "scan_record cfg u press f rf rh intr now pos ps = (nxt, ps', evs) \<Longrightarrow>
   fst ` set (deliveries evs) \<subseteq> dom (interestEntries intr)"
  by (auto simp: scan_record_def Let_def hasInterestForSpanRLocked_def split: if_splits option.splits)

fun added :: "bufLabel list \<Rightarrow> TraceID set" where
  "added [] = {}"
| "added (LAddInterest t # ls) = insert t (added ls)"
| "added (_ # ls) = added ls"

lemma added_append [simp]: "added (ls @ ms) = added ls \<union> added ms"
  by (induction ls rule: added.induct) auto

lemma added_map [simp]: "added (map LAddInterest ts) = set ts"
  by (induction ts) auto

lemma buf_step_asked:
  assumes "buf_step cfg s l s'"
  shows "asked s' \<subseteq> asked s \<union> added [l] \<and> delivered s' \<subseteq> delivered s \<union> asked s"
proof -
  have fr: "events (flush_returned cfg k s) = events s" "interest (flush_returned cfg k s) = interest s" for k s
    by (simp_all add: flush_returned_def stage_record_def large_start_def writer_exit_def split: afterFlush.split)
  show ?thesis
    using assms
  proof cases
    case (add_interest t)
    then show ?thesis using AddInterest_entries by (auto simp: asked_def delivered_def buf_AddInterest_def)
  next
    case (s_scan u press pos p nxt p' evs)
    then show ?thesis using scan_record_asked [OF s_scan(5)] by (auto simp: asked_def delivered_def)
  next
    case (s_scan_fault u press pos p rf nxt p' evs)
    then show ?thesis using scan_record_asked [OF s_scan_fault(5)] by (auto simp: asked_def delivered_def)
  qed (auto simp: asked_def delivered_def Write_def handle_def enter_flush_def stage_record_def large_start_def
      writer_exit_def flush_closed_def flush_write_def flush_count_def fr write_first_def write_cont_def
      commit_large_def scan_done_def free_pages_def Let_def split: afterFlush.splits if_splits)
qed

lemma buf_run_asked:
  assumes "run (buf_step cfg) (initState cfg f0 now) ls s"
  shows "asked s \<subseteq> added ls \<and> delivered s \<subseteq> added ls"
  using assms
proof (induction rule: run.induct)
  case run_nil
  show ?case by (simp add: asked_def delivered_def initState_def empty_interest_def)
next
  case (run_snoc ls s l t)
  then show ?case using buf_step_asked [OF run_snoc.hyps(2)] by auto
qed

lemma consumed_added:
  assumes "proc_inv env cfg (initState cfg f0 now) p" and "(t, x) \<in> set (p_consumed p)"
  shows "t \<in> added (p_trace p)"
proof -
  have "t \<in> delivered (p_buf p)"
    using assms by (force simp: proc_inv_def received_def map_filter_def delivered_def)
  then show ?thesis using assms(1) buf_run_asked [of cfg f0 now "p_trace p" "p_buf p"] by (auto simp: proc_inv_def)
qed

section \<open>A collector records only what it chose or was told\<close>

text \<open>The own policies sampled the trace, locally or for everyone.\<close>

definition chosen :: "('r, 'c, 'q) procEnv \<Rightarrow> ('r, 'c, 'q) Evaluator list \<Rightarrow> ('r, 'c, 'q) procState \<Rightarrow> TraceID \<Rightarrow> bool" where
  "chosen env es p t \<longleftrightarrow> (\<exists>td \<in> set (p_inputs p). \<exists>spans ts. groupByTrace td t = Some spans \<and>
     fst (fst (Chain_Evaluate (Evaluate (pe_eval env)) (evaluate_all (pe_eval env) ts es) spans)) \<in> {Sampled, SampledLocal})"

lemma chosen_mono: "set (p_inputs p) \<subseteq> set (p_inputs q) \<Longrightarrow> chosen env es p t \<Longrightarrow> chosen env es q t"
  unfolding chosen_def by blast

text \<open>\<open>Q\<close> are the IDs that may come from the coordinator.\<close>

definition local_ok :: "(TraceID \<Rightarrow> bool) \<Rightarrow> ('r, 'c, 'q) procEnv \<Rightarrow> ('r, 'c, 'q) Evaluator list \<Rightarrow> ('r, 'c, 'q) procState \<Rightarrow> bool" where
  "local_ok Q env es p \<longleftrightarrow> (\<forall>k \<in> set (p_calls p). \<forall>t n. k_pc k = PAdd t n \<longrightarrow> chosen env es p t) \<and>
     (\<forall>t \<in> added (p_trace p). chosen env es p t \<or> Q t)"

lemma turn_local:
  assumes turn: "call_turn env k p = (k', p')" and L: "local_ok Q env es p" and T: "told_ok env es p"
    and k: "k \<in> set (p_calls p)" and g: "\<forall>x \<in> set (k_held k). genuine p x"
  shows "(\<forall>t n. k_pc k' = PAdd t n \<longrightarrow> chosen env es p t) \<and> (\<forall>t \<in> added (p_trace p'). chosen env es p t \<or> Q t)"
proof (cases "k_pc k")
  case (PEval t s)
  obtain ts where ts: "p_eval p = evaluate_all (pe_eval env) ts es" using T by (auto simp: told_ok_def)
  obtain d err es' where e: "Chain_Evaluate (Evaluate (pe_eval env)) (p_eval p) s = ((d, err), es')"
    by (metis prod.exhaust)
  have p': "p_trace p' = p_trace p" and k': "k' = after_eval t s d k"
    using turn PEval e by (auto simp: call_turn_def evaluate_def)
  have "genuine p (t, s)" using g PEval by (simp add: k_held_def)
  then have "chosen env es p t" if "d \<in> {Sampled, SampledLocal}"
    using that e ts unfolding chosen_def genuine_def by (metis fst_conv snd_conv)
  then have "\<forall>u n. k_pc k' = PAdd u n \<longrightarrow> chosen env es p u" using k' by (cases d) (auto simp: after_eval_def)
  then show ?thesis using p' L by (simp add: local_ok_def)
next
  case (PAdd t n)
  have "chosen env es p t" using L k PAdd by (auto simp: local_ok_def)
  then show ?thesis using turn PAdd L by (cases n) (auto simp: call_turn_def proc_AddInterest_def local_ok_def)
next
  case (PStore t s)
  have "added (p_trace (store env now t s p)) = added (p_trace p)" for now
    by (simp add: store_def Let_def split: option.split)
  then show ?thesis using turn PStore L by (auto simp: call_turn_def local_ok_def)
qed (use turn L in \<open>auto simp: call_turn_def local_ok_def split: list.splits if_splits\<close>)

lemma fold_onDecision_trace: "p_trace (fold onDecision ids p) = p_trace p @ map LAddInterest ids"
  by (induction ids arbitrary: p) (simp_all add: onDecision_def proc_AddInterest_def)

lemma proc_inputs_mono:
  assumes "proc_step env p l q"
  shows "set (p_inputs p) \<subseteq> set (p_inputs q)"
  using assms
proof cases
  case (pr_turn i k p')
  then show ?thesis using call_turn_frame(3) [OF pr_turn(4)] by simp
next
  case (pr_buf l b ok)
  obtain evs where "events b = events (p_buf p) @ evs" using events_grow [OF pr_buf(4)] by blast
  then show ?thesis
    using pr_buf(2) fold_callback [of env ok evs "p\<lparr>p_buf := b, p_trace := p_trace p @ [l]\<rparr>"] by (auto simp: buf_moved_def)
next
  case (pr_decisions c ids d)
  then show ?thesis by (simp add: fold_onDecision_frame)
qed (auto simp: proc_Start_def)

lemma proc_step_local:
  assumes st: "proc_step env p l q" and L: "local_ok Q env es p" and T: "told_ok env es p" and g: "all_genuine p"
    and D: "\<And>ids t. l = LDecisions ids \<Longrightarrow> t \<in> set ids \<Longrightarrow> Q t"
  shows "local_ok Q env es q"
proof -
  have ch: "chosen env es p t \<Longrightarrow> chosen env es q t" for t by (rule chosen_mono [OF proc_inputs_mono [OF st]])
  have same: "local_ok Q env es q"
    if "p_calls q = p_calls p" "added (p_trace q) \<subseteq> added (p_trace p) \<union> {t. Q t}"
    using L ch that(2) unfolding local_ok_def that(1) by blast
  from st show ?thesis
  proof cases
    case (pr_call td order)
    then show ?thesis using L ch unfolding local_ok_def by (auto simp: new_call_def)
  next
    case (pr_turn i k p')
    note fr = call_turn_frame [OF pr_turn(4)]
    have t: "(\<forall>t n. k_pc k = PAdd t n \<longrightarrow> chosen env es p t) \<and> (\<forall>t \<in> added (p_trace p'). chosen env es p t \<or> Q t)"
      by (rule turn_local [OF pr_turn(4) L T]) (use pr_turn(3) g in \<open>auto simp: all_genuine_def\<close>)
    have "k' = k \<or> k' \<in> set (p_calls p)" if "k' \<in> set (p_calls q)" for k'
      using that pr_turn(2) fr set_update_subset_insert [of "p_calls p" i k] by auto
    moreover have "p_trace q = p_trace p'" by (simp add: pr_turn(2))
    ultimately show ?thesis using t L ch unfolding local_ok_def by metis
  next
    case (pr_buf l b ok)
    obtain evs where "events b = events (p_buf p) @ evs" using events_grow [OF pr_buf(4)] by blast
    then have "p_calls q = p_calls p" "p_trace q = p_trace p @ [l]"
      using pr_buf(2) fold_callback [of env ok evs "p\<lparr>p_buf := b, p_trace := p_trace p @ [l]\<rparr>"] by (auto simp: buf_moved_def)
    moreover have "added [l] = {}" using pr_buf(3) by (cases l) auto
    ultimately show ?thesis by (intro same) auto
  next
    case (pr_decisions c ids d)
    have "p_trace q = p_trace p @ map LAddInterest (decisions ids)"
      by (simp add: pr_decisions(2) fold_onDecision_trace)
    moreover have "set (decisions ids) \<subseteq> {t. Q t}" using D [OF pr_decisions(1)] by (auto simp: decisions_def)
    moreover have "p_calls q = p_calls p" by (simp add: pr_decisions(2) fold_onDecision_frame)
    ultimately show ?thesis by (intro same) auto
  qed (rule same; simp add: proc_Start_def)+
qed

section \<open>A client sends only what was queued\<close>

definition client_ok :: "('r, 'c, 'q) procState \<Rightarrow> bool" where
  "client_ok p \<longleftrightarrow> (\<forall>c. p_coord p = Some c \<longrightarrow> client_inv c)"

lemma proc_step_client:
  assumes "proc_step env p l q" and C: "client_ok p"
  shows "client_ok q"
  using assms(1)
proof cases
  case (pr_turn i k p')
  have "p_coord p' = p_coord p \<or> (\<exists>t. p_coord p' = map_option (Notify t) (p_coord p))"
    using pr_turn(4) by (auto simp: call_turn_def evaluate_def proc_AddInterest_def store_def Let_def
        split: callPc.splits list.splits prod.splits if_splits option.splits)
  then show ?thesis using C client_step_inv [OF c_notify] unfolding pr_turn(2) by (auto simp: client_ok_def)
next
  case (pr_buf l b ok)
  obtain evs where "events b = events (p_buf p) @ evs" using events_grow [OF pr_buf(4)] by blast
  then have "p_coord q = p_coord p"
    using pr_buf(2) fold_callback [of env ok evs "p\<lparr>p_buf := b, p_trace := p_trace p @ [l]\<rparr>"] by (auto simp: buf_moved_def)
  then show ?thesis using C by (simp add: client_ok_def)
next
  case pr_start
  then show ?thesis by (simp add: client_ok_def proc_Start_def client_New_inv)
next
  case (pr_client c d)
  then show ?thesis using C client_step_inv [OF pr_client(4)] by (auto simp: client_ok_def)
next
  case (pr_decisions c ids d)
  then show ?thesis using C client_step_inv [OF pr_decisions(4)] by (auto simp: client_ok_def fold_onDecision_frame)
next
  case pr_shutdown
  then show ?thesis using C client_step_inv [OF c_close] by (auto simp: client_ok_def)
qed (use C in \<open>simp_all add: client_ok_def\<close>)

section \<open>The system\<close>

record ('r, 'c, 'q) collector =
  co_cfg :: bufferCfg
  co_file :: "int \<Rightarrow> byte"
  co_start :: time
  co_policies :: "('r, 'c, 'q) Evaluator list"

definition co_New :: "('r, 'c, 'q) collector \<Rightarrow> ('r, 'c, 'q) procState" where
  "co_New a = initProc (co_cfg a) (initState (co_cfg a) (co_file a) (co_start a)) (co_policies a)"

record ('r, 'c, 'q, 'd) sysState =
  sy_procs :: "('r, 'c, 'q) procState list"
  sy_coord :: 'd

definition sys_New :: "('r, 'c, 'q) collector list \<Rightarrow> 'd \<Rightarrow> ('r, 'c, 'q, 'd) sysState" where
  "sys_New fleet d = \<lparr>sy_procs = map co_New fleet, sy_coord = d\<rparr>"

text \<open>What is on the network from the collectors: notifications passed to \<open>Send\<close> by a client.\<close>

definition sent_up :: "('r, 'c, 'q, 'd) sysState \<Rightarrow> TraceID \<Rightarrow> bool" where
  "sent_up s t \<longleftrightarrow> (\<exists>p \<in> set (sy_procs s). \<exists>c. p_coord p = Some c \<and> t \<in> fst ` set (cs_taken c))"

datatype 'm sysLabel = SProc nat procLabel | SCoord 'm

inductive sys_step :: "('r, 'c, 'q) procEnv \<Rightarrow> ('d \<Rightarrow> 'm \<Rightarrow> 'd \<Rightarrow> bool) \<Rightarrow> ('m \<Rightarrow> bytes set) \<Rightarrow> ('d \<Rightarrow> bytes list set) \<Rightarrow>
    ('r, 'c, 'q, 'd) sysState \<Rightarrow> 'm sysLabel \<Rightarrow> ('r, 'c, 'q, 'd) sysState \<Rightarrow> bool"
  for env :: "('r, 'c, 'q) procEnv" and cstep :: "'d \<Rightarrow> 'm \<Rightarrow> 'd \<Rightarrow> bool" and notified :: "'m \<Rightarrow> bytes set"
    and batches :: "'d \<Rightarrow> bytes list set" where
  sy_proc: "i < length (sy_procs s) \<Longrightarrow> proc_step env (sy_procs s ! i) l q \<Longrightarrow>
    (\<And>ids. l = LDecisions ids \<Longrightarrow> ids \<in> batches (sy_coord s)) \<Longrightarrow>
    sys_step env cstep notified batches s (SProc i l) (s\<lparr>sy_procs := (sy_procs s)[i := q]\<rparr>)"
| sy_coord: "cstep (sy_coord s) m d \<Longrightarrow> (\<And>t. t \<in> notified m \<Longrightarrow> sent_up s t) \<Longrightarrow>
    sys_step env cstep notified batches s (SCoord m) (s\<lparr>sy_coord := d\<rparr>)"

text \<open>Some collector's policies sampled the trace for everyone.\<close>

definition approved :: "('r, 'c, 'q) procEnv \<Rightarrow> ('r, 'c, 'q) collector list \<Rightarrow> ('r, 'c, 'q, 'd) sysState \<Rightarrow> TraceID \<Rightarrow> bool" where
  "approved env fleet s t \<longleftrightarrow> (\<exists>j < length fleet. deserved env (co_policies (fleet ! j)) (sy_procs s ! j) t)"

definition sys_inv :: "((bytes \<Rightarrow> bool) \<Rightarrow> 'd \<Rightarrow> bool) \<Rightarrow> ('r, 'c, 'q) procEnv \<Rightarrow> ('r, 'c, 'q) collector list \<Rightarrow>
    ('r, 'c, 'q, 'd) sysState \<Rightarrow> bool" where
  "sys_inv carries env fleet s \<longleftrightarrow> length (sy_procs s) = length fleet \<and> carries (approved env fleet s) (sy_coord s) \<and>
     (\<forall>i < length fleet. let a = fleet ! i; p = sy_procs s ! i in
        proc_inv env (co_cfg a) (initState (co_cfg a) (co_file a) (co_start a)) p \<and> told_ok env (co_policies a) p \<and>
        client_ok p \<and> local_ok (approved env fleet s) env (co_policies a) p)"

lemma local_ok_mono: "local_ok Q env es p \<Longrightarrow> (\<And>t. Q t \<Longrightarrow> R t) \<Longrightarrow> local_ok R env es p"
  unfolding local_ok_def by blast

lemma sys_inv_proc:
  "sys_inv carries env fleet s \<Longrightarrow> i < length fleet \<Longrightarrow>
   proc_inv env (co_cfg (fleet ! i)) (initState (co_cfg (fleet ! i)) (co_file (fleet ! i)) (co_start (fleet ! i))) (sy_procs s ! i)"
  by (simp add: sys_inv_def Let_def)

lemma sent_up_approved:
  assumes "sys_inv carries env fleet s" and "sent_up s t"
  shows "approved env fleet s t"
proof -
  obtain j c where j: "j < length fleet" "p_coord (sy_procs s ! j) = Some c" "t \<in> fst ` set (cs_taken c)"
    using assms unfolding sent_up_def sys_inv_def by (metis in_set_conv_nth)
  have ok: "client_ok (sy_procs s ! j)" "told_ok env (co_policies (fleet ! j)) (sy_procs s ! j)"
    using assms(1) j(1) by (auto simp: sys_inv_def Let_def)
  then have "t \<in> set (cs_queued c)" using j(2,3) by (auto simp: client_ok_def client_inv_def)
  then have "deserved env (co_policies (fleet ! j)) (sy_procs s ! j) t" using ok(2) j(2) by (auto simp: told_ok_def)
  with j(1) show ?thesis unfolding approved_def by blast
qed

context decision_relay
begin

lemma sys_step_inv:
  assumes "sys_step env cstep notified batches s l s'" and I: "sys_inv carries env fleet s"
  shows "sys_inv carries env fleet s'"
  using assms(1)
proof cases
  case (sy_coord m d)
  have "approved env fleet s' = approved env fleet s" by (simp add: fun_eq_iff approved_def sy_coord(2))
  moreover have "carries (approved env fleet s) d"
    by (rule carries_step [OF sy_coord(3)]) (use I sy_coord(4) sent_up_approved [OF I] in \<open>auto simp: sys_inv_def\<close>)
  ultimately show ?thesis using I by (simp add: sys_inv_def sy_coord(2))
next
  case (sy_proc i m q)
  let ?p = "sy_procs s ! i" and ?a = "fleet ! i"
  have i: "i < length fleet" and len: "length (sy_procs s) = length fleet" using I sy_proc(3) by (auto simp: sys_inv_def)
  have p: "proc_inv env (co_cfg ?a) (initState (co_cfg ?a) (co_file ?a) (co_start ?a)) ?p" "told_ok env (co_policies ?a) ?p"
    "client_ok ?p" "local_ok (approved env fleet s) env (co_policies ?a) ?p"
    using I i by (auto simp: sys_inv_def Let_def)
  have nth: "sy_procs s' ! j = (if j = i then q else sy_procs s ! j)" if "j < length fleet" for j
    using that i len by (simp add: sy_proc(2))
  have ap: "approved env fleet s' t" if "approved env fleet s t" for t
    using that deserved_mono [OF proc_inputs_mono [OF sy_proc(4)]] nth unfolding approved_def by metis
  have "approved env fleet s t" if "m = LDecisions ids" "t \<in> set ids" for ids t
  proof -
    have "carries (approved env fleet s) (sy_coord s)" using I by (simp add: sys_inv_def)
    from carries_batch [OF this sy_proc(5) [OF that(1)] that(2)] show ?thesis .
  qed
  then have "local_ok (approved env fleet s) env (co_policies ?a) q"
    using p by (intro proc_step_local [OF sy_proc(4)]) (auto simp: proc_inv_def)
  then have "local_ok (approved env fleet s') env (co_policies ?a) q" using ap by (rule local_ok_mono)
  moreover have "proc_inv env (co_cfg ?a) (initState (co_cfg ?a) (co_file ?a) (co_start ?a)) q"
    by (rule proc_step_inv [OF sy_proc(4) p(1)])
  moreover have "told_ok env (co_policies ?a) q" using proc_step_told [OF sy_proc(4) p(2)] p(1) by (simp add: proc_inv_def)
  moreover have "client_ok q" by (rule proc_step_client [OF sy_proc(4) p(3)])
  moreover have "local_ok (approved env fleet s') env (co_policies (fleet ! j)) (sy_procs s ! j)" if "j < length fleet" for j
    by (rule local_ok_mono [of "approved env fleet s"]) (use I that ap in \<open>simp_all add: sys_inv_def Let_def\<close>)
  moreover have "carries (approved env fleet s') (sy_coord s')"
    by (rule carries_mono [of "approved env fleet s"]) (use I ap in \<open>simp_all add: sys_inv_def sy_proc(2)\<close>)
  moreover have "length (sy_procs s') = length fleet" using len by (simp add: sy_proc(2))
  ultimately show ?thesis using I nth unfolding sys_inv_def Let_def by auto
qed

lemma sys_reach_inv:
  assumes "run (sys_step env cstep notified batches) (sys_New fleet d) ls s" and "start d"
  shows "sys_inv carries env fleet s"
proof (rule run_invariant [OF assms(1)])
  have "proc_inv env (co_cfg a) (initState (co_cfg a) (co_file a) (co_start a)) (co_New a)" "told_ok env (co_policies a) (co_New a)"
    "client_ok (co_New a)" "local_ok Q env (co_policies a) (co_New a)" for a and Q
    using init_proc_inv [of "initState (co_cfg a) (co_file a) (co_start a)"]
    by (auto simp: co_New_def initProc_def initState_def told_ok_def client_ok_def local_ok_def evaluate_all_def intro: exI [of _ "[]"])
  then show "sys_inv carries env fleet (sys_New fleet d)"
    using assms(2) carries_start by (simp add: sys_inv_def sys_New_def Let_def)
qed (use sys_step_inv in blast)

lemma exported_sampled:
  assumes "run (sys_step env cstep notified batches) (sys_New fleet d) ls s" and "start d" and "i < length fleet"
    and "(t, x) \<in> set (p_consumed (sy_procs s ! i))"
  shows "\<exists>j < length fleet. \<exists>td \<in> set (p_inputs (sy_procs s ! j)). \<exists>ts. t \<in> sp_traceID ` set (spans_of td) \<and>
    fst (fst (Chain_Evaluate (Evaluate (pe_eval env)) (evaluate_all (pe_eval env) ts (co_policies (fleet ! j))) (project t td)))
      \<in> (if j = i then {Sampled, SampledLocal} else {Sampled})"
proof -
  have I: "sys_inv carries env fleet s" by (rule sys_reach_inv [OF assms(1,2)])
  let ?p = "sy_procs s ! i" and ?a = "fleet ! i"
  have p: "proc_inv env (co_cfg ?a) (initState (co_cfg ?a) (co_file ?a) (co_start ?a)) ?p"
    "local_ok (approved env fleet s) env (co_policies ?a) ?p" using I assms(3) by (auto simp: sys_inv_def Let_def)
  have g: "spans = project t td \<and> t \<in> sp_traceID ` set (spans_of td)" if "groupByTrace td t = Some spans" for td spans
    using that by (auto simp: groupByTrace_project some_if_def project_Nil_iff split: if_splits)
  have "chosen env (co_policies ?a) ?p t \<or> approved env fleet s t"
    using consumed_added [OF p(1) assms(4)] p(2) by (auto simp: local_ok_def)
  then show ?thesis
  proof
    assume "chosen env (co_policies ?a) ?p t"
    then show ?thesis using assms(3) g unfolding chosen_def by metis
  next
    assume "approved env fleet s t"
    then obtain j td spans ts where j: "j < length fleet" "td \<in> set (p_inputs (sy_procs s ! j))" "groupByTrace td t = Some spans"
      "fst (fst (Chain_Evaluate (Evaluate (pe_eval env)) (evaluate_all (pe_eval env) ts (co_policies (fleet ! j))) spans)) = Sampled"
      unfolding approved_def deserved_def by blast
    with g [OF j(3)] show ?thesis by (intro exI [of _ j] conjI bexI [of _ td] exI [of _ ts]) auto
  qed
qed

end

section \<open>Properties\<close>

text \<open>C4: No trace is exported from a buffer unless some collector's policies sampled it. In any system of
  collectors and a single-node coordinator, whatever the network loses, reorders or repeats: if a collector hands on
  buffered spans of a trace, then the policies of some collector answered \<open>Sampled\<close> for what a batch it had
  received contained of the trace, or its own policies answered \<open>SampledLocal\<close>.\<close>

theorem exported_only_if_sampled:
  assumes "run (sys_step env (coord_step ops msgSize) coord_notified coord_batches) (sys_New fleet (coord_New ops ttl now)) ls s"
    and "i < length fleet" and "(t, x) \<in> set (p_consumed (sy_procs s ! i))"
  shows "\<exists>j < length fleet. \<exists>td \<in> set (p_inputs (sy_procs s ! j)). \<exists>ts. t \<in> sp_traceID ` set (spans_of td) \<and>
    fst (fst (Chain_Evaluate (Evaluate (pe_eval env)) (evaluate_all (pe_eval env) ts (co_policies (fleet ! j))) (project t td)))
      \<in> (if j = i then {Sampled, SampledLocal} else {Sampled})"
  using single.exported_sampled [OF assms(1) _ assms(2,3)] by blast

text \<open>C5: The same with the most elaborate deployment: collectors connected to any number of coordinators in proxy
  mode, or directly to the coordinators in distributed mode behind them, which share a Redis. Whatever the
  network, Redis and its subscriptions lose, reorder or repeat: buffered spans of a trace are handed on only
  if the policies of some collector sampled what a batch contained of the trace.\<close>

theorem exported_only_if_sampled_distributed:
  assumes "run (sys_step env (proxied_step msgSize (cluster_step ops msgSize) cluster_notified cluster_batches)
      (proxied_notified cluster_notified) (proxied_batches cluster_batches))
      (sys_New fleet (proxied_New (cluster_New ttl owns r now) n)) ls s"
    and "i < length fleet" and "(t, x) \<in> set (p_consumed (sy_procs s ! i))"
  shows "\<exists>j < length fleet. \<exists>td \<in> set (p_inputs (sy_procs s ! j)). \<exists>ts. t \<in> sp_traceID ` set (spans_of td) \<and>
    fst (fst (Chain_Evaluate (Evaluate (pe_eval env)) (evaluate_all (pe_eval env) ts (co_policies (fleet ! j))) (project t td)))
      \<in> (if j = i then {Sampled, SampledLocal} else {Sampled})"
  using proxied_cluster.exported_sampled [OF assms(1) _ assms(2,3)] by blast

section \<open>A run of the whole system\<close>

text \<open>A run of one component is a run of what it is a part of.\<close>

lemma sys_lift:
  assumes "run (proc_step env) p ls q" and "\<forall>ids. LDecisions ids \<notin> set ls"
    and "i < length (sy_procs s)" and "sy_procs s ! i = p"
  shows "run (sys_step env cstep notified batches) s (map (SProc i) ls) (s\<lparr>sy_procs := (sy_procs s)[i := q]\<rparr>)"
proof -
  have "sys_step env cstep notified batches (s\<lparr>sy_procs := (sy_procs s)[i := u]\<rparr>) (SProc i l) (s\<lparr>sy_procs := (sy_procs s)[i := v]\<rparr>)"
    if "l \<in> set ls" "proc_step env u l v" for u l v
    using sy_proc [of i "s\<lparr>sy_procs := (sy_procs s)[i := u]\<rparr>" env l v batches cstep notified] that assms(2,3) by auto
  from run_embed [where f = "\<lambda>u. s\<lparr>sy_procs := (sy_procs s)[i := u]\<rparr>" and g = "SProc i" and stp' = "sys_step env cstep notified batches",
      OF assms(1) this] show ?thesis
    by (simp flip: assms(4))
qed

lemma sys_lift_coord:
  assumes "run cstep (sy_coord s) ls d" and "\<forall>l \<in> set ls. \<forall>t \<in> notified l. sent_up s t"
  shows "run (sys_step env cstep notified batches) s (map SCoord ls) (s\<lparr>sy_coord := d\<rparr>)"
proof -
  have "sys_step env cstep notified batches (s\<lparr>sy_coord := u\<rparr>) (SCoord l) (s\<lparr>sy_coord := v\<rparr>)" if "l \<in> set ls" "cstep u l v" for u l v
    using sy_coord [of cstep "s\<lparr>sy_coord := u\<rparr>" l v notified] that assms(2) by (auto simp: sent_up_def)
  from run_embed [where f = "\<lambda>u. s\<lparr>sy_coord := u\<rparr>" and g = SCoord and stp' = "sys_step env cstep notified batches",
      OF assms(1) this] show ?thesis by simp
qed

lemma ex_client_sends:
  assumes "p_coord p = Some (Notify exID client_New)"
  shows "\<exists>q c. run (proc_step env) p [LClient, LClient, LClient] q \<and> p_coord q = Some c \<and> cs_taken c = [(exID, True)] \<and>
    p_inputs q = p_inputs p"
proof -
  let ?a = "(Notify exID client_New)\<lparr>cs_pc := CDial\<rparr>"
  let ?b = "?a\<lparr>cs_pc := CStream, cs_recvErr := False, cs_live := True\<rparr>"
  let ?c = "?b\<lparr>cs_sendCh := [], cs_taken := [(exID, True)]\<rparr>"
  note defs = Notify_def client_New_def try_send_def sendChCap_def
  have a: "client_step (Notify exID client_New) LRun ?a" by (rule c_top) (simp_all add: defs)
  have b: "client_step ?a LRun ?b" by (rule c_dialled) simp
  have c: "client_step ?b LRun ?c" using c_send [of ?b exID "[]"] by (simp add: defs chan_recv_def)
  have "proc_step env p LClient (p\<lparr>p_coord := Some ?a\<rparr>)" by (rule pr_client [OF assms a])
  moreover have "proc_step env (p\<lparr>p_coord := Some ?a\<rparr>) LClient (p\<lparr>p_coord := Some ?b\<rparr>)"
    using pr_client [of "p\<lparr>p_coord := Some ?a\<rparr>" ?a ?b env] b by simp
  moreover have "proc_step env (p\<lparr>p_coord := Some ?b\<rparr>) LClient (p\<lparr>p_coord := Some ?c\<rparr>)"
    using pr_client [of "p\<lparr>p_coord := Some ?b\<rparr>" ?b ?c env] c by simp
  ultimately have "run (proc_step env) p ((([] @ [LClient]) @ [LClient]) @ [LClient]) (p\<lparr>p_coord := Some ?c\<rparr>)"
    by (blast intro: run.intros)
  then show ?thesis by (intro exI [of _ "p\<lparr>p_coord := Some ?c\<rparr>"] exI [of _ ?c]) simp
qed

definition exFleet :: "(string, (string \<times> bool) list, unit) collector list" where
  "exFleet = [\<lparr>co_cfg = exCfg, co_file = (\<lambda>_. 0), co_start = 5, co_policies = exSample\<rparr>,
     \<lparr>co_cfg = exCfg, co_file = (\<lambda>_. 0), co_start = 5, co_policies = exDrop\<rparr>]"

text \<open>The whole way, over any relay that can pass the decision on: the first collector samples the trace and
  notifies, the coordinator sends the decision, and the second one, whose policies do not sample it, hands on the
  spans it has buffered.\<close>

context decision_relay
begin

lemma ex_system:
  assumes start: "start d0" and d: "run cstep d0 cls d" "[exID] \<in> batches d" and cls: "\<forall>l \<in> set cls. notified l \<subseteq> {exID}"
  shows "\<exists>ls s. run (sys_step exProcEnv cstep notified batches) (sys_New exFleet d0) ls s \<and>
     p_consumed (sy_procs s ! 1) = [(exID, exBatch)]"
proof -
  let ?S = "sys_step exProcEnv cstep notified batches" and ?N = "sys_New exFleet d0"
  have n: "sy_procs ?N = [initProc exCfg exInit exSample, initProc exCfg exInit exDrop]" "sy_coord ?N = d0"
    by (simp_all add: sys_New_def exFleet_def co_New_def exInit_def)
  obtain la p where p: "\<forall>ids. LDecisions ids \<notin> set la" "run (proc_step exProcEnv) (initProc exCfg exInit exSample) la p"
    "p_coord p = Some (Notify exID client_New)" using ex_notified_run by blast
  obtain q c where q: "run (proc_step exProcEnv) p [LClient, LClient, LClient] q" "p_coord q = Some c" "cs_taken c = [(exID, True)]"
    using ex_client_sends [OF p(3)] by blast
  have lq: "run (proc_step exProcEnv) (initProc exCfg exInit exSample) (la @ [LClient, LClient, LClient]) q"
    by (rule run_trans [OF p(2) q(1)])
  define s1 where "s1 = ?N\<lparr>sy_procs := (sy_procs ?N)[0 := q]\<rparr>"
  have s1: "\<exists>ls. run ?S ?N ls s1"
    unfolding s1_def using sys_lift [OF lq, of 0 ?N cstep notified batches] p(1) by (auto simp: n)
  define s2 where "s2 = s1\<lparr>sy_procs := (sy_procs s1)[1 := exBuffered exDrop]\<rparr>"
  have s2: "\<exists>ls. run ?S s1 ls s2"
    unfolding s2_def using sys_lift [OF ex_buffered_run, of 1 s1 cstep notified batches] by (auto simp: s1_def n)
  have up: "sent_up s2 exID" using q by (auto simp: sent_up_def s2_def s1_def n)
  define s3 where "s3 = s2\<lparr>sy_coord := d\<rparr>"
  have "run cstep (sy_coord s2) cls d" using d(1) by (simp add: s2_def s1_def n)
  from sys_lift_coord [OF this, of notified exProcEnv batches] have s3: "\<exists>ls. run ?S s2 ls s3"
    using up cls unfolding s3_def by blast
  define s4 where "s4 = s3\<lparr>sy_procs := (sy_procs s3)[1 := exAsked]\<rparr>"
  have "?S s3 (SProc 1 (LDecisions [exID])) s4"
    unfolding s4_def by (rule sy_proc) (use ex_asked_step d(2) in \<open>auto simp: s3_def s2_def s1_def n\<close>)
  note s4 = run_snoc [OF run_nil [of ?S s3] this]
  obtain bl u where u: "run (proc_step exProcEnv) exAsked (map (\<lambda>l. LBuf l True) bl) u" "p_buf u = exScanned"
    using ex_delivered_run by blast
  define s5 where "s5 = s4\<lparr>sy_procs := (sy_procs s4)[1 := u]\<rparr>"
  have s5: "\<exists>ls. run ?S s4 ls s5"
    unfolding s5_def using sys_lift [OF u(1), of 1 s4 cstep notified batches] by (force simp: s4_def s3_def s2_def s1_def n)
  from s1 s2 s3 s5 obtain l1 l2 l3 l5 where "run ?S ?N l1 s1" "run ?S s1 l2 s2" "run ?S s2 l3 s3" "run ?S s4 l5 s5" by blast
  note r = run_trans [OF run_trans [OF run_trans [OF run_trans [OF this(1,2)] this(3)] s4] this(4)]
  have "proc_inv exProcEnv exCfg exInit (sy_procs s5 ! 1)"
    using sys_inv_proc [OF sys_reach_inv [OF r start], of 1] by (simp add: exFleet_def exInit_def)
  moreover have "sy_procs s5 ! 1 = u" by (simp add: s5_def s4_def s3_def s2_def s1_def n)
  ultimately have "p_consumed (sy_procs s5 ! 1) = received exProcEnv (events exScanned)" using u(2) by (simp add: proc_inv_def)
  then have "p_consumed (sy_procs s5 ! 1) = [(exID, exBatch)]"
    by (simp add: exScanned_def received_def exProcEnv_def map_filter_simps)
  with r show ?thesis by blast
qed

end

section \<open>Two coordinators at work\<close>

lemma server_sends:
  assumes "sv_conns v = [c]" and "se_ch c = [tid]" and "se_snd c = SndIdle"
  shows "\<exists>w. run (server_step msgSize) v [LSender 0, LSender 0, LSender 0] w \<and> [tid] \<in> server_batches w"
proof -
  define e where "e = upd_conn 0 (snd_take tid []) v"
  define f where "f = upd_conn 0 (\<lambda>c. c\<lparr>se_snd := SndSend [tid]\<rparr>) e"
  define g where "g = snd_batch msgSize 0 [tid] True f"
  have e: "server_step msgSize v (LSender 0) e"
    unfolding e_def by (rule sv_take) (use assms in \<open>simp_all add: chan_recv_def\<close>)
  have ec: "\<exists>c. sv_conns e = [c] \<and> se_snd c = SndDrain [tid]" using assms by (simp add: e_def upd_conn_def snd_take_def)
  have f: "server_step msgSize e (LSender 0) f" unfolding f_def by (rule sv_flush) (use ec in auto)
  have fc: "\<exists>c. sv_conns f = [c] \<and> se_snd c = SndSend [tid]" using ec by (auto simp: f_def upd_conn_def)
  have g: "server_step msgSize f (LSender 0) g" unfolding g_def by (rule sv_send) (use fc in auto)
  have "[tid] \<in> server_batches g" using fc by (force simp: g_def snd_batch_def upd_conn_def server_batches_def)
  with run_snoc [OF run_snoc [OF run_snoc [OF run_nil [of "server_step msgSize" v] e] f] g] show ?thesis by auto
qed

lemma coord_lift_server:
  assumes "run (server_step msgSize) (cd_srv s) ls w" and "\<forall>l \<in> set ls. own_label l"
  shows "run (coord_step ops msgSize) s (map CServer ls) (s\<lparr>cd_srv := w\<rparr>)"
proof -
  have "coord_step ops msgSize (s\<lparr>cd_srv := u\<rparr>) (CServer l) (s\<lparr>cd_srv := v\<rparr>)" if "l \<in> set ls" "server_step msgSize u l v" for u l v
    using cd_server [of l msgSize "s\<lparr>cd_srv := u\<rparr>" v ops] that assms(2) by auto
  from run_embed [where f = "\<lambda>u. s\<lparr>cd_srv := u\<rparr>" and g = CServer and stp' = "coord_step ops msgSize",
      OF assms(1) this] show ?thesis by simp
qed

text \<open>The coordinator from the first connection until it has sent the decision.\<close>

lemma ex_coord:
  "\<exists>ls d. run (coord_step exCache length) (coord_New exCache 5 0) ls d \<and> [exID] \<in> coord_batches d \<and>
     (\<forall>l \<in> set ls. coord_notified l \<subseteq> {exID})"
proof -
  define a where "a = coord_New exCache 5 0"
  define b where "b = a\<lparr>cd_srv := register (exConn 2) (cd_srv a)\<rparr>"
  define c where "c = single_notify exCache exID (b\<lparr>cd_srv := count_in 0 (cd_srv b)\<rparr>)"
  define d where "d = single_handle exID c"
  note defs = a_def b_def c_def d_def coord_New_def server_New_def memory_New_def register_def newEntry_def map_delete_def
    count_in_def single_notify_def memory_Publish_def exCache_def single_handle_def Broadcast_def Broadcast_one_def upd_conn_def
    offer_def try_send_def streamCap_def
  have b: "coord_step exCache length a (CServer (LConnect (exConn 2))) b" unfolding b_def by (rule cd_server) (simp_all add: exConnect)
  have c: "coord_step exCache length b (CNotify 0 exID) c" unfolding c_def by (rule cd_notify, rule sv_notify) (simp_all add: defs)
  have d: "coord_step exCache length c (CHandle exID) d" unfolding d_def by (rule cd_handle) (simp add: defs)
  have "\<exists>c. sv_conns (cd_srv d) = [c] \<and> se_ch c = [exID] \<and> se_snd c = SndIdle" by (simp add: defs)
  then obtain w where w: "run (server_step length) (cd_srv d) [LSender 0, LSender 0, LSender 0] w" "[exID] \<in> server_batches w"
    using server_sends by metis
  note r = run_snoc [OF run_snoc [OF run_snoc [OF run_nil [of "coord_step exCache length" a] b] c] d]
  note r = run_trans [OF r coord_lift_server [OF w(1), of exCache]]
  with w(2) show ?thesis by (force simp: a_def coord_batches_def)
qed

theorem exported_only_if_sampled_witness:
  "\<exists>ls s. run (sys_step exProcEnv (coord_step exCache length) coord_notified coord_batches)
       (sys_New exFleet (coord_New exCache 5 0)) ls s \<and> p_consumed (sy_procs s ! 1) = [(exID, exBatch)] \<and>
     (\<exists>j < 2. \<exists>td \<in> set (p_inputs (sy_procs s ! j)). exID \<in> sp_traceID ` set (spans_of td))"
proof -
  obtain cls d where "run (coord_step exCache length) (coord_New exCache 5 0) cls d" "[exID] \<in> coord_batches d"
    "\<forall>l \<in> set cls. coord_notified l \<subseteq> {exID}" using ex_coord by blast
  then obtain ls s where s: "run (sys_step exProcEnv (coord_step exCache length) coord_notified coord_batches)
       (sys_New exFleet (coord_New exCache 5 0)) ls s"
    "p_consumed (sy_procs s ! 1) = [(exID, exBatch)]" using single.ex_system by blast
  have "\<exists>j < length exFleet. \<exists>td \<in> set (p_inputs (sy_procs s ! j)). exID \<in> sp_traceID ` set (spans_of td)"
    using exported_only_if_sampled [OF s(1), of 1 exID exBatch] s(2) by (auto simp: exFleet_def)
  moreover have "length exFleet = 2" by (simp add: exFleet_def)
  ultimately show ?thesis using s by metis
qed

text \<open>A cluster of one process behind one proxy: the notification comes in at the proxy, which forwards it; the
  process publishes it, receives its own message, and sends the decision.\<close>

lemma cluster_lift_server:
  assumes "run (server_step msgSize) (rn_srv (cl_nodes s ! i)) ls w" and "\<forall>l \<in> set ls. own_label l" and "i < length (cl_nodes s)"
  shows "run (cluster_step ops msgSize) s (map (KServer i) ls) (upd_node i (\<lambda>n. n\<lparr>rn_srv := w\<rparr>) s)"
proof -
  have "cluster_step ops msgSize (upd_node i (\<lambda>n. n\<lparr>rn_srv := u\<rparr>) s) (KServer i l) (upd_node i (\<lambda>n. n\<lparr>rn_srv := v\<rparr>) s)"
    if "l \<in> set ls" "server_step msgSize u l v" for u l v
    using kl_server [of i "upd_node i (\<lambda>n. n\<lparr>rn_srv := u\<rparr>) s" l msgSize v ops] that assms(2,3) by (auto simp: upd_node_def)
  from run_embed [where f = "\<lambda>u. upd_node i (\<lambda>n. n\<lparr>rn_srv := u\<rparr>) s" and g = "KServer i" and stp' = "cluster_step ops msgSize",
      OF assms(1) this] show ?thesis
    using assms(3) by (simp add: upd_node_def)
qed

lemma proxied_lift:
  assumes "run cstep (pd_parent s) ls d"
  shows "run (proxied_step msgSize cstep notified batches) s (map PParent ls) (s\<lparr>pd_parent := d\<rparr>)"
proof -
  have "proxied_step msgSize cstep notified batches (s\<lparr>pd_parent := u\<rparr>) (PParent l) (s\<lparr>pd_parent := v\<rparr>)" if "cstep u l v" for u l v
    using pd_own [of cstep "s\<lparr>pd_parent := u\<rparr>" l v] that by auto
  from run_embed [where f = "\<lambda>u. s\<lparr>pd_parent := u\<rparr>" and g = PParent and stp' = "proxied_step msgSize cstep notified batches",
      OF assms this] show ?thesis by simp
qed

lemma ex_proxy_forwards:
  "\<exists>x. run (proxy_node_step length) proxyNode_New [NServer (LConnect (exConn 2)), NNotify 0 exID, NRun, NRun, NRun] x \<and>
     fst ` set (px_taken (pn_px x)) = {exID}"
proof -
  define a where "a = proxyNode_New\<lparr>pn_srv := register (exConn 2) (pn_srv proxyNode_New)\<rparr>"
  define b where "b = proxy_notify exID (a\<lparr>pn_srv := count_in 0 (pn_srv a)\<rparr>)"
  define c where "c = b\<lparr>pn_px := (pn_px b)\<lparr>px_pc := XDial, px_connDone := False\<rparr>\<rparr>"
  define d where "d = c\<lparr>pn_px := (pn_px c)\<lparr>px_pc := XSend, px_live := True\<rparr>\<rparr>"
  define e where "e = d\<lparr>pn_px := (pn_px d)\<lparr>px_sendCh := [], px_taken := px_taken (pn_px d) @ [(exID, True)]\<rparr>\<rparr>"
  note defs = a_def b_def c_def d_def proxyNode_New_def proxy_New_def proxy_notify_def proxy_Publish_def try_send_def sendBufSize_def
    register_def newEntry_def map_delete_def server_New_def count_in_def
  have a: "proxy_node_step length proxyNode_New (NServer (LConnect (exConn 2))) a" unfolding a_def by (rule pn_server) (simp_all add: exConnect)
  have b: "proxy_node_step length a (NNotify 0 exID) b" unfolding b_def by (rule pn_notify, rule sv_notify) (simp_all add: defs)
  have c: "proxy_node_step length b NRun c" unfolding c_def by (rule pn_run, rule x_top) (simp_all add: defs)
  have d: "proxy_node_step length c NRun d" unfolding d_def by (rule pn_run, rule x_dialled) (simp add: defs)
  have e: "proxy_node_step length d NRun e" unfolding e_def by (rule pn_run, rule x_send) (simp_all add: defs chan_recv_def)
  note r = run_snoc [OF run_snoc [OF run_snoc [OF run_nil [of "proxy_node_step length" proxyNode_New] a] b] c]
  note r = run_snoc [OF run_snoc [OF r d] e]
  moreover have "fst ` set (px_taken (pn_px e)) = {exID}" by (simp add: e_def defs)
  ultimately show ?thesis by auto
qed

lemma proxied_lift_node:
  assumes "run (proxy_node_step msgSize) v ls w" and "\<forall>ids. NRecv ids \<notin> set ls" and "j < length (pd_nodes s)" and "pd_nodes s ! j = v"
  shows "run (proxied_step msgSize cstep notified batches) s (map (PNode j) ls) (s\<lparr>pd_nodes := (pd_nodes s)[j := w]\<rparr>)"
proof -
  have "proxied_step msgSize cstep notified batches (s\<lparr>pd_nodes := (pd_nodes s)[j := a]\<rparr>) (PNode j l) (s\<lparr>pd_nodes := (pd_nodes s)[j := b]\<rparr>)"
    if "l \<in> set ls" "proxy_node_step msgSize a l b" for a l b
    using pd_node [of j "s\<lparr>pd_nodes := (pd_nodes s)[j := a]\<rparr>" msgSize l b batches cstep notified] that assms(2,3) by auto
  from run_embed [where f = "\<lambda>a. s\<lparr>pd_nodes := (pd_nodes s)[j := a]\<rparr>" and g = "PNode j" and stp' = "proxied_step msgSize cstep notified batches",
      OF assms(1) this] show ?thesis
    by (simp flip: assms(4))
qed

text \<open>What the process does once the proxy has forwarded the notification.\<close>

definition exNode :: "(string \<times> time) list clusterState" where
  "exNode = upd_node 0 (\<lambda>n. n\<lparr>rn_srv := register (exConn 1) (rn_srv n)\<rparr>) (cluster_New 5 [False] [] 0)"

definition exSet :: "(string \<times> time) list clusterState" where
  "exSet = redis_notify 0 SetOK exID ((upd_node 0 (\<lambda>n. n\<lparr>rn_srv := count_in 0 (rn_srv (cl_nodes exNode ! 0))\<rparr>) exNode)
     \<lparr>cl_redis := [(decidedKey exID, 0 + 5)], cl_adds := cl_adds exNode @ [(cl_clock exNode, exID)]\<rparr>)"

lemmas exNode_defs = exNode_def exSet_def cluster_New_def node_New_def upd_node_def server_New_def register_def newEntry_def
  map_delete_def redis_New_def exRedis_def count_in_def redis_notify_def node_set_def redis_SetNX_def

lemma ex_node: "run (cluster_step exRedis length) (cluster_New 5 [False] [] 0) [KServer 0 (LConnect (exConn 1))] exNode"
proof -
  let ?a = "cluster_New 5 [False] [] 0 :: (string \<times> time) list clusterState"
  have "cluster_step exRedis length ?a (KServer 0 (LConnect (exConn 1))) (upd_node 0 (\<lambda>n. n\<lparr>rn_srv := register (exConn 1) (rn_srv (cl_nodes ?a ! 0))\<rparr>) ?a)"
    by (rule kl_server, simp add: cluster_New_def, simp, rule exConnect)
  moreover have "upd_node 0 (\<lambda>n. n\<lparr>rn_srv := register (exConn 1) (rn_srv (cl_nodes ?a ! 0))\<rparr>) ?a = exNode"
    by (simp add: exNode_def upd_node_def cluster_New_def)
  ultimately show ?thesis using run_snoc [OF run_nil [of "cluster_step exRedis length" ?a]] by simp
qed

lemma ex_set: "cluster_step exRedis length exNode (KNotify 0 0 exID) exSet"
  unfolding exSet_def by (rule kl_new, simp add: exNode_defs, rule sv_notify) (simp_all add: exNode_defs)

lemma ex_cluster_sends:
  "\<exists>ls d. run (cluster_step exRedis length) exSet ls d \<and> [exID] \<in> cluster_batches d \<and> (\<forall>l \<in> set ls. cluster_notified l = {})"
proof -
  define f where "f = redis_published 0 True {0} exID exSet"
  define g where "g = upd_node 0 (node_receive exID) f"
  note defs = exNode_defs f_def g_def redis_published_def redis_deliver_def node_published_def redis_PUBLISH_def node_receive_def
    redis_receive_def Broadcast_def Broadcast_one_def upd_conn_def offer_def try_send_def streamCap_def Let_def
  have f: "cluster_step exRedis length exSet (KPublish 0 exID) f"
    unfolding f_def by (rule kl_publish) (simp_all add: exNode_defs)
  have g: "cluster_step exRedis length f (KReceive 0) g"
    unfolding g_def by (rule kl_receive [of _ _ _ "[]"]) (simp_all add: defs)
  have "\<exists>c. sv_conns (rn_srv (cl_nodes g ! 0)) = [c] \<and> se_ch c = [exID] \<and> se_snd c = SndIdle" and len: "0 < length (cl_nodes g)"
    by (simp_all add: defs)
  then obtain w where w: "run (server_step length) (rn_srv (cl_nodes g ! 0)) [LSender 0, LSender 0, LSender 0] w" "[exID] \<in> server_batches w"
    using server_sends by metis
  note r = run_snoc [OF run_snoc [OF run_nil [of "cluster_step exRedis length" exSet] f] g]
  note r = run_trans [OF r cluster_lift_server [OF w(1), of exRedis]]
  moreover have "[exID] \<in> cluster_batches (upd_node 0 (\<lambda>n. n\<lparr>rn_srv := w\<rparr>) g)"
    using w(2) len by (cases "cl_nodes g") (simp_all add: cluster_batches_def upd_node_def)
  ultimately show ?thesis using len by force
qed

lemma ex_proxied:
  "\<exists>ls d. run (proxied_step length (cluster_step exRedis length) cluster_notified cluster_batches)
       (proxied_New (cluster_New 5 [False] [] 0) 1) ls d \<and> [exID] \<in> proxied_batches cluster_batches d \<and>
     (\<forall>l \<in> set ls. proxied_notified cluster_notified l \<subseteq> {exID})"
proof -
  let ?P = "proxied_step length (cluster_step exRedis length) cluster_notified cluster_batches"
  define a where "a = proxied_New (cluster_New 5 [False] [] 0 :: (string \<times> time) list clusterState) 1"
  obtain x where x: "run (proxy_node_step length) proxyNode_New [NServer (LConnect (exConn 2)), NNotify 0 exID, NRun, NRun, NRun] x"
    "fst ` set (px_taken (pn_px x)) = {exID}" using ex_proxy_forwards by blast
  define b where "b = a\<lparr>pd_nodes := (pd_nodes a)[0 := x]\<rparr>"
  have b: "run ?P a (map (PNode 0) [NServer (LConnect (exConn 2)), NNotify 0 exID, NRun, NRun, NRun]) b"
    unfolding b_def by (rule proxied_lift_node [OF x(1)]) (simp_all add: a_def proxied_New_def)
  define c where "c = b\<lparr>pd_parent := exNode\<rparr>"
  have c: "run ?P b (map PParent [KServer 0 (LConnect (exConn 1))]) c"
    unfolding c_def by (rule proxied_lift) (use ex_node in \<open>simp add: b_def a_def proxied_New_def\<close>)
  define d where "d = c\<lparr>pd_parent := exSet\<rparr>"
  have "?P c (PForward 0 (KNotify 0 0 exID)) d"
    unfolding d_def by (rule pd_forward) (use ex_set x(2) in \<open>simp_all add: c_def b_def a_def proxied_New_def\<close>)
  note d = run_snoc [OF run_nil [of ?P c] this]
  obtain ls e where e: "run (cluster_step exRedis length) exSet ls e" "[exID] \<in> cluster_batches e"
    "\<forall>l \<in> set ls. cluster_notified l = {}" using ex_cluster_sends by blast
  have "run ?P d (map PParent ls) (d\<lparr>pd_parent := e\<rparr>)" by (rule proxied_lift) (use e in \<open>simp add: d_def\<close>)
  note r = run_trans [OF run_trans [OF run_trans [OF b c] d] this]
  moreover have "[exID] \<in> proxied_batches cluster_batches (d\<lparr>pd_parent := e\<rparr>)" using e(2) by (simp add: proxied_batches_def)
  ultimately show ?thesis using e(3) unfolding a_def by force
qed

theorem exported_only_if_sampled_distributed_witness:
  "\<exists>ls s. run (sys_step exProcEnv (proxied_step length (cluster_step exRedis length) cluster_notified cluster_batches)
       (proxied_notified cluster_notified) (proxied_batches cluster_batches))
       (sys_New exFleet (proxied_New (cluster_New 5 [False] [] 0) 1)) ls s \<and> p_consumed (sy_procs s ! 1) = [(exID, exBatch)] \<and>
     (\<exists>j < 2. \<exists>td \<in> set (p_inputs (sy_procs s ! j)). exID \<in> sp_traceID ` set (spans_of td))"
proof -
  obtain cls d where c: "run (proxied_step length (cluster_step exRedis length) cluster_notified cluster_batches)
       (proxied_New (cluster_New 5 [False] [] 0) 1) cls d" "[exID] \<in> proxied_batches cluster_batches d"
     "\<forall>l \<in> set cls. proxied_notified cluster_notified l \<subseteq> {exID}" using ex_proxied by blast
  from proxied_cluster.ex_system [OF _ c] obtain ls s where s: "run (sys_step exProcEnv (proxied_step length (cluster_step exRedis length) cluster_notified cluster_batches)
       (proxied_notified cluster_notified) (proxied_batches cluster_batches))
       (sys_New exFleet (proxied_New (cluster_New 5 [False] [] 0) 1)) ls s"
    "p_consumed (sy_procs s ! 1) = [(exID, exBatch)]" by blast
  have "\<exists>j < length exFleet. \<exists>td \<in> set (p_inputs (sy_procs s ! j)). exID \<in> sp_traceID ` set (spans_of td)"
    using exported_only_if_sampled_distributed [OF s(1), of 1 exID exBatch] s(2) by (auto simp: exFleet_def)
  moreover have "length exFleet = 2" by (simp add: exFleet_def)
  ultimately show ?thesis using s by metis
qed

end
