(* ===== verification/Coord_Config.thy ===== *)
theory Coord_Config
  imports Coord_Server Pub_Sub
begin

text \<open>
  The coordinator's configuration and start-up: \<open>ModeConfig.active\<close> and \<open>loadConfig\<close>
  (\<open>coordinator/config.go\<close>), \<open>ClientConfig.Validate\<close>, \<open>validateHeaderKey\<close>, \<open>dialOptions\<close> and
  \<open>transportCredentials\<close> (\<open>proxy/config.go\<close>), \<open>Config.options\<close> (\<open>redis/config.go\<close>),
  \<open>TLSConfig.Credentials\<close> (\<open>server/tls.go\<close>), and what \<open>main\<close> checks and builds before it serves
  (\<open>coordinator/main.go\<close>).

  Files, certificates and the YAML decoder are outside: \<open>tlsEnv\<close> has the contents of the files, the
  pool that \<open>AppendCertsFromPEM\<close> makes of PEM data together with its result, and the
  certificates that \<open>LoadX509KeyPair\<close> returns; \<open>loadConfig\<close> takes the decoder as an argument. A nil
  pointer is \<open>None\<close>. The headers are listed in the order in which \<open>range\<close> visits the map.
\<close>

section \<open>Data\<close>

record proxyTLS =
  pt_CAFile :: string
  pt_CertFile :: string
  pt_KeyFile :: string
  pt_ServerNameOverride :: string
  pt_InsecureSkipVerify :: bool

record KeepAliveConfig =
  ka_Time :: duration
  ka_Timeout :: duration
  ka_PermitWithoutStream :: bool

record ClientConfig =
  cc_Endpoint :: string
  cc_TLS :: "proxyTLS option"
  cc_Headers :: "(string \<times> string) list"
  cc_Compression :: string
  cc_KeepAlive :: "KeepAliveConfig option"

record redisTLS =
  rt_Enabled :: bool
  rt_InsecureSkipVerify :: bool
  rt_CAFile :: string
  rt_CertFile :: string
  rt_KeyFile :: string

record redisConfig =
  rc_Transport :: string
  rc_Endpoint :: string
  rc_ClientName :: string
  rc_Username :: string
  rc_Password :: string
  rc_DB :: int
  rc_MaxRetries :: int
  rc_DialTimeout :: duration
  rc_ReadTimeout :: duration
  rc_WriteTimeout :: duration
  rc_TLS :: redisTLS

record SingleConfig =
  sc_DecidedKeyTTL :: duration

record RedisConfig =
  rm_DecidedKeyTTL :: duration
  rm_RedisPrimary :: redisConfig
  rm_RedisReplicas :: "redisConfig list"

record ModeConfig =
  mc_Single :: "SingleConfig option"
  mc_Redis :: "RedisConfig option"
  mc_Proxy :: "ClientConfig option"

record serverTLS =
  st_CertFile :: string
  st_KeyFile :: string
  st_ClientCAFile :: string

record coordConfig =
  GRPCListen :: string
  MetricsListen :: string
  ShutdownTimeout :: duration
  ServerTLS :: "serverTLS option"
  Mode :: ModeConfig

datatype configError =
    ErrModes nat
  | ErrEndpoint
  | ErrCertRequired
  | ErrKeyRequired
  | ErrCompression string
  | ErrHeaderEmpty
  | ErrHeaderReserved string
  | ErrHeaderChar string
  | ErrKeepAlive
  | ErrReadCA string
  | ErrNoPEM string
  | ErrKeyPair
  | ErrReadConfig
  | ErrUnmarshal
  | ErrNewClient

datatype activeMode = MSingle SingleConfig | MRedis RedisConfig | MProxy ClientConfig

section \<open>The mode\<close>

text \<open>The three tests in order, each counting and overwriting the result.\<close>

definition active :: "ModeConfig \<Rightarrow> configError + activeMode" where
  "active m =
     (let (n, r) = (0 :: nat, None);
          (n, r) = (case mc_Single m of None \<Rightarrow> (n, r) | Some c \<Rightarrow> (Suc n, Some (MSingle c)));
          (n, r) = (case mc_Redis m of None \<Rightarrow> (n, r) | Some c \<Rightarrow> (Suc n, Some (MRedis c)));
          (n, r) = (case mc_Proxy m of None \<Rightarrow> (n, r) | Some c \<Rightarrow> (Suc n, Some (MProxy c)))
      in if n = 1 then (case r of Some a \<Rightarrow> Inr a | None \<Rightarrow> Inl (ErrModes n)) else Inl (ErrModes n))"

section \<open>The proxy's configuration\<close>

definition header_char :: "char \<Rightarrow> bool" where
  "header_char c \<longleftrightarrow> (let b = of_char c :: nat in
     of_char CHR ''a'' \<le> b \<and> b \<le> of_char CHR ''z'' \<or> of_char CHR ''0'' \<le> b \<and> b \<le> of_char CHR ''9'' \<or>
     c = CHR ''-'' \<or> c = CHR ''_'' \<or> c = CHR ''.'')"

definition validateHeaderKey :: "string \<Rightarrow> configError option" where
  "validateHeaderKey k =
     (if k = [] then Some ErrHeaderEmpty
      else if prefix ''grpc-'' k then Some (ErrHeaderReserved k)
      else if list_all header_char k then None
      else Some (ErrHeaderChar k))"

fun validate_headers :: "string list \<Rightarrow> configError option" where
  "validate_headers [] = None"
| "validate_headers (k # ks) = (case validateHeaderKey k of Some e \<Rightarrow> Some e | None \<Rightarrow> validate_headers ks)"

definition validate_tls :: "proxyTLS option \<Rightarrow> configError option" where
  "validate_tls tls =
     (case tls of
        None \<Rightarrow> None
      | Some t \<Rightarrow>
          if (pt_CertFile t = []) \<noteq> (pt_KeyFile t = [])
          then Some (if pt_CertFile t = [] then ErrCertRequired else ErrKeyRequired) else None)"

definition validate_keepalive :: "KeepAliveConfig option \<Rightarrow> configError option" where
  "validate_keepalive ka =
     (case ka of
        None \<Rightarrow> None
      | Some k \<Rightarrow> if 0 < ka_Time k \<and> 0 < ka_Timeout k \<and> ka_Time k \<le> ka_Timeout k then Some ErrKeepAlive else None)"

text \<open>A block of the code that returns an error, or falls through to the next one.\<close>

definition orelse :: "'e option \<Rightarrow> 'e option \<Rightarrow> 'e option" where
  "orelse a b = (case a of Some e \<Rightarrow> Some e | None \<Rightarrow> b)"

definition Validate :: "ClientConfig \<Rightarrow> configError option" where
  "Validate c =
     (if cc_Endpoint c = [] then Some ErrEndpoint
      else orelse (validate_tls (cc_TLS c))
        (if cc_Compression c \<noteq> [] \<and> cc_Compression c \<noteq> ''gzip'' then Some (ErrCompression (cc_Compression c))
         else orelse (validate_headers (map fst (cc_Headers c))) (validate_keepalive (cc_KeepAlive c))))"

section \<open>Credentials\<close>

record ('pem, 'pool, 'cert) tlsEnv =
  readFile :: "string \<Rightarrow> 'pem option"
  appendCerts :: "'pem \<Rightarrow> 'pool \<times> bool"
  loadKeyPair :: "string \<Rightarrow> string \<Rightarrow> 'cert option"

datatype tlsVersion = TLSDefault | TLS12

datatype clientAuth = NoClientCert | RequireAndVerifyClientCert

record ('pool, 'cert) tlsConfig =
  tc_MinVersion :: tlsVersion
  tc_InsecureSkipVerify :: bool
  tc_ServerName :: string
  tc_RootCAs :: "'pool option"
  tc_Certificates :: "'cert list"
  tc_ClientCAs :: "'pool option"
  tc_ClientAuth :: clientAuth

definition zeroTLS :: "('pool, 'cert) tlsConfig" where
  "zeroTLS = \<lparr>tc_MinVersion = TLSDefault, tc_InsecureSkipVerify = False, tc_ServerName = [], tc_RootCAs = None,
     tc_Certificates = [], tc_ClientCAs = None, tc_ClientAuth = NoClientCert\<rparr>"

datatype ('pool, 'cert) creds = InsecureCreds | TLSCreds "('pool, 'cert) tlsConfig"

text \<open>Reading a CA file into a pool that must hold a certificate.\<close>

definition read_pool :: "('pem, 'pool, 'cert) tlsEnv \<Rightarrow> string \<Rightarrow> configError + 'pool" where
  "read_pool env f =
     (case readFile env f of
        None \<Rightarrow> Inl (ErrReadCA f)
      | Some pem \<Rightarrow> case appendCerts env pem of (pool, ok) \<Rightarrow> if ok then Inr pool else Inl (ErrNoPEM f))"

definition transportCredentials :: "('pem, 'pool, 'cert) tlsEnv \<Rightarrow> ClientConfig \<Rightarrow> configError + ('pool, 'cert) creds" where
  "transportCredentials env c =
     (case cc_TLS c of
        None \<Rightarrow> Inr InsecureCreds
      | Some t \<Rightarrow>
          let cfg = zeroTLS\<lparr>tc_MinVersion := TLS12, tc_InsecureSkipVerify := pt_InsecureSkipVerify t,
                tc_ServerName := pt_ServerNameOverride t\<rparr> in
          case (if pt_CAFile t = [] then Inr cfg
                else case read_pool env (pt_CAFile t) of
                  Inl e \<Rightarrow> Inl e | Inr pool \<Rightarrow> Inr (cfg\<lparr>tc_RootCAs := Some pool\<rparr>)) of
            Inl e \<Rightarrow> Inl e
          | Inr cfg \<Rightarrow>
              if pt_CertFile t = [] then Inr (TLSCreds cfg)
              else case loadKeyPair env (pt_CertFile t) (pt_KeyFile t) of
                None \<Rightarrow> Inl ErrKeyPair
              | Some cert \<Rightarrow> Inr (TLSCreds (cfg\<lparr>tc_Certificates := [cert]\<rparr>)))"

datatype ('pool, 'cert) dialOption =
    WithCreds "('pool, 'cert) creds"
  | WithGzip
  | WithKeepAlive duration duration bool

definition dialOptions :: "('pem, 'pool, 'cert) tlsEnv \<Rightarrow> ClientConfig \<Rightarrow> configError + ('pool, 'cert) dialOption list" where
  "dialOptions env c =
     (case transportCredentials env c of
        Inl e \<Rightarrow> Inl e
      | Inr cr \<Rightarrow> Inr ([WithCreds cr] @ (if cc_Compression c = ''gzip'' then [WithGzip] else []) @
          (case cc_KeepAlive c of
             None \<Rightarrow> []
           | Some k \<Rightarrow> [WithKeepAlive (ka_Time k) (ka_Timeout k) (ka_PermitWithoutStream k)])))"

text \<open>\<open>TLSConfig.Credentials\<close> of the server; \<open>Inr None\<close> is plain gRPC.\<close>

definition Credentials :: "('pem, 'pool, 'cert) tlsEnv \<Rightarrow> serverTLS option \<Rightarrow> configError + ('pool, 'cert) tlsConfig option" where
  "Credentials env tls =
     (case tls of
        None \<Rightarrow> Inr None
      | Some c \<Rightarrow>
          if st_CertFile c = [] then Inl ErrCertRequired
          else if st_KeyFile c = [] then Inl ErrKeyRequired
          else case loadKeyPair env (st_CertFile c) (st_KeyFile c) of
            None \<Rightarrow> Inl ErrKeyPair
          | Some cert \<Rightarrow>
              let cfg = zeroTLS\<lparr>tc_Certificates := [cert], tc_MinVersion := TLS12\<rparr> in
              if st_ClientCAFile c = [] then Inr (Some cfg)
              else case read_pool env (st_ClientCAFile c) of
                Inl e \<Rightarrow> Inl e
              | Inr pool \<Rightarrow> Inr (Some (cfg\<lparr>tc_ClientCAs := Some pool, tc_ClientAuth := RequireAndVerifyClientCert\<rparr>)))"

text \<open>\<open>options\<close> of a Redis client: the result of \<open>AppendCertsFromPEM\<close> is ignored, no minimal version
  is set, and a certificate or a key alone is passed to \<open>LoadX509KeyPair\<close> all the same.\<close>

record ('pool, 'cert) redisOptions =
  ro_cfg :: redisConfig
  ro_TLSConfig :: "('pool, 'cert) tlsConfig option"

definition redis_options :: "('pem, 'pool, 'cert) tlsEnv \<Rightarrow> redisConfig \<Rightarrow> configError + ('pool, 'cert) redisOptions" where
  "redis_options env c =
     (if \<not> rt_Enabled (rc_TLS c) then Inr \<lparr>ro_cfg = c, ro_TLSConfig = None\<rparr>
      else
        let t = rc_TLS c; cfg = zeroTLS\<lparr>tc_InsecureSkipVerify := rt_InsecureSkipVerify t\<rparr> in
        case (if rt_CAFile t = [] then Inr cfg
              else case readFile env (rt_CAFile t) of
                None \<Rightarrow> Inl (ErrReadCA (rt_CAFile t))
              | Some pem \<Rightarrow> Inr (cfg\<lparr>tc_RootCAs := Some (fst (appendCerts env pem))\<rparr>)) of
          Inl e \<Rightarrow> Inl e
        | Inr cfg \<Rightarrow>
            if rt_CertFile t = [] \<and> rt_KeyFile t = [] then Inr \<lparr>ro_cfg = c, ro_TLSConfig = Some cfg\<rparr>
            else case loadKeyPair env (rt_CertFile t) (rt_KeyFile t) of
              None \<Rightarrow> Inl ErrKeyPair
            | Some cert \<Rightarrow> Inr \<lparr>ro_cfg = c, ro_TLSConfig = Some (cfg\<lparr>tc_Certificates := [cert]\<rparr>)\<rparr>)"

section \<open>Start-up\<close>

definition loadConfig :: "(string \<Rightarrow> string option) \<Rightarrow> (string \<Rightarrow> string) \<Rightarrow> (string \<Rightarrow> coordConfig option) \<Rightarrow> string \<Rightarrow>
    configError + coordConfig" where
  "loadConfig read expandEnv unmarshal path =
     (case read path of
        None \<Rightarrow> Inl ErrReadConfig
      | Some data \<Rightarrow>
          case unmarshal (expandEnv data) of
            None \<Rightarrow> Inl ErrUnmarshal
          | Some cfg \<Rightarrow>
              case mc_Proxy (Mode cfg) of
                None \<Rightarrow> Inr cfg
              | Some p \<Rightarrow> case Validate p of Some e \<Rightarrow> Inl e | None \<Rightarrow> Inr cfg)"

datatype fatal =
    FatalLoad configError
  | FatalListen
  | FatalMode configError
  | FatalTTL
  | FatalRedisEndpoint
  | FatalRedis configError
  | FatalProxy configError
  | FatalTLS configError

text \<open>The implementation that \<open>main\<close> has built, with the options of its connections.\<close>

datatype ('c, 'pool, 'cert) pubSub =
    PSMemory "'c memoryPubSub"
  | PSRedis "('pool, 'cert) redisOptions" "('pool, 'cert) redisOptions option" redisPubSub
  | PSProxy "('pool, 'cert) dialOption list" "(string \<rightharpoonup> string list) option" proxyState

definition redis_start :: "('pem, 'pool, 'cert) tlsEnv \<Rightarrow> redisConfig \<Rightarrow> redisConfig option \<Rightarrow> duration \<Rightarrow>
    configError + ('c, 'pool, 'cert) pubSub" where
  "redis_start env writeCfg readCfg ttl =
     (case redis_options env writeCfg of
        Inl e \<Rightarrow> Inl e
      | Inr w \<Rightarrow>
          case readCfg of
            None \<Rightarrow> Inr (PSRedis w None (redis_New False ttl))
          | Some rc \<Rightarrow> case redis_options env rc of
              Inl e \<Rightarrow> Inl e | Inr r \<Rightarrow> Inr (PSRedis w (Some r) (redis_New True ttl)))"

text \<open>\<open>headersToMD\<close>; \<open>MD.Set\<close> of gRPC stores the value under the lower-case key (\<open>lower\<close>).\<close>

definition headersToMD :: "(string \<Rightarrow> string) \<Rightarrow> (string \<times> string) list \<Rightarrow> (string \<rightharpoonup> string list) option" where
  "headersToMD lower h = (if h = [] then None else Some (fold (\<lambda>(k, v) md. md(lower k \<mapsto> [v])) h Map.empty))"

text \<open>What \<open>proxy.New\<close> takes from gRPC: whether \<open>NewClient\<close> accepts the endpoint, and \<open>MD.Set\<close>'s keys.\<close>

record grpcEnv =
  grpc_NewClient :: "string \<Rightarrow> bool"
  md_lower :: "string \<Rightarrow> string"

definition proxy_start :: "('pem, 'pool, 'cert) tlsEnv \<Rightarrow> grpcEnv \<Rightarrow> ClientConfig \<Rightarrow> configError + ('c, 'pool, 'cert) pubSub" where
  "proxy_start env g c =
     (case Validate c of
        Some e \<Rightarrow> Inl e
      | None \<Rightarrow>
          case dialOptions env c of
            Inl e \<Rightarrow> Inl e
          | Inr opts \<Rightarrow>
              if grpc_NewClient g (cc_Endpoint c) then Inr (PSProxy opts (headersToMD (md_lower g) (cc_Headers c)) proxy_New)
              else Inl ErrNewClient)"

text \<open>The type switch of \<open>main\<close>; \<open>pick\<close> is the random index among the replicas.\<close>

definition start_mode :: "'c cacheOps \<Rightarrow> ('pem, 'pool, 'cert) tlsEnv \<Rightarrow> grpcEnv \<Rightarrow> (nat \<Rightarrow> nat) \<Rightarrow>
    activeMode \<Rightarrow> fatal + ('c, 'pool, 'cert) pubSub" where
  "start_mode ops env g pick m =
     (case m of
        MSingle c \<Rightarrow>
          if sc_DecidedKeyTTL c = 0 then Inl FatalTTL else Inr (PSMemory (memory_New ops (sc_DecidedKeyTTL c)))
      | MRedis c \<Rightarrow>
          if rm_DecidedKeyTTL c = 0 then Inl FatalTTL
          else if rc_Endpoint (rm_RedisPrimary c) = [] then Inl FatalRedisEndpoint
          else
            let rs = rm_RedisReplicas c; replica = (if rs = [] then None else Some (rs ! pick (length rs))) in
            (case redis_start env (rm_RedisPrimary c) replica (rm_DecidedKeyTTL c) of
               Inl e \<Rightarrow> Inl (FatalRedis e) | Inr ps \<Rightarrow> Inr ps)
      | MProxy c \<Rightarrow> (case proxy_start env g c of Inl e \<Rightarrow> Inl (FatalProxy e) | Inr ps \<Rightarrow> Inr ps))"

definition shutdown_limit :: "duration \<Rightarrow> duration" where
  "shutdown_limit t = (if t = 0 then 10 * px_second else t)"

record ('c, 'pool, 'cert) started =
  sd_ps :: "('c, 'pool, 'cert) pubSub"
  sd_srv :: serverState
  sd_listen :: string
  sd_metrics :: bool
  sd_creds :: "('pool, 'cert) tlsConfig option"
  sd_shutdown :: duration

text \<open>\<open>main\<close> up to the call of \<open>Start\<close>, given what \<open>loadConfig\<close> returned.\<close>

definition main_start :: "'c cacheOps \<Rightarrow> ('pem, 'pool, 'cert) tlsEnv \<Rightarrow> grpcEnv \<Rightarrow> (nat \<Rightarrow> nat) \<Rightarrow>
    configError + coordConfig \<Rightarrow> fatal + ('c, 'pool, 'cert) started" where
  "main_start ops env g pick loaded =
     (case loaded of
        Inl e \<Rightarrow> Inl (FatalLoad e)
      | Inr cfg \<Rightarrow>
          if GRPCListen cfg = [] then Inl FatalListen
          else case active (Mode cfg) of
            Inl e \<Rightarrow> Inl (FatalMode e)
          | Inr m \<Rightarrow>
              case start_mode ops env g pick m of
                Inl f \<Rightarrow> Inl f
              | Inr ps \<Rightarrow>
                  case Credentials env (ServerTLS cfg) of
                    Inl e \<Rightarrow> Inl (FatalTLS e)
                  | Inr cr \<Rightarrow> Inr \<lparr>sd_ps = ps, sd_srv = server_New (Some 0) (Some 0) (Some 0) (Some 0),
                      sd_listen = GRPCListen cfg, sd_metrics = (MetricsListen cfg \<noteq> []), sd_creds = cr, sd_shutdown = shutdown_limit (ShutdownTimeout cfg)\<rparr>)"

section \<open>Lemmas\<close>

lemma orelse_None [simp]: "orelse a b = None \<longleftrightarrow> a = None \<and> b = None"
  by (simp add: orelse_def split: option.split)

lemma header_char_iff: "header_char c \<longleftrightarrow> c \<in> set ''abcdefghijklmnopqrstuvwxyz0123456789-_.''"
proof -
  have "list_all (\<lambda>c. header_char c = (c \<in> set ''abcdefghijklmnopqrstuvwxyz0123456789-_.'')) Enum.enum" by code_simp
  then show ?thesis by (simp add: list_all_iff enum_UNIV)
qed

lemma validate_headers_None: "validate_headers ks = None \<longleftrightarrow> list_all (\<lambda>k. validateHeaderKey k = None) ks"
  by (induction ks) (auto split: option.split)

lemma validateHeaderKey_None:
  "validateHeaderKey k = None \<longleftrightarrow> k \<noteq> [] \<and> \<not> prefix ''grpc-'' k \<and> list_all header_char k"
  by (simp add: validateHeaderKey_def)

definition mode_count :: "ModeConfig \<Rightarrow> nat" where
  "mode_count m = length (filter id [mc_Single m \<noteq> None, mc_Redis m \<noteq> None, mc_Proxy m \<noteq> None])"

lemma active_cases:
  "active m = (case (mc_Single m, mc_Redis m, mc_Proxy m) of
      (Some c, None, None) \<Rightarrow> Inr (MSingle c) | (None, Some c, None) \<Rightarrow> Inr (MRedis c) | (None, None, Some c) \<Rightarrow> Inr (MProxy c)
    | _ \<Rightarrow> Inl (ErrModes (mode_count m)))"
  by (auto simp: active_def mode_count_def Let_def split: option.split)

lemma active_count: "active m = Inr a \<Longrightarrow> mode_count m = 1"
  by (auto simp: active_cases mode_count_def split: option.splits)

lemma read_pool_Inr: "read_pool env f = Inr pool \<longleftrightarrow> (\<exists>pem. readFile env f = Some pem \<and> appendCerts env pem = (pool, True))"
  by (auto simp: read_pool_def split: option.split prod.split)

lemma redis_options_cfg: "redis_options env c = Inr ro \<Longrightarrow> ro_cfg ro = c"
  by (auto simp: redis_options_def Let_def split: if_splits option.splits sum.splits)

text \<open>Headers that \<open>Validate\<close> accepts are sent as configured: lower-casing does not merge or rename them.\<close>

lemma fold_upd_map_of:
  "distinct (map fst h) \<Longrightarrow> fold (\<lambda>(k, v) md. md(k \<mapsto> f v)) h m = m ++ (\<lambda>k. map_option f (map_of h k))"
proof (induction h arbitrary: m)
  case (Cons e h)
  obtain k v where e: "e = (k, v)" by (cases e)
  have "map_of h k = None" using Cons.prems by (simp add: e map_of_eq_None_iff)
  then have "m(k \<mapsto> f v) ++ (\<lambda>j. map_option f (map_of h j)) = m ++ (\<lambda>j. map_option f (map_of ((k, v) # h) j))"
    by (intro ext) (auto simp: map_add_def split: option.split)
  with Cons show ?case by (simp add: e fun_upd_def)
qed (simp add: map_add_def)

lemma headers_as_configured:
  assumes "Validate c = None" and "distinct (map fst (cc_Headers c))" and "\<And>k. list_all header_char k \<Longrightarrow> lower k = k"
    and "cc_Headers c \<noteq> []"
  shows "headersToMD lower (cc_Headers c) = Some (\<lambda>k. map_option (\<lambda>v. [v]) (map_of (cc_Headers c) k))"
proof -
  have "list_all (\<lambda>k. validateHeaderKey k = None) (map fst (cc_Headers c))"
    using assms(1) by (simp add: Validate_def validate_headers_None split: if_splits)
  then have "lower k = k" if "(k, v) \<in> set (cc_Headers c)" for k v
    using that assms(3) by (auto simp: list_all_iff validateHeaderKey_None)
  then have "fold (\<lambda>(k, v) md. md(lower k \<mapsto> [v])) (cc_Headers c) Map.empty =
      fold (\<lambda>(k, v) md. md(k \<mapsto> [v])) (cc_Headers c) Map.empty"
    by (intro List.fold_cong) auto
  with assms(4) show ?thesis using fold_upd_map_of [OF assms(2), of "\<lambda>v. [v]" Map.empty] by (simp add: headersToMD_def)
qed

section \<open>Properties\<close>

text \<open>\<open>Validate\<close> accepts a proxy configuration if and only if it has an endpoint, certificate and key
  file come together, the compression is none or gzip, every header name is a non-empty string of
  lower-case letters, digits, \<open>-\<close>, \<open>_\<close> and \<open>.\<close> without the reserved prefix, and a positive keep-alive
  timeout is below a positive keep-alive time; the order in which the map is visited has no influence.\<close>

theorem Validate_accepts_iff:
  "Validate c = None \<longleftrightarrow>
     cc_Endpoint c \<noteq> [] \<and> pred_option (\<lambda>t. (pt_CertFile t = []) = (pt_KeyFile t = [])) (cc_TLS c) \<and>
     cc_Compression c \<in> {[], ''gzip''} \<and>
     fst ` set (cc_Headers c) \<subseteq> {k. k \<noteq> [] \<and> \<not> prefix ''grpc-'' k \<and>
       set k \<subseteq> set ''abcdefghijklmnopqrstuvwxyz0123456789-_.''} \<and>
     pred_option (\<lambda>k. ka_Time k \<le> 0 \<or> ka_Timeout k \<le> 0 \<or> ka_Timeout k < ka_Time k) (cc_KeepAlive c)"
proof -
  have "list_all header_char k \<longleftrightarrow> set k \<subseteq> set ''abcdefghijklmnopqrstuvwxyz0123456789-_.''" for k
    unfolding list_all_iff using header_char_iff by blast
  moreover have "validate_tls t = None \<longleftrightarrow> pred_option (\<lambda>t. (pt_CertFile t = []) = (pt_KeyFile t = [])) t" for t
    by (cases t) (auto simp: validate_tls_def)
  moreover have "validate_keepalive k = None \<longleftrightarrow>
      pred_option (\<lambda>k. ka_Time k \<le> 0 \<or> ka_Timeout k \<le> 0 \<or> ka_Timeout k < ka_Time k) k" for k
    by (cases k) (auto simp: validate_keepalive_def)
  ultimately show ?thesis
    unfolding Validate_def by (auto simp: validate_headers_None validateHeaderKey_None list_all_iff image_subset_iff)
qed

text \<open>TLS that is configured is enforced. If the server's \<open>Credentials\<close> returns, it returns plain
  gRPC exactly if no TLS is configured; otherwise the configuration requires TLS 1.2, presents exactly
  the certificate of the configured files, and, exactly if a client CA file is configured, requires and
  verifies client certificates against a pool that was read from that file and is not empty.\<close>

theorem server_tls_strict:
  assumes "Credentials env (Some c) = Inr r"
  shows "\<exists>cfg cert. r = Some cfg \<and> tc_MinVersion cfg = TLS12 \<and> tc_Certificates cfg = [cert] \<and>
    loadKeyPair env (st_CertFile c) (st_KeyFile c) = Some cert \<and> st_CertFile c \<noteq> [] \<and> st_KeyFile c \<noteq> [] \<and>
    (if st_ClientCAFile c = [] then tc_ClientAuth cfg = NoClientCert \<and> tc_ClientCAs cfg = None
     else tc_ClientAuth cfg = RequireAndVerifyClientCert \<and>
       (\<exists>pem pool. readFile env (st_ClientCAFile c) = Some pem \<and> appendCerts env pem = (pool, True) \<and>
          tc_ClientCAs cfg = Some pool))"
  using assms
  by (auto simp: Credentials_def Let_def read_pool_Inr zeroTLS_def split: if_splits option.splits sum.splits)

text \<open>Two files, the second a CA file without certificates, for the examples.\<close>

definition exTLS :: "(string, string, string) tlsEnv" where
  "exTLS = \<lparr>readFile = (\<lambda>f. if f \<in> {''ca.pem'', ''empty.pem''} then Some f else None), appendCerts = (\<lambda>pem. (pem, pem = ''ca.pem'')),
     loadKeyPair = (\<lambda>c k. if c = ''c.pem'' \<and> k = ''k.pem'' then Some c else None)\<rparr>"

theorem server_tls_strict_witness:
  "\<exists>cfg. Credentials exTLS (Some \<lparr>st_CertFile = ''c.pem'', st_KeyFile = ''k.pem'', st_ClientCAFile = ''ca.pem''\<rparr>) = Inr (Some cfg) \<and>
     tc_ClientAuth cfg = RequireAndVerifyClientCert \<and> tc_MinVersion cfg = TLS12"
proof -
  let ?c = "\<lparr>st_CertFile = ''c.pem'', st_KeyFile = ''k.pem'', st_ClientCAFile = ''ca.pem''\<rparr>"
  obtain r where r: "Credentials exTLS (Some ?c) = Inr r" by (simp add: Credentials_def exTLS_def read_pool_def Let_def)
  then show ?thesis using server_tls_strict [OF r] by auto
qed


definition exCoordConfig :: coordConfig where
  "exCoordConfig = \<lparr>GRPCListen = '':9090'', MetricsListen = [], ShutdownTimeout = 0, ServerTLS = None,
     Mode = \<lparr>mc_Single = Some \<lparr>sc_DecidedKeyTTL = 60\<rparr>, mc_Redis = None, mc_Proxy = None\<rparr>\<rparr>"


end
