(* ===== verification/Coord_Start.thy ===== *)
theory Coord_Start
  imports Coord_Config Coord_Server Potential
begin

text \<open>
  The life of a coordinator process from \<open>Server.Start\<close> to its exit: \<open>Start\<close> and its two goroutines
  (\<open>coordinator/server/server.go\<close>), and what \<open>main\<close> does after it (\<open>coordinator/main.go\<close>), together with
  the connections of the server.

  The gRPC server is a library. Of its documented behaviour the model has: \<open>Serve\<close> returns an error only if
  no stop was requested, and returns nil after \<open>GracefulStop\<close> or \<open>Stop\<close> has done its work; \<open>GracefulStop\<close>
  accepts no new streams and blocks until the handlers of all streams have returned, or until \<open>Stop\<close>.
\<close>

datatype stopPc = StopWait | StopSelect time | StopEnd

datatype gracefulPc = GracefulIdle | GracefulRunning | GracefulDone

datatype mainPc = MainServing | MainExit nat

record runState =
  ru_srv :: serverState
  ru_clock :: time
  ru_ctxDone :: bool
  ru_stop :: stopPc
  ru_graceful :: gracefulPc
  ru_forced :: bool
  ru_served :: "bool option"
  ru_main :: mainPc
  ru_psClosed :: bool

text \<open>\<open>Start\<close> up to \<open>Serve\<close>: an error of \<open>net.Listen\<close> is returned at once (\<open>ru_served = Some False\<close>).\<close>

definition Start :: "bool \<Rightarrow> serverState \<Rightarrow> time \<Rightarrow> runState" where
  "Start listenOk srv now = \<lparr>ru_srv = srv, ru_clock = now, ru_ctxDone = False, ru_stop = StopWait,
     ru_graceful = GracefulIdle, ru_forced = False, ru_served = (if listenOk then None else Some False),
     ru_main = MainServing, ru_psClosed = False\<rparr>"

text \<open>The goroutine that waits for the signal: it starts the clock and the graceful stop.\<close>

definition begin_stop :: "duration \<Rightarrow> runState \<Rightarrow> runState" where
  "begin_stop timeout s = s\<lparr>ru_stop := StopSelect (ru_clock s + shutdown_limit timeout), ru_graceful := GracefulRunning\<rparr>"

definition force_stop :: "runState \<Rightarrow> runState" where
  "force_stop s = s\<lparr>ru_forced := True, ru_stop := StopEnd\<rparr>"

text \<open>The rest of \<open>main\<close>: \<open>fatal\<close> on an error of \<open>Start\<close>, otherwise \<open>ps.Close\<close> and a normal exit.\<close>

definition main_rest :: "bool \<Rightarrow> runState \<Rightarrow> runState" where
  "main_rest ok s = (if ok then s\<lparr>ru_psClosed := True, ru_main := MainExit 0\<rparr> else s\<lparr>ru_main := MainExit 1\<rparr>)"

definition all_returned :: "serverState \<Rightarrow> bool" where
  "all_returned v \<longleftrightarrow> (\<forall>c \<in> set (sv_conns v). se_rcv c = RcvReturned)"

datatype runLabel = UServer serverLabel | USignal | UTime | UDeadline | UGraceful | UServeError | UStop | UServe | UMain

fun is_connect :: "serverLabel \<Rightarrow> bool" where
  "is_connect (LConnect i) = True"
| "is_connect _ = False"

inductive run_step :: "(bytes list \<Rightarrow> nat) \<Rightarrow> duration \<Rightarrow> runState \<Rightarrow> runLabel \<Rightarrow> runState \<Rightarrow> bool"
  for msgSize :: "bytes list \<Rightarrow> nat" and timeout :: duration where
  ru_server: "ru_main s = MainServing \<Longrightarrow> server_step msgSize (ru_srv s) l v \<Longrightarrow>
    (is_connect l \<Longrightarrow> ru_served s = None \<and> ru_graceful s = GracefulIdle) \<Longrightarrow>
    run_step msgSize timeout s (UServer l) (s\<lparr>ru_srv := v\<rparr>)"
| ru_signal: "run_step msgSize timeout s USignal (s\<lparr>ru_ctxDone := True\<rparr>)"
| ru_time: "ru_clock s \<le> now \<Longrightarrow> run_step msgSize timeout s UTime (s\<lparr>ru_clock := now\<rparr>)"
| ru_deadline: "ru_stop s = StopSelect d \<Longrightarrow> ru_clock s < d \<Longrightarrow> run_step msgSize timeout s UDeadline (s\<lparr>ru_clock := d\<rparr>)"
| ru_begin: "ru_main s = MainServing \<Longrightarrow> ru_stop s = StopWait \<Longrightarrow> ru_ctxDone s \<Longrightarrow>
    run_step msgSize timeout s UStop (begin_stop timeout s)"
| ru_finished: "ru_main s = MainServing \<Longrightarrow> ru_graceful s = GracefulRunning \<Longrightarrow> all_returned (ru_srv s) \<or> ru_forced s \<Longrightarrow>
    run_step msgSize timeout s UGraceful (s\<lparr>ru_graceful := GracefulDone\<rparr>)"
| ru_done: "ru_main s = MainServing \<Longrightarrow> ru_stop s = StopSelect d \<Longrightarrow> ru_graceful s = GracefulDone \<Longrightarrow>
    run_step msgSize timeout s UStop (s\<lparr>ru_stop := StopEnd\<rparr>)"
| ru_timeout: "ru_main s = MainServing \<Longrightarrow> ru_stop s = StopSelect d \<Longrightarrow> d \<le> ru_clock s \<Longrightarrow>
    run_step msgSize timeout s UStop (force_stop s)"
| ru_served: "ru_main s = MainServing \<Longrightarrow> ru_served s = None \<Longrightarrow> ru_graceful s = GracefulDone \<or> ru_forced s \<Longrightarrow>
    run_step msgSize timeout s UServe (s\<lparr>ru_served := Some True\<rparr>)"
| ru_serve_error: "ru_main s = MainServing \<Longrightarrow> ru_served s = None \<Longrightarrow> ru_graceful s = GracefulIdle \<Longrightarrow>
    run_step msgSize timeout s UServeError (s\<lparr>ru_served := Some False\<rparr>)"
| ru_main: "ru_main s = MainServing \<Longrightarrow> ru_served s = Some ok \<Longrightarrow> run_step msgSize timeout s UMain (main_rest ok s)"

inductive_cases run_stopE: "run_step msgSize timeout s UStop t"
inductive_cases run_serveE: "run_step msgSize timeout s UServe t"
inductive_cases run_mainE: "run_step msgSize timeout s UMain t"
inductive_cases run_deadlineE: "run_step msgSize timeout s UDeadline t"

section \<open>The invariant\<close>

definition run_ok :: "duration \<Rightarrow> runState \<Rightarrow> bool" where
  "run_ok timeout s \<longleftrightarrow> (ru_stop s \<noteq> StopWait \<longrightarrow> ru_ctxDone s) \<and> (ru_graceful s = GracefulIdle \<longleftrightarrow> ru_stop s = StopWait) \<and>
     (ru_forced s \<longrightarrow> ru_stop s = StopEnd) \<and> (\<forall>d. ru_stop s = StopSelect d \<longrightarrow> d \<le> ru_clock s + shutdown_limit timeout) \<and>
     (ru_stop s = StopEnd \<longrightarrow> ru_graceful s = GracefulDone \<or> ru_forced s) \<and>
     (ru_served s = Some True \<longrightarrow> ru_graceful s = GracefulDone \<or> ru_forced s) \<and>
     (ru_psClosed s \<longleftrightarrow> ru_main s = MainExit 0) \<and> (ru_psClosed s \<longrightarrow> ru_served s = Some True) \<and>
     (ru_graceful s = GracefulDone \<and> \<not> ru_forced s \<longrightarrow> all_returned (ru_srv s))"

text \<open>A handler that has returned stays so.\<close>

lemma all_returned_upd:
  "all_returned v \<Longrightarrow> (\<And>c. se_rcv c = RcvReturned \<Longrightarrow> se_rcv (f c) = RcvReturned) \<Longrightarrow> all_returned (upd_conn n f v)"
  using set_update_subset_insert [of "sv_conns v" n "f (sv_conns v ! n)"]
  by (auto simp: all_returned_def upd_conn_def)

lemma all_returned_counters [simp]:
  "all_returned (v\<lparr>sv_bytesIn := x\<rparr>) = all_returned v" "all_returned (v\<lparr>sv_bytesOut := x\<rparr>) = all_returned v"
  "all_returned (v\<lparr>sv_droppedSends := x\<rparr>) = all_returned v" "all_returned (v\<lparr>sv_sendErrors := x\<rparr>) = all_returned v"
  "all_returned (v\<lparr>sv_streams := m\<rparr>) = all_returned v"
  by (simp_all add: all_returned_def)

lemma all_returned_Broadcast: "all_returned v \<Longrightarrow> all_returned (Broadcast tid v)"
proof -
  have "all_returned v \<Longrightarrow> all_returned (fold (Broadcast_one tid) ns v)" for ns
    by (induction ns arbitrary: v) (simp_all add: Broadcast_one_def all_returned_upd)
  then show "all_returned v \<Longrightarrow> all_returned (Broadcast tid v)" by (simp add: Broadcast_def)
qed

lemma all_returned_step:
  assumes "server_step msgSize v l w" and "\<not> is_connect l" and "all_returned v"
  shows "all_returned w"
  using assms(1)
proof cases
  case (sv_end n)
  then have "se_rcv (sv_conns v ! n) = RcvReturned" using assms(3) by (simp add: all_returned_def)
  with sv_end(4) show ?thesis by simp
qed (use assms(2,3) in \<open>auto simp: count_in_def close_done_def snd_batch_def snd_done_def snd_take_def snd_more_def
      all_returned_Broadcast all_returned_upd\<close>)

lemma run_ok_step:
  assumes "run_step msgSize timeout s l t" and I: "run_ok timeout s"
  shows "run_ok timeout t"
  using assms(1)
proof cases
  case (ru_server m v)
  have "all_returned v" if "ru_graceful s = GracefulDone" "\<not> ru_forced s"
    using all_returned_step [OF ru_server(4)] ru_server(5) I that by (auto simp: run_ok_def)
  then show ?thesis using I ru_server(2) by (simp add: run_ok_def)
qed (use I in \<open>auto simp: run_ok_def begin_stop_def force_stop_def main_rest_def\<close>)

lemma run_ok_Start: "run_ok timeout (Start listenOk v now)"
  by (simp add: run_ok_def Start_def)

section \<open>Shutting down\<close>

definition stop_work :: "runState \<Rightarrow> nat" where
  "stop_work s = (case ru_stop s of StopWait \<Rightarrow> 3 | StopSelect d \<Rightarrow> (if ru_clock s < d then 2 else 1) | StopEnd \<Rightarrow> 0) +
     (if ru_served s = None then 1 else 0) + (if ru_main s = MainServing then 1 else 0)"

text \<open>The steps of the program itself, and the passing of time until the deadline.\<close>

fun program_step :: "runLabel \<Rightarrow> bool" where
  "program_step UStop = True"
| "program_step UServe = True"
| "program_step UMain = True"
| "program_step UDeadline = True"
| "program_step _ = False"

lemma program_cases: "program_step l \<Longrightarrow> l \<in> {UStop, UServe, UMain, UDeadline}"
  by (cases l) auto

lemma stop_work_paid:
  assumes "run_step msgSize timeout s l t"
  shows "stop_work t + (if program_step l then 1 else 0) \<le> stop_work s"
  using assms
  by cases (auto simp: stop_work_def begin_stop_def force_stop_def main_rest_def split: stopPc.splits)

definition stopping :: "runState \<Rightarrow> bool" where
  "stopping s \<longleftrightarrow> ru_ctxDone s \<and> ru_served s \<noteq> Some False \<and> ru_main s \<in> {MainServing, MainExit 0}"

lemma stopping_step: "run_step msgSize timeout s l t \<Longrightarrow> program_step l \<Longrightarrow> stopping s \<Longrightarrow> stopping t"
  by (auto simp: stopping_def begin_stop_def force_stop_def main_rest_def dest!: program_cases
      elim!: run_stopE run_serveE run_mainE run_deadlineE)

lemma stopping_enabled:
  assumes I: "run_ok timeout s" and p: "stopping s" and g: "ru_main s \<noteq> MainExit 0"
  shows "\<exists>l t. program_step l \<and> run_step msgSize timeout s l t"
proof -
  have m: "ru_main s = MainServing" and c: "ru_ctxDone s" using p g by (auto simp: stopping_def)
  show ?thesis
  proof (cases "ru_stop s")
    case StopWait
    then show ?thesis using ru_begin [OF m _ c] by (intro exI [of _ UStop]) auto
  next
    case (StopSelect d)
    then show ?thesis
    proof (cases "ru_clock s < d")
      case True
      then show ?thesis using ru_deadline [OF StopSelect] by (intro exI [of _ UDeadline]) auto
    next
      case False
      then show ?thesis using ru_timeout [OF m StopSelect] by (intro exI [of _ UStop]) auto
    qed
  next
    case StopEnd
    then have e: "ru_graceful s = GracefulDone \<or> ru_forced s" using I by (simp add: run_ok_def)
    show ?thesis
    proof (cases "ru_served s")
      case None
      then show ?thesis using ru_served [OF m None e] by (intro exI [of _ UServe]) auto
    next
      case (Some ok)
      then show ?thesis using ru_main [OF m Some] by (intro exI [of _ UMain]) auto
    qed
  qed
qed

interpretation stop: drains "run_step msgSize timeout" "run_ok timeout" "\<lambda>_. True" program_step stop_work "\<lambda>_. 0"
  stopping "\<lambda>s. ru_main s = MainExit 0" program_step for msgSize timeout
proof
  show "run_step msgSize timeout s l t \<Longrightarrow> stop_work t + (if program_step l then 1 else 0) \<le> stop_work s + 0" for s l t
    using stop_work_paid by simp
  show "run_ok timeout s \<Longrightarrow> stopping s \<Longrightarrow> ru_main s \<noteq> MainExit 0 \<Longrightarrow> \<exists>l t. program_step l \<and> run_step msgSize timeout s l t" for s
    by (rule stopping_enabled)
qed (auto intro: run_ok_step stopping_step)

lemma main_rest_frame [simp]: "ru_stop (main_rest ok s) = ru_stop s" "ru_clock (main_rest ok s) = ru_clock s"
  by (simp_all add: main_rest_def)

text \<open>The program does not wait longer than until its deadline.\<close>

lemma program_run_clock:
  assumes "run (run_step msgSize timeout) s ls t" and "\<forall>l \<in> set ls. program_step l" and I: "run_ok timeout s"
  shows "ru_clock t \<le> ru_clock s + max 0 (shutdown_limit timeout)"
proof -
  define J where "J u \<longleftrightarrow> ru_clock u \<le> ru_clock s + max 0 (shutdown_limit timeout) \<and>
    (case ru_stop u of StopWait \<Rightarrow> ru_clock u = ru_clock s
       | StopSelect d \<Rightarrow> d \<le> ru_clock s + max 0 (shutdown_limit timeout) | StopEnd \<Rightarrow> True)" for u :: runState
  have "J t"
  proof (rule run_invariant [OF assms(1)])
    have "d \<le> ru_clock s + max 0 (shutdown_limit timeout)" if "ru_stop s = StopSelect d" for d
    proof -
      have "d \<le> ru_clock s + shutdown_limit timeout" using I that by (simp add: run_ok_def)
      then show ?thesis by linarith
    qed
    then show "J s" by (auto simp: J_def split: stopPc.split)
  next
    fix u l v assume st: "run_step msgSize timeout u l v" and l: "l \<in> set ls" and J: "J u"
    have "program_step l" using assms(2) l by blast
    then show "J v"
      using st J by (auto simp: J_def begin_stop_def force_stop_def dest!: program_cases
        elim!: run_stopE run_serveE run_mainE run_deadlineE split: stopPc.splits)
  qed
  then show ?thesis by (simp add: J_def)
qed

section \<open>Properties\<close>

text \<open>C22: A coordinator shuts down in time. From every state reached after the signal in which \<open>Serve\<close> has not
  failed: the program's own steps, with time passing at most until the deadline of \<open>shutdown_timeout\<close> (10
  seconds by default), lead to a normal exit, whatever the connected collectors do, in at most five steps; on
  exit \<open>Serve\<close> has returned without an error, the \<open>PubSub\<close> has been closed, and the stop was forced unless the
  handlers of all streams had returned.\<close>

theorem coordinator_shutdown:
  assumes "run (run_step msgSize timeout) (Start True srv now) ls s" and "stopping s"
  shows "(\<exists>ls' t. run (run_step msgSize timeout) s ls' t \<and> list_all program_step ls' \<and> ru_main t = MainExit 0) \<and>
    (\<forall>ls' t. run (run_step msgSize timeout) s ls' t \<and> list_all program_step ls' \<longrightarrow>
       length ls' \<le> 5 \<and> ru_clock t \<le> ru_clock s + max 0 (shutdown_limit timeout) \<and>
       ((\<nexists>l u. program_step l \<and> run_step msgSize timeout t l u) \<longrightarrow>
          ru_main t = MainExit 0 \<and> ru_psClosed t \<and> ru_served t = Some True \<and> (ru_forced t \<or> all_returned (ru_srv t))))"
proof (intro conjI allI impI)
  have I: "run_ok timeout s"
    by (rule run_invariant [OF assms(1)]) (auto intro: run_ok_Start run_ok_step)
  show "\<exists>ls' t. run (run_step msgSize timeout) s ls' t \<and> list_all program_step ls' \<and> ru_main t = MainExit 0"
    using stop.reaches_goal [OF I assms(2)] by (simp add: list_all_iff)
  fix ls' t assume r: "run (run_step msgSize timeout) s ls' t \<and> list_all program_step ls'"
  then have all: "\<forall>l \<in> set ls'. program_step l" by (simp add: list_all_iff)
  have "stop_work s \<le> 5" by (simp add: stop_work_def split: stopPc.split)
  then show "length ls' \<le> 5" using stop.free_run(1) [OF conjunct1 [OF r] I all] by simp
  show "ru_clock t \<le> ru_clock s + max 0 (shutdown_limit timeout)" by (rule program_run_clock [OF conjunct1 [OF r] all I])
  have J: "run_ok timeout t" using stop.free_run(2) [OF conjunct1 [OF r] I all] .
  assume "\<nexists>l u. program_step l \<and> run_step msgSize timeout t l u"
  then show e: "ru_main t = MainExit 0" using stop.stuck_at_goal [OF conjunct1 [OF r] I assms(2) all] by blast
  show "ru_psClosed t" "ru_served t = Some True" "ru_forced t \<or> all_returned (ru_srv t)"
    using J e by (auto simp: run_ok_def)
qed

theorem coordinator_shutdown_witness:
  "\<exists>ls' t. run (run_step length 0) ((Start True (server_New None None None None) 0)\<lparr>ru_ctxDone := True\<rparr>) ls' t \<and>
     list_all program_step ls' \<and> ru_main t = MainExit 0"
proof -
  let ?a = "Start True (server_New None None None None) 0"
  have "run (run_step length 0) ?a [USignal] (?a\<lparr>ru_ctxDone := True\<rparr>)"
    using run_snoc [OF run_nil [of "run_step length 0" ?a] ru_signal] by simp
  then show ?thesis using coordinator_shutdown by (simp add: stopping_def Start_def)
qed

end
