(* ===== verification/Tracegen.thy ===== *)
theory Tracegen
  imports Prelude
begin

text \<open>
  The load generator (\<open>cmd/tracegen/main.go\<close>): the trace IDs that carry the generator's own data
  (\<open>traceID\<close>, \<open>NewIDs\<close>), the emission of a trace (\<open>emit\<close>), the classification of the spans that come
  back through the collectors (\<open>Export\<close>) and the garbage collection that counts complete traces
  (\<open>sweep\<close>).

  The map \<open>traces\<close> and the list \<open>tracesQ\<close> share their slots through list elements: an element is a
  number, \<open>tg_slots\<close> the store of the slots, the map and the list hold elements. Every use of them is one
  critical section of \<open>mu\<close>, so the three operations are functions on the state. The byte order of the
  machine, the two padding bytes of the structure and the memory behind a trace ID that is shorter than the
  structure are parameters; random choices are arguments.
\<close>

unbundle bit_operations_syntax

section \<open>Trace IDs\<close>

record tgTraceID =
  ti_id :: "32 word"
  ti_code :: byte
  ti_isErr :: bool

record tgCfg =
  tg_bigEndian :: bool
  tg_code :: byte
  tg_svcCount :: int
  tg_wait :: int

definition native :: "bool \<Rightarrow> bytes \<Rightarrow> bytes" where
  "native big bs = (if big then bs else rev bs)"

text \<open>The structure in memory: 8 bytes, of which the last two are padding.\<close>

definition struct_bytes :: "bool \<Rightarrow> bytes \<Rightarrow> tgTraceID \<Rightarrow> bytes" where
  "struct_bytes big pad t =
     native big (be_put 4 (unat (ti_id t))) @ [ti_code t, if ti_isErr t then 1 else 0] @ pad"

text \<open>\<open>NewIDs\<close>: the counter is incremented, the structure overlaid on the zeroed 16 bytes.\<close>

definition NewIDs :: "tgCfg \<Rightarrow> bytes \<Rightarrow> bool \<Rightarrow> 32 word \<Rightarrow> bytes \<times> 32 word" where
  "NewIDs cfg pad isErr counter =
     (struct_bytes (tg_bigEndian cfg) pad \<lparr>ti_id = counter + 1, ti_code = tg_code cfg, ti_isErr = isErr\<rparr> @ replicate 8 0,
      counter + 1)"

text \<open>The structure read through a pointer to the first byte; \<open>None\<close> is the panic on an empty slice.\<close>

definition read_traceID :: "bool \<Rightarrow> bytes \<Rightarrow> bytes \<Rightarrow> tgTraceID option" where
  "read_traceID big beyond bs =
     (if bs = [] then None
      else let m = bs @ beyond in
        Some \<lparr>ti_id = word_of_nat (be_get (native big (take 4 m))), ti_code = m ! 4, ti_isErr = (m ! 5 \<noteq> 0)\<rparr>)"

lemma read_NewIDs:
  assumes "length pad = 2"
  shows "read_traceID (tg_bigEndian cfg) beyond (fst (NewIDs cfg pad isErr counter)) =
    Some \<lparr>ti_id = counter + 1, ti_code = tg_code cfg, ti_isErr = isErr\<rparr>"
proof -
  have len: "length (native b (be_put 4 v)) = 4" for b v by (simp add: native_def)
  have "native b (native b bs) = bs" for b bs by (simp add: native_def)
  moreover have "be_get (be_put 4 (unat w)) = unat w" for w :: "32 word"
  proof -
    have "unat w < 2 ^ 32" using unsigned_less [of w] by simp
    then show ?thesis by (simp add: be_get_put)
  qed
  ultimately show ?thesis
    by (simp add: NewIDs_def struct_bytes_def read_traceID_def Let_def nth_append len)
qed

section \<open>State\<close>

record traceSlot =
  sl_id :: "32 word"
  sl_age :: int
  sl_spans :: "64 word"
  sl_errSvc :: int

datatype reason = Foreign | NonError | Corrupted | Dup | Late | Expected

record tgState =
  tg_counter :: "32 word"
  tg_traces :: "32 word \<rightharpoonup> nat"
  tg_tracesQ :: "nat list"
  tg_slots :: "nat \<Rightarrow> traceSlot"
  tg_next :: nat
  tg_SpansGot :: "reason \<Rightarrow> nat"
  tg_TracesSent :: "bool \<Rightarrow> nat"
  tg_full :: nat
  tg_partial :: nat
  tg_none :: nat

record tgSpan =
  tsp_traceId :: bytes
  tsp_name :: string
  tsp_attributes :: "(string \<times> int) list"
  tsp_error :: bool

section \<open>Emission\<close>

text \<open>\<open>%d\<close> of a non-negative number, and the name of a service's span.\<close>

fun decimal :: "nat \<Rightarrow> string" where
  "decimal n = (if n < 10 then [] else decimal (n div 10)) @ [''0123456789'' ! (n mod 10)]"

declare decimal.simps [simp del]

definition span_name :: "nat \<Rightarrow> string" where
  "span_name i = ''svc'' @ decimal i @ ''.handle''"

definition emit_span :: "bytes \<Rightarrow> bool \<Rightarrow> nat \<Rightarrow> nat \<Rightarrow> tgSpan" where
  "emit_span tid isErr errSvc i = \<lparr>tsp_traceId = tid, tsp_name = span_name i, tsp_attributes = [(''my.seq'', int i)],
     tsp_error = (isErr \<and> errSvc = i)\<rparr>"

text \<open>\<open>emit\<close> with its two random choices: the trace is counted, an error trace gets a slot at the front of
  the list, and one span per service is started; the result has these spans.\<close>

definition emit :: "tgCfg \<Rightarrow> bytes \<Rightarrow> bool \<Rightarrow> nat \<Rightarrow> int \<Rightarrow> tgState \<Rightarrow> tgSpan list \<times> tgState" where
  "emit cfg pad isErr errSvc now s =
     (let (tid, c) = NewIDs cfg pad isErr (tg_counter s);
          s = s\<lparr>tg_counter := c, tg_TracesSent := (tg_TracesSent s)(isErr := Suc (tg_TracesSent s isErr))\<rparr>;
          e = tg_next s;
          s = (if isErr then s\<lparr>tg_next := Suc e, tg_tracesQ := e # tg_tracesQ s, tg_traces := (tg_traces s)(c \<mapsto> e),
                 tg_slots := (tg_slots s)(e := \<lparr>sl_id = c, sl_age = now, sl_spans = 0, sl_errSvc = int errSvc\<rparr>)\<rparr> else s)
      in (map (emit_span tid isErr errSvc) [0..<nat (tg_svcCount cfg)], s))"

section \<open>Export\<close>

text \<open>The loop over the attributes: the last \<open>my.seq\<close> counts.\<close>

definition my_seq :: "(string \<times> int) list \<Rightarrow> int" where
  "my_seq as = fold (\<lambda>(k, v) q. if k = ''my.seq'' then v else q) as (-1)"

definition export_slot :: "nat \<Rightarrow> int \<Rightarrow> bool \<Rightarrow> tgState \<Rightarrow> reason \<times> tgState" where
  "export_slot e q gotErr s =
     (let slot = tg_slots s e; mask = push_bit (nat q) 1 in
      if sl_spans slot AND mask \<noteq> 0 then (Dup, s)
      else if (sl_errSvc slot = q) \<noteq> gotErr then (Corrupted, s)
      else (Expected, s\<lparr>tg_slots := (tg_slots s)(e := slot\<lparr>sl_spans := sl_spans slot OR mask\<rparr>)\<rparr>))"

definition export_span :: "tgCfg \<Rightarrow> bytes \<Rightarrow> tgSpan \<Rightarrow> tgState \<Rightarrow> (reason \<times> tgState) option" where
  "export_span cfg beyond x s =
     (case read_traceID (tg_bigEndian cfg) beyond (tsp_traceId x) of
        None \<Rightarrow> None
      | Some t \<Rightarrow> Some
          (if ti_code t \<noteq> tg_code cfg then (Foreign, s)
           else if \<not> ti_isErr t then (NonError, s)
           else let q = my_seq (tsp_attributes x) in
             if q < 0 \<or> tg_svcCount cfg \<le> q then (Corrupted, s)
             else if tsp_name x \<noteq> span_name (nat q) then (Corrupted, s)
             else case tg_traces s (ti_id t) of None \<Rightarrow> (Late, s) | Some e \<Rightarrow> export_slot e q (tsp_error x) s))"

fun export_spans :: "tgCfg \<Rightarrow> bytes \<Rightarrow> tgSpan list \<Rightarrow> tgState \<Rightarrow> (reason list \<times> tgState) option" where
  "export_spans cfg beyond [] s = Some ([], s)"
| "export_spans cfg beyond (x # xs) s =
     (case export_span cfg beyond x s of
        None \<Rightarrow> None
      | Some (r, s) \<Rightarrow> map_option (\<lambda>(rs, s). (r # rs, s)) (export_spans cfg beyond xs s))"

text \<open>The local counters are added to the metrics at the end.\<close>

definition Export :: "tgCfg \<Rightarrow> bytes \<Rightarrow> tgSpan list \<Rightarrow> tgState \<Rightarrow> tgState option" where
  "Export cfg beyond xs s =
     map_option (\<lambda>(rs, s). s\<lparr>tg_SpansGot := (\<lambda>r. tg_SpansGot s r + count_list rs r)\<rparr>) (export_spans cfg beyond xs s)"

section \<open>Sweep\<close>

text \<open>\<open>bits.OnesCount64\<close>\<close>

definition OnesCount64 :: "64 word \<Rightarrow> nat" where
  "OnesCount64 w = length (filter (bit w) [0..<64])"

definition sweep_count :: "tgCfg \<Rightarrow> traceSlot \<Rightarrow> tgState \<Rightarrow> tgState" where
  "sweep_count cfg slot s =
     (if int (OnesCount64 (sl_spans slot)) = tg_svcCount cfg then s\<lparr>tg_full := Suc (tg_full s)\<rparr>
      else if OnesCount64 (sl_spans slot) = 0 then s\<lparr>tg_none := Suc (tg_none s)\<rparr>
      else s\<lparr>tg_partial := Suc (tg_partial s)\<rparr>)"

text \<open>The loop from the back of the list, \<open>q\<close> being the list from its back.\<close>

fun sweep_loop :: "tgCfg \<Rightarrow> int \<Rightarrow> nat list \<Rightarrow> tgState \<Rightarrow> nat list \<times> tgState" where
  "sweep_loop cfg now [] s = ([], s)"
| "sweep_loop cfg now (e # q) s =
     (if now - sl_age (tg_slots s e) < tg_wait cfg then (e # q, s)
      else sweep_loop cfg now q
        (sweep_count cfg (tg_slots s e) (s\<lparr>tg_traces := (tg_traces s)(sl_id (tg_slots s e) := None)\<rparr>)))"

definition sweep :: "tgCfg \<Rightarrow> int \<Rightarrow> tgState \<Rightarrow> tgState" where
  "sweep cfg now s = (let (q, s) = sweep_loop cfg now (rev (tg_tracesQ s)) s in s\<lparr>tg_tracesQ := rev q\<rparr>)"

section \<open>The generator as a step relation\<close>

datatype tgLabel = GEmit bool nat | GExport "tgSpan list" | GSweep int

text \<open>\<open>main\<close> refuses more than 64 services, and \<open>rand.IntN\<close> chooses a service below their number.\<close>

definition tg_cfg_ok :: "tgCfg \<Rightarrow> bool" where
  "tg_cfg_ok cfg \<longleftrightarrow> 0 < tg_svcCount cfg \<and> tg_svcCount cfg \<le> 64"

definition tg_New :: tgState where
  "tg_New = \<lparr>tg_counter = 0, tg_traces = Map.empty, tg_tracesQ = [],
     tg_slots = (\<lambda>_. \<lparr>sl_id = 0, sl_age = 0, sl_spans = 0, sl_errSvc = 0\<rparr>), tg_next = 0, tg_SpansGot = (\<lambda>_. 0),
     tg_TracesSent = (\<lambda>_. 0), tg_full = 0, tg_partial = 0, tg_none = 0\<rparr>"

inductive tg_step :: "tgCfg \<Rightarrow> tgState \<Rightarrow> tgLabel \<Rightarrow> tgState \<Rightarrow> bool" for cfg :: tgCfg where
  g_emit: "int errSvc < tg_svcCount cfg \<Longrightarrow> length pad = 2 \<Longrightarrow>
    tg_step cfg s (GEmit isErr errSvc) (snd (emit cfg pad isErr errSvc now s))"
| g_export: "Export cfg beyond xs s = Some s' \<Longrightarrow> tg_step cfg s (GExport xs) s'"
| g_sweep: "tg_step cfg s (GSweep now) (sweep cfg now s)"

section \<open>Lemmas\<close>

lemma mask_test: "(w :: 64 word) AND push_bit n 1 = 0 \<longleftrightarrow> \<not> bit w n"
  by (simp add: push_bit_of_1 and_exp_eq_0_iff_not_bit)

lemma bit_mask_or: "n < 64 \<Longrightarrow> bit ((w :: 64 word) OR push_bit n 1) i \<longleftrightarrow> bit w i \<or> i = n"
  by (auto simp: push_bit_of_1 bit_or_iff bit_exp_iff)

lemma OnesCount64_card: "OnesCount64 w = card {i. bit w i}"
proof -
  have "{i. bit w i} = set (filter (bit w) [0..<64])" using bit_imp_le_length [of w] by auto
  then show ?thesis by (simp add: OnesCount64_def distinct_card del: set_filter)
qed

lemma finite_bits: "finite {i. bit (w :: 64 word) i}"
proof (rule finite_subset)
  show "{i. bit w i} \<subseteq> {..<64}" using bit_imp_le_length [of w] by auto
qed simp

lemma OnesCount64_or: "n < 64 \<Longrightarrow> \<not> bit w n \<Longrightarrow> OnesCount64 (w OR push_bit n 1) = Suc (OnesCount64 w)"
proof -
  assume n: "n < 64" "\<not> bit w n"
  then have "{i. bit (w OR push_bit n 1) i} = insert n {i. bit w i}"
    using bit_mask_or [OF n(1), of w] by blast
  with n show ?thesis using finite_bits [of w] by (simp add: OnesCount64_card)
qed

lemma OnesCount64_0 [simp]: "OnesCount64 0 = 0"
  by (simp add: OnesCount64_def)

text \<open>What receiving a span does: nothing but set the bit of its service in the slot of its trace.\<close>

lemma export_slot_cases:
  assumes "export_slot e q g s = (r, s')" and "0 \<le> q" "q < 64"
  obtains "s' = s" "r \<noteq> Expected"
  | "r = Expected" "\<not> bit (sl_spans (tg_slots s e)) (nat q)" "(sl_errSvc (tg_slots s e) = q) = g"
      "s' = s\<lparr>tg_slots := (tg_slots s)(e := (tg_slots s e)\<lparr>sl_spans := sl_spans (tg_slots s e) OR push_bit (nat q) 1\<rparr>)\<rparr>"
proof (cases "bit (sl_spans (tg_slots s e)) (nat q) \<or> (sl_errSvc (tg_slots s e) = q) \<noteq> g")
  case True
  then show ?thesis using assms(1) that(1) unfolding export_slot_def Let_def mask_test by (auto split: if_splits)
next
  case False
  then show ?thesis using assms(1) that(2) unfolding export_slot_def Let_def mask_test by simp
qed

lemma export_span_cases:
  assumes "export_span cfg beyond x s = Some (r, s')" and "tg_cfg_ok cfg"
  obtains "s' = s" "r \<noteq> Expected"
  | e q i where "r = Expected" "tg_traces s i = Some e" "0 \<le> q" "q < tg_svcCount cfg" "\<not> bit (sl_spans (tg_slots s e)) (nat q)"
      "s' = s\<lparr>tg_slots := (tg_slots s)(e := (tg_slots s e)\<lparr>sl_spans := sl_spans (tg_slots s e) OR push_bit (nat q) 1\<rparr>)\<rparr>"
proof -
  obtain t where t: "read_traceID (tg_bigEndian cfg) beyond (tsp_traceId x) = Some t"
    using assms(1) by (auto simp: export_span_def split: option.splits)
  define q where "q = my_seq (tsp_attributes x)"
  consider "s' = s" "r \<noteq> Expected"
    | e where "tg_traces s (ti_id t) = Some e" "0 \<le> q" "q < tg_svcCount cfg" "export_slot e q (tsp_error x) s = (r, s')"
    using assms(1) by (auto simp: export_span_def t q_def Let_def split: if_splits option.splits)
  then show thesis
  proof cases
    case 1
    then show ?thesis by (rule that(1))
  next
    case (2 e)
    have "q < 64" using 2(3) assms(2) by (simp add: tg_cfg_ok_def)
    from export_slot_cases [OF 2(4,2) this] show ?thesis using that 2(1,2,3) by metis
  qed
qed

definition bits_total :: "tgState \<Rightarrow> nat" where
  "bits_total s = (\<Sum>e<tg_next s. OnesCount64 (sl_spans (tg_slots s e)))"

definition slots_ok :: "tgCfg \<Rightarrow> tgState \<Rightarrow> bool" where
  "slots_ok cfg s \<longleftrightarrow> (\<forall>i e. tg_traces s i = Some e \<longrightarrow> e < tg_next s) \<and>
     (\<forall>e j. bit (sl_spans (tg_slots s e)) j \<longrightarrow> int j < tg_svcCount cfg)"

lemma export_span_ok:
  assumes "export_span cfg beyond x s = Some (r, s')" and "tg_cfg_ok cfg" and "slots_ok cfg s"
  shows "s' = s\<lparr>tg_slots := tg_slots s'\<rparr>" and "slots_ok cfg s'"
    and "bits_total s' = bits_total s + (if r = Expected then 1 else 0)"
proof -
  consider "s' = s" "r \<noteq> Expected"
    | e q i where "r = Expected" "tg_traces s i = Some e" "0 \<le> q" "q < tg_svcCount cfg" "\<not> bit (sl_spans (tg_slots s e)) (nat q)"
      "s' = s\<lparr>tg_slots := (tg_slots s)(e := (tg_slots s e)\<lparr>sl_spans := sl_spans (tg_slots s e) OR push_bit (nat q) 1\<rparr>)\<rparr>"
    using export_span_cases [OF assms(1,2)] by metis
  then have "s' = s\<lparr>tg_slots := tg_slots s'\<rparr> \<and> slots_ok cfg s' \<and>
    bits_total s' = bits_total s + (if r = Expected then 1 else 0)"
  proof cases
    case 1
    with assms(3) show ?thesis by simp
  next
    case (2 e q i)
    have q: "nat q < 64" "int (nat q) < tg_svcCount cfg" using 2(3,4) assms(2) by (auto simp: tg_cfg_ok_def)
    have e: "e < tg_next s" using assms(3) 2(2) by (auto simp: slots_ok_def)
    have "s' = s\<lparr>tg_slots := tg_slots s'\<rparr>" unfolding 2(6) by simp
    moreover have "slots_ok cfg s'"
      using assms(3) q(2) bit_mask_or [OF q(1)] unfolding 2(6) slots_ok_def by (auto simp del: push_bit_of_1)
    moreover have "bits_total s' = OnesCount64 (sl_spans (tg_slots s' e)) + (\<Sum>d\<in>{..<tg_next s} - {e}. OnesCount64 (sl_spans (tg_slots s d)))"
      unfolding bits_total_def using e by (simp add: 2(6) sum.remove [of "{..<tg_next s}" e])
    moreover have "bits_total s = OnesCount64 (sl_spans (tg_slots s e)) + (\<Sum>d\<in>{..<tg_next s} - {e}. OnesCount64 (sl_spans (tg_slots s d)))"
      unfolding bits_total_def using e by (simp add: sum.remove [of "{..<tg_next s}" e])
    moreover have "OnesCount64 (sl_spans (tg_slots s' e)) = Suc (OnesCount64 (sl_spans (tg_slots s e)))"
      using OnesCount64_or [OF q(1) 2(5)] by (simp add: 2(6) del: push_bit_of_1)
    ultimately show ?thesis using 2(1) by simp
  qed
  then show "s' = s\<lparr>tg_slots := tg_slots s'\<rparr>" "slots_ok cfg s'"
    "bits_total s' = bits_total s + (if r = Expected then 1 else 0)" by blast+
qed

lemma export_spans_ok:
  assumes "export_spans cfg beyond xs s = Some (rs, s')" and "tg_cfg_ok cfg" and "slots_ok cfg s"
  shows "s' = s\<lparr>tg_slots := tg_slots s'\<rparr> \<and> slots_ok cfg s' \<and> bits_total s' = bits_total s + count_list rs Expected \<and>
    length rs = length xs"
  using assms(1,3)
proof (induction xs arbitrary: s rs)
  case (Cons x xs)
  then obtain r t rs' where t: "export_span cfg beyond x s = Some (r, t)" "export_spans cfg beyond xs t = Some (rs', s')" "rs = r # rs'"
    by (auto split: option.splits)
  note x = export_span_ok [OF t(1) assms(2) Cons.prems(2)]
  have "s' = t\<lparr>tg_slots := tg_slots s'\<rparr>" "slots_ok cfg s'" "bits_total s' = bits_total t + count_list rs' Expected" "length rs' = length xs"
    using Cons.IH [OF t(2) x(2)] by blast+
  moreover have "t\<lparr>tg_slots := tg_slots s'\<rparr> = s\<lparr>tg_slots := tg_slots s'\<rparr>" by (subst x(1)) simp
  ultimately show ?case using x(3) t(3) by simp
qed simp

lemma count_reasons: "sum_list (map (count_list rs) [Foreign, NonError, Corrupted, Dup, Late, Expected]) = length rs"
proof (induction rs)
  case (Cons r rs)
  then show ?case by (cases r) simp_all
qed simp

definition swept :: "tgState \<Rightarrow> nat" where
  "swept s = tg_full s + tg_partial s + tg_none s"

lemma sweep_loop_ok:
  assumes "sweep_loop cfg now q s = (q', s')"
  shows "swept s' + length q' = swept s + length q \<and> tg_slots s' = tg_slots s \<and> tg_next s' = tg_next s \<and>
    tg_SpansGot s' = tg_SpansGot s \<and> tg_TracesSent s' = tg_TracesSent s \<and> tg_tracesQ s' = tg_tracesQ s \<and> tg_traces s' \<subseteq>\<^sub>m tg_traces s"
  using assms
proof (induction q arbitrary: s)
  case (Cons e q)
  show ?case
  proof (cases "now - sl_age (tg_slots s e) < tg_wait cfg")
    case True
    then show ?thesis using Cons.prems by auto
  next
    case False
    define t where "t = sweep_count cfg (tg_slots s e) (s\<lparr>tg_traces := (tg_traces s)(sl_id (tg_slots s e) := None)\<rparr>)"
    have t: "swept t = Suc (swept s)" "tg_slots t = tg_slots s" "tg_next t = tg_next s" "tg_SpansGot t = tg_SpansGot s"
      "tg_TracesSent t = tg_TracesSent s" "tg_tracesQ t = tg_tracesQ s" "tg_traces t \<subseteq>\<^sub>m tg_traces s"
      by (auto simp: t_def sweep_count_def swept_def map_le_def)
    have "sweep_loop cfg now q t = (q', s')" using Cons.prems False by (simp add: t_def)
    from Cons.IH [OF this] t show ?thesis using map_le_trans by fastforce
  qed
qed simp

definition tg_inv :: "tgCfg \<Rightarrow> tgState \<Rightarrow> bool" where
  "tg_inv cfg s \<longleftrightarrow> slots_ok cfg s \<and> tg_SpansGot s Expected = bits_total s \<and>
     swept s + length (tg_tracesQ s) = tg_TracesSent s True \<and> tg_next s = tg_TracesSent s True"

lemma emit_snd:
  "snd (emit cfg pad isErr errSvc now s) =
     (let c = tg_counter s + 1; e = tg_next s;
          s' = s\<lparr>tg_counter := c, tg_TracesSent := (tg_TracesSent s)(isErr := Suc (tg_TracesSent s isErr))\<rparr>
      in if isErr then s'\<lparr>tg_next := Suc e, tg_tracesQ := e # tg_tracesQ s, tg_traces := (tg_traces s)(c \<mapsto> e),
                tg_slots := (tg_slots s)(e := \<lparr>sl_id = c, sl_age = now, sl_spans = 0, sl_errSvc = int errSvc\<rparr>)\<rparr> else s')"
  by (simp add: emit_def NewIDs_def Let_def)

lemma emit_slots_ok: "slots_ok cfg s \<Longrightarrow> slots_ok cfg (snd (emit cfg pad isErr errSvc now s))"
proof -
  assume ok: "slots_ok cfg s"
  then have "\<forall>i e. tg_traces s i = Some e \<longrightarrow> e < Suc (tg_next s)" using less_SucI unfolding slots_ok_def by blast
  with ok show ?thesis unfolding emit_snd Let_def slots_ok_def by (cases isErr) simp_all
qed

lemma emit_inv:
  assumes I: "tg_inv cfg s"
  shows "tg_inv cfg (snd (emit cfg pad isErr errSvc now s)) \<and>
    tg_SpansGot (snd (emit cfg pad isErr errSvc now s)) = tg_SpansGot s"
proof -
  have "slots_ok cfg (snd (emit cfg pad isErr errSvc now s))" using I emit_slots_ok by (simp add: tg_inv_def)
  then show ?thesis using I unfolding tg_inv_def by (simp add: emit_snd bits_total_def swept_def Let_def)
qed

text \<open>The spans handed to the listener in a run.\<close>

fun tg_received :: "tgLabel list \<Rightarrow> tgSpan list" where
  "tg_received [] = []"
| "tg_received (GExport xs # ls) = xs @ tg_received ls"
| "tg_received (_ # ls) = tg_received ls"

lemma tg_received_append [simp]: "tg_received (ls @ ms) = tg_received ls @ tg_received ms"
  by (induction ls rule: tg_received.induct) auto

definition got_total :: "tgState \<Rightarrow> nat" where
  "got_total s = sum_list (map (tg_SpansGot s) [Foreign, NonError, Corrupted, Dup, Late, Expected])"

lemma tg_step_inv:
  assumes "tg_step cfg s l s'" and I: "tg_inv cfg s" and ok: "tg_cfg_ok cfg"
  shows "tg_inv cfg s' \<and> got_total s' = got_total s + length (tg_received [l])"
  using assms(1)
proof cases
  case (g_emit errSvc pad isErr now)
  then show ?thesis using emit_inv [OF I, of pad isErr errSvc now] by (simp add: got_total_def)
next
  case (g_export beyond xs)
  obtain rs t where t: "export_spans cfg beyond xs s = Some (rs, t)"
    and s': "s' = t\<lparr>tg_SpansGot := (\<lambda>r. tg_SpansGot t r + count_list rs r)\<rparr>"
    using g_export(2) by (auto simp: Export_def)
  have sl: "slots_ok cfg s" using I by (simp add: tg_inv_def)
  have f: "t = s\<lparr>tg_slots := tg_slots t\<rparr>" and o: "slots_ok cfg t" "bits_total t = bits_total s + count_list rs Expected" "length rs = length xs"
    using export_spans_ok [OF t ok sl] by blast+
  have e: "tg_SpansGot t = tg_SpansGot s" "tg_next t = tg_next s" "tg_tracesQ t = tg_tracesQ s" "tg_TracesSent t = tg_TracesSent s"
    "swept t = swept s" by (subst f, simp add: swept_def)+
  have "slots_ok cfg s'" "bits_total s' = bits_total t" "swept s' = swept t" using o(1) by (simp_all add: s' slots_ok_def bits_total_def swept_def)
  then have "tg_inv cfg s'" using I o(2) e by (simp add: tg_inv_def s')
  moreover have "got_total s' = got_total s + length xs"
    using count_reasons [of rs] o(3) by (simp add: got_total_def s' e)
  ultimately show ?thesis by (simp add: g_export(1))
next
  case (g_sweep now)
  obtain q u where u: "sweep_loop cfg now (rev (tg_tracesQ s)) s = (q, u)" by (metis prod.exhaust)
  note o = sweep_loop_ok [OF u]
  have s': "s' = u\<lparr>tg_tracesQ := rev q\<rparr>" using g_sweep(2) u by (simp add: sweep_def)
  have "tg_traces s i = Some e" if "tg_traces u i = Some e" for i e
    using o that by (metis domI map_le_def)
  then have "slots_ok cfg s'" using I o by (fastforce simp: tg_inv_def slots_ok_def s')
  moreover have "swept s' = swept u" "bits_total s' = bits_total s" using o by (simp_all add: s' swept_def bits_total_def)
  ultimately show ?thesis using I o g_sweep(1) by (simp add: tg_inv_def s' got_total_def)
qed

lemma tg_reach_inv:
  assumes "run (tg_step cfg) tg_New ls s" and "tg_cfg_ok cfg"
  shows "tg_inv cfg s \<and> got_total s = length (tg_received ls)"
  using assms(1)
proof (induction rule: run.induct)
  case run_nil
  show ?case by (simp add: tg_New_def tg_inv_def slots_ok_def bits_total_def swept_def got_total_def)
next
  case (run_snoc ls s l t)
  then show ?case using tg_step_inv [OF run_snoc.hyps(2) _ assms(2)] by simp
qed

lemma OnesCount64_le:
  assumes "\<forall>j. bit w j \<longrightarrow> int j < n"
  shows "int (OnesCount64 w) \<le> n \<or> n < 0"
proof -
  have "{j. bit w j} \<subseteq> {..<nat n}" using assms by auto
  then have "OnesCount64 w \<le> nat n" unfolding OnesCount64_card using card_mono [of "{..<nat n}"] by fastforce
  then show ?thesis by auto
qed

text \<open>Bits are never cleared, and a span that was emitted sets its own.\<close>

lemma export_span_mono:
  assumes "export_span cfg beyond x s = Some (r, s')" and "tg_cfg_ok cfg"
  shows "tg_traces s' = tg_traces s \<and> sl_errSvc (tg_slots s' e) = sl_errSvc (tg_slots s e) \<and>
    (bit (sl_spans (tg_slots s e)) j \<longrightarrow> bit (sl_spans (tg_slots s' e)) j)"
  by (rule export_span_cases [OF assms]) (auto simp: bit_or_iff)

lemma export_emitted:
  assumes "export_span cfg beyond (emit_span tid True errSvc j) s = Some (r, s')" and "tg_cfg_ok cfg"
    and "read_traceID (tg_bigEndian cfg) beyond tid = Some \<lparr>ti_id = c, ti_code = tg_code cfg, ti_isErr = True\<rparr>"
    and "tg_traces s c = Some e" and "sl_errSvc (tg_slots s e) = int errSvc" and j: "int j < tg_svcCount cfg"
  shows "bit (sl_spans (tg_slots s' e)) j"
proof -
  have "export_slot e (int j) (errSvc = j) s = (r, s')"
    using assms(1,3,4) j by (simp add: export_span_def emit_span_def my_seq_def Let_def)
  moreover have "j < 64" using j assms(2) by (simp add: tg_cfg_ok_def)
  ultimately show ?thesis
    using assms(5) bit_mask_or [of j "sl_spans (tg_slots s e)" j]
    unfolding export_slot_def Let_def mask_test by (auto simp del: push_bit_of_1 split: if_splits)
qed

lemma export_spans_bits:
  assumes "export_spans cfg beyond xs s = Some (rs, s')" and ok: "tg_cfg_ok cfg"
    and tid: "read_traceID (tg_bigEndian cfg) beyond tid = Some \<lparr>ti_id = c, ti_code = tg_code cfg, ti_isErr = True\<rparr>"
    and "tg_traces s c = Some e" and "sl_errSvc (tg_slots s e) = int errSvc" and j: "int j < tg_svcCount cfg"
    and "emit_span tid True errSvc j \<in> set xs \<or> bit (sl_spans (tg_slots s e)) j"
  shows "bit (sl_spans (tg_slots s' e)) j"
  using assms(1,4,5,7)
proof (induction xs arbitrary: s rs)
  case (Cons x xs)
  then obtain r t rs' where t: "export_span cfg beyond x s = Some (r, t)" "export_spans cfg beyond xs t = Some (rs', s')"
    by (auto split: option.splits)
  have m: "tg_traces t = tg_traces s" "sl_errSvc (tg_slots t e) = sl_errSvc (tg_slots s e)"
    "bit (sl_spans (tg_slots s e)) j \<Longrightarrow> bit (sl_spans (tg_slots t e)) j"
    using export_span_mono [OF t(1) ok] by blast+
  have "emit_span tid True errSvc j \<in> set xs \<or> bit (sl_spans (tg_slots t e)) j"
    using Cons.prems(4) m(3) export_emitted [OF _ ok tid Cons.prems(2,3) j] t(1) by auto
  with Cons.IH [OF t(2)] Cons.prems(2,3) m show ?case by simp
qed simp

text \<open>\<open>Export\<close> panics exactly if a span has an empty trace ID.\<close>

lemma Export_panics_iff: "Export cfg beyond xs s = None \<longleftrightarrow> (\<exists>x \<in> set xs. tsp_traceId x = [])"
proof -
  have "export_spans cfg beyond xs s = None \<longleftrightarrow> (\<exists>x \<in> set xs. tsp_traceId x = [])"
  proof (induction xs arbitrary: s)
    case (Cons x xs)
    show ?case
    proof (cases "export_span cfg beyond x s")
      case None
      then show ?thesis by (auto simp: export_span_def read_traceID_def Let_def split: if_splits)
    next
      case (Some rs)
      then have "tsp_traceId x \<noteq> []" by (auto simp: export_span_def read_traceID_def)
      then show ?thesis using Cons Some by (cases rs) simp
    qed
  qed simp
  then show ?thesis by (simp add: Export_def)
qed

section \<open>Properties\<close>


definition exTgCfg :: tgCfg where
  "exTgCfg = \<lparr>tg_bigEndian = False, tg_code = 9, tg_svcCount = 2, tg_wait = 20\<rparr>"


text \<open>The generator's metrics add up. In every reachable state the six reasons account for every span
  received; the expected spans are exactly the bits set in the slots of all error traces ever started, so
  none is counted twice and there are at most as many as services times error traces; and every error
  trace has been counted as full, partial or none, or is still waiting.\<close>

theorem tracegen_accounts:
  assumes "run (tg_step cfg) tg_New ls s" and "tg_cfg_ok cfg"
  shows "sum_list (map (tg_SpansGot s) [Foreign, NonError, Corrupted, Dup, Late, Expected]) = length (tg_received ls) \<and>
    tg_SpansGot s Expected = (\<Sum>e<tg_TracesSent s True. OnesCount64 (sl_spans (tg_slots s e))) \<and>
    int (tg_SpansGot s Expected) \<le> tg_svcCount cfg * int (tg_TracesSent s True) \<and>
    tg_full s + tg_partial s + tg_none s + length (tg_tracesQ s) = tg_TracesSent s True"
proof -
  have I: "tg_inv cfg s" and g: "got_total s = length (tg_received ls)" using tg_reach_inv [OF assms] by blast+
  have "int (OnesCount64 (sl_spans (tg_slots s e))) \<le> tg_svcCount cfg" for e
    using I OnesCount64_le [of "sl_spans (tg_slots s e)" "tg_svcCount cfg"] assms(2)
    by (auto simp: tg_inv_def slots_ok_def tg_cfg_ok_def)
  then have "(\<Sum>e<tg_TracesSent s True. int (OnesCount64 (sl_spans (tg_slots s e)))) \<le> (\<Sum>e<tg_TracesSent s True. tg_svcCount cfg)"
    by (intro sum_mono)
  then have "int (bits_total s) \<le> tg_svcCount cfg * int (tg_TracesSent s True)"
    using I by (simp add: bits_total_def tg_inv_def mult.commute)
  then show ?thesis using I g unfolding tg_inv_def got_total_def swept_def bits_total_def by metis
qed

theorem tracegen_accounts_witness:
  "\<exists>s. run (tg_step exTgCfg) tg_New [GEmit True 1] s \<and> tg_full s + tg_partial s + tg_none s + length (tg_tracesQ s) = 1 \<and>
     tg_TracesSent s True = 1"
proof -
  let ?s = "snd (emit exTgCfg [0, 0] True 1 100 tg_New)"
  have "tg_step exTgCfg tg_New (GEmit True 1) ?s" by (rule g_emit) (simp_all add: exTgCfg_def)
  from run_snoc [OF run_nil [of "tg_step exTgCfg" tg_New] this] have r: "run (tg_step exTgCfg) tg_New [GEmit True 1] ?s" by simp
  moreover have "tg_TracesSent ?s True = 1" by (simp add: emit_def NewIDs_def Let_def tg_New_def)
  ultimately show ?thesis using tracegen_accounts [OF r] by (auto simp: tg_cfg_ok_def exTgCfg_def)
qed

end
