(* ===== verification/Tracegen_Main.thy ===== *)
theory Tracegen_Main
  imports Complex_Main "HOL-Library.Sublist" Tracegen
begin

text \<open>
  The life of the load generator (\<open>main\<close>, \<open>setup\<close>, \<open>startListener\<close>, \<open>startMetrics\<close> and \<open>NewSpanID\<close> of
  \<open>cmd/tracegen/main.go\<close>): the warm-up, the ticker that starts batches of \<open>emit\<close> goroutines, the
  sweeping goroutine, the listener, the metrics endpoint, and the end, where \<open>main\<close> waits for spans in flight,
  sweeps once more, prints the metrics and shuts the tracer providers down.

  \<open>gen_step\<close> interleaves these goroutines. A \<open>select\<close> with several ready cases takes any of them. The clock
  only moves forward, in nanoseconds; \<open>Unix\<close> is its whole seconds. A tick may come at any moment, so the
  properties do not depend on the rate. Floating point is a parameter: \<open>fl\<close> rounds the exact result of an
  operation. So are the OpenTelemetry SDK (\<open>sdkEnv\<close>: which exporters and resources can be made) and the metric
  families that the Prometheus registry gathers at the end. \<open>gm_left\<close> records how many \<open>emit\<close> goroutines were in flight when the generation stopped.
\<close>

section \<open>Span IDs and counted bytes\<close>

text \<open>\<open>NewSpanID\<close> on the sequence of random numbers it draws: it draws again while the ID is all zero;
  \<open>None\<close> says that these draws do not suffice.\<close>

fun NewSpanID :: "bool \<Rightarrow> 64 word list \<Rightarrow> (bytes \<times> 64 word list) option" where
  "NewSpanID big [] = None"
| "NewSpanID big (r # rs) =
     (let sid = native big (be_put 8 (unat r)) in
      if list_all (\<lambda>b. b = 0) sid then NewSpanID big rs else Some (sid, rs))"

datatype rpcStats = OutPayload nat | InPayload nat | OtherStats

record rpcCounter =
  rc_in :: "nat option"
  rc_out :: "nat option"

definition HandleRPC :: "rpcStats \<Rightarrow> rpcCounter \<Rightarrow> rpcCounter" where
  "HandleRPC s c = (case s of
       OutPayload n \<Rightarrow> c\<lparr>rc_out := map_option ((+) n) (rc_out c)\<rparr>
     | InPayload n \<Rightarrow> c\<lparr>rc_in := map_option ((+) n) (rc_in c)\<rparr>
     | OtherStats \<Rightarrow> c)"

section \<open>Set-up\<close>

text \<open>\<open>strings.Split\<close> at commas.\<close>

fun split_commas :: "string \<Rightarrow> string list" where
  "split_commas [] = [[]]"
| "split_commas (c # cs) =
     (if c = CHR '','' then [] # split_commas cs
      else case split_commas cs of [] \<Rightarrow> [[c]] | f # fs \<Rightarrow> (c # f) # fs)"

lemma split_commas_nonempty: "split_commas s \<noteq> []"
  by (induction s) (auto split: list.split)

datatype tgFatal = FatalServices | FatalListen | FatalExporter string | FatalResource string | PanicMake

definition Second :: duration where "Second = 1000000000"

definition Millisecond :: duration where "Millisecond = 1000000"

text \<open>The options of an exporter: its endpoint without TLS, and the parameters of its connection.\<close>

record exporterOpts =
  eo_endpoint :: string
  eo_insecure :: bool
  eo_baseDelay :: duration
  eo_multiplier :: rat
  eo_jitter :: rat
  eo_maxDelay :: duration
  eo_minConnectTimeout :: duration
  eo_keepaliveTime :: duration
  eo_keepaliveTimeout :: duration
  eo_permitWithoutStream :: bool

definition exporter_opts :: "string \<Rightarrow> exporterOpts" where
  "exporter_opts d = \<lparr>eo_endpoint = d, eo_insecure = True, eo_baseDelay = 500 * Millisecond, eo_multiplier = 3 / 2,
     eo_jitter = 1 / 10, eo_maxDelay = 5 * Second, eo_minConnectTimeout = 5 * Second,
     eo_keepaliveTime = 10 * Second, eo_keepaliveTimeout = 5 * Second, eo_permitWithoutStream = True\<rparr>"

record sdkEnv =
  sdk_exporter :: "exporterOpts \<Rightarrow> bool"
  sdk_resource :: "string \<Rightarrow> bool"

text \<open>\<open>setup\<close>: the tracer of service \<open>i\<close> with the destination it exports to; the first failure is fatal.\<close>

fun setup_loop :: "sdkEnv \<Rightarrow> string list \<Rightarrow> nat list \<Rightarrow> tgFatal + (string \<times> string) list" where
  "setup_loop sdk dst [] = Inr []"
| "setup_loop sdk dst (i # ks) =
     (let d = dst ! (i mod length dst); name = ''service-'' @ decimal i in
      if \<not> sdk_exporter sdk (exporter_opts d) then Inl (FatalExporter d)
      else if \<not> sdk_resource sdk name then Inl (FatalResource name)
      else map_sum id (Cons (name, d)) (setup_loop sdk dst ks))"

definition tg_setup :: "sdkEnv \<Rightarrow> string list \<Rightarrow> int \<Rightarrow> tgFatal + (string \<times> string) list" where
  "tg_setup sdk dst n = (if n < 0 then Inl PanicMake else setup_loop sdk dst [0..<nat n])"

definition timerHz :: rat where "timerHz = 1000"

definition batchSize :: "(rat \<Rightarrow> rat) \<Rightarrow> rat \<Rightarrow> int" where
  "batchSize fl rate = \<lceil>fl (rate / timerHz)\<rceil>"

text \<open>A rate of 0 has no positive interval, here as there.\<close>

definition tickInterval :: "(rat \<Rightarrow> rat) \<Rightarrow> rat \<Rightarrow> duration" where
  "tickInterval fl rate =
     (let x = fl (fl (of_int Second / rate) * of_int (batchSize fl rate)) in if 0 \<le> x then \<lfloor>x\<rfloor> else \<lceil>x\<rceil>)"

section \<open>The state of main\<close>

datatype tgPhase = GWarmup | GRunning | GWaiting | GReported | GQuit

record tgFlags =
  fl_tg :: tgCfg
  fl_dst :: string
  fl_rate :: rat
  fl_warmup :: int
  fl_run :: int

record tgMain =
  gm_phase :: tgPhase
  gm_now :: time
  gm_start :: time
  gm_until :: time
  gm_signal :: bool
  gm_done :: bool
  gm_listening :: bool
  gm_metrics :: bool
  gm_sweeper :: bool
  gm_providers :: "(string \<times> string) list"
  gm_shutdown :: "string list"
  gm_printed :: "string list"
  gm_pending :: nat
  gm_left :: nat
  gm_tg :: tgState

definition Unix :: "time \<Rightarrow> int" where
  "Unix t = t div Second"

text \<open>\<open>startListener\<close>; the goroutine that stops the listener on the signal is the step \<open>MListener\<close>.\<close>

definition startListener :: "bool \<Rightarrow> tgMain \<Rightarrow> tgFatal + tgMain" where
  "startListener listen_ok m = (if \<not> listen_ok then Inl FatalListen else Inr (m\<lparr>gm_listening := True\<rparr>))"

text \<open>\<open>startMetrics\<close>: an endpoint that fails to listen is only logged; the goroutine that shuts it down on the signal
  is the step \<open>MMetrics\<close>.\<close>

definition startMetrics :: "bool \<Rightarrow> tgMain \<Rightarrow> tgMain" where
  "startMetrics metrics_ok m = m\<lparr>gm_metrics := metrics_ok\<rparr>"

text \<open>\<open>main\<close> up to its warm-up.\<close>

definition gen_init :: "tgFlags \<Rightarrow> bool \<Rightarrow> bool \<Rightarrow> time \<Rightarrow> tgFatal + tgMain" where
  "gen_init fl metrics_ok listen_ok now =
     (if tg_svcCount (fl_tg fl) > 64 then Inl FatalServices
      else startListener listen_ok (startMetrics metrics_ok \<lparr>gm_phase = GWarmup, gm_now = now, gm_start = now, gm_until = now + fl_warmup fl * Second,
        gm_signal = False, gm_done = False, gm_listening = False, gm_metrics = False, gm_sweeper = False, gm_providers = [],
        gm_shutdown = [], gm_printed = [], gm_pending = 0, gm_left = 0, gm_tg = tg_New\<rparr>))"

text \<open>The end of the warm-up: the set-up, the sweeping goroutine and the ticker, whose interval must be positive.\<close>

definition gen_start :: "(rat \<Rightarrow> rat) \<Rightarrow> sdkEnv \<Rightarrow> tgFlags \<Rightarrow> tgMain \<Rightarrow> tgMain" where
  "gen_start rnd sdk fl m =
     (case tg_setup sdk (split_commas (fl_dst fl)) (tg_svcCount (fl_tg fl)) of
        Inl e \<Rightarrow> m\<lparr>gm_phase := GQuit\<rparr>
      | Inr tracers \<Rightarrow>
          if tickInterval rnd (fl_rate fl) \<le> 0 then m\<lparr>gm_phase := GQuit\<rparr>
          else m\<lparr>gm_phase := GRunning, gm_sweeper := True, gm_providers := tracers\<rparr>)"

text \<open>The end of the generation, and the last sweep.\<close>

definition gen_stop :: "tgFlags \<Rightarrow> tgMain \<Rightarrow> tgMain" where
  "gen_stop fl m = m\<lparr>gm_phase := GWaiting, gm_until := gm_now m + tg_wait (fl_tg fl) * Second, gm_left := gm_pending m\<rparr>"

text \<open>Of the families gathered, in whatever order, those of the generator are printed.\<close>

definition printed_families :: "string list \<Rightarrow> string list" where
  "printed_families mfs = filter (prefix ''tracegen_'') mfs"

text \<open>The deferred function of \<open>main\<close>: every provider is shut down, whatever the others answer.\<close>

definition shutdown_providers :: "tgMain \<Rightarrow> tgMain" where
  "shutdown_providers m = m\<lparr>gm_shutdown := gm_shutdown m @ map fst (gm_providers m)\<rparr>"

definition gen_report :: "tgFlags \<Rightarrow> string list \<Rightarrow> tgMain \<Rightarrow> tgMain" where
  "gen_report fl mfs m = shutdown_providers
     (m\<lparr>gm_phase := GReported, gm_tg := sweep (fl_tg fl) (Unix (gm_now m)) (gm_tg m), gm_printed := printed_families mfs\<rparr>)"

definition gen_emit :: "tgFlags \<Rightarrow> bytes \<Rightarrow> bool \<Rightarrow> nat \<Rightarrow> tgMain \<Rightarrow> tgMain" where
  "gen_emit fl pad isErr errSvc m = m\<lparr>gm_pending := gm_pending m - 1,
     gm_tg := snd (emit (fl_tg fl) pad isErr errSvc (Unix (gm_now m)) (gm_tg m))\<rparr>"

datatype genLabel = MTime | MSignal | MTimeout | MWarm | MTick | MEmit | MExport "tgSpan list" | MListener
  | MMetrics
  | MSweep | MSweeper | MStop | MReport | MQuit

inductive gen_step :: "(rat \<Rightarrow> rat) \<Rightarrow> sdkEnv \<Rightarrow> tgFlags \<Rightarrow> tgMain \<Rightarrow> genLabel \<Rightarrow> tgMain \<Rightarrow> bool"
  for rnd :: "rat \<Rightarrow> rat" and sdk :: sdkEnv and fl :: tgFlags where
  mg_time: "gm_now m \<le> t \<Longrightarrow> gen_step rnd sdk fl m MTime (m\<lparr>gm_now := t\<rparr>)"
| mg_signal: "gm_phase m \<in> {GWarmup, GRunning} \<Longrightarrow>
    gen_step rnd sdk fl m MSignal (m\<lparr>gm_signal := True, gm_done := True\<rparr>)"
| mg_timeout: "0 < fl_run fl \<Longrightarrow> gm_start m + (fl_warmup fl + fl_run fl) * Second \<le> gm_now m \<Longrightarrow>
    gen_step rnd sdk fl m MTimeout (m\<lparr>gm_done := True\<rparr>)"
| mg_warm_quit: "gm_phase m = GWarmup \<Longrightarrow> gm_done m \<Longrightarrow> gen_step rnd sdk fl m MQuit (m\<lparr>gm_phase := GQuit\<rparr>)"
| mg_warm: "gm_phase m = GWarmup \<Longrightarrow> gm_until m \<le> gm_now m \<Longrightarrow> gen_step rnd sdk fl m MWarm (gen_start rnd sdk fl m)"
| mg_tick: "gm_phase m = GRunning \<Longrightarrow>
    gen_step rnd sdk fl m MTick (m\<lparr>gm_pending := gm_pending m + nat (batchSize rnd (fl_rate fl))\<rparr>)"
| mg_emit: "gm_phase m \<noteq> GQuit \<Longrightarrow> 0 < gm_pending m \<Longrightarrow> int errSvc < tg_svcCount (fl_tg fl) \<Longrightarrow> length pad = 2 \<Longrightarrow>
    gen_step rnd sdk fl m MEmit (gen_emit fl pad isErr errSvc m)"
| mg_emit_panic: "gm_phase m \<noteq> GQuit \<Longrightarrow> 0 < gm_pending m \<Longrightarrow> tg_svcCount (fl_tg fl) = 0 \<Longrightarrow>
    gen_step rnd sdk fl m MQuit (m\<lparr>gm_phase := GQuit\<rparr>)"
| mg_export: "gm_phase m \<noteq> GQuit \<Longrightarrow> gm_listening m \<Longrightarrow> Export (fl_tg fl) beyond xs (gm_tg m) = Some s \<Longrightarrow>
    gen_step rnd sdk fl m (MExport xs) (m\<lparr>gm_tg := s\<rparr>)"
| mg_listener: "gm_signal m \<Longrightarrow> gen_step rnd sdk fl m MListener (m\<lparr>gm_listening := False\<rparr>)"
| mg_metrics: "gm_signal m \<Longrightarrow> gen_step rnd sdk fl m MMetrics (m\<lparr>gm_metrics := False\<rparr>)"
| mg_sweep: "gm_phase m \<noteq> GQuit \<Longrightarrow> gm_sweeper m \<Longrightarrow>
    gen_step rnd sdk fl m MSweep (m\<lparr>gm_tg := sweep (fl_tg fl) (Unix (gm_now m)) (gm_tg m)\<rparr>)"
| mg_sweeper: "gm_sweeper m \<Longrightarrow> gm_done m \<Longrightarrow> gen_step rnd sdk fl m MSweeper (m\<lparr>gm_sweeper := False\<rparr>)"
| mg_stop: "gm_phase m = GRunning \<Longrightarrow> gm_done m \<Longrightarrow> gen_step rnd sdk fl m MStop (gen_stop fl m)"
| mg_wait_quit: "gm_phase m = GWaiting \<Longrightarrow> gen_step rnd sdk fl m MQuit (shutdown_providers (m\<lparr>gm_phase := GQuit\<rparr>))"
| mg_report: "gm_phase m = GWaiting \<Longrightarrow> gm_until m \<le> gm_now m \<Longrightarrow> gen_step rnd sdk fl m MReport (gen_report fl mfs m)"

section \<open>Span IDs are valid\<close>

lemma be_put_zero: "v < 256 ^ n \<Longrightarrow> list_all (\<lambda>b. b = 0) (be_put n v) \<longleftrightarrow> v = 0"
proof -
  assume v: "v < 256 ^ n"
  have "list_all (\<lambda>b. b = 0) bs \<Longrightarrow> be_get bs = 0" for bs
    by (induction bs rule: rev_induct) (simp_all add: be_get_append1, simp add: be_get_def)
  then have "v = 0" if "list_all (\<lambda>b. b = 0) (be_put n v)" using be_get_put [of n v] v that by simp
  moreover have "list_all (\<lambda>b. b = 0) (be_put n 0)" by (induction n) simp_all
  ultimately show ?thesis by auto
qed

lemma NewSpanID_draws:
  "NewSpanID big rs = (case dropWhile (\<lambda>r. r = 0) rs of [] \<Rightarrow> None | r # rs' \<Rightarrow> Some (native big (be_put 8 (unat r)), rs'))"
proof (induction rs)
  case (Cons r rs)
  have "unat r < 256 ^ 8" using unsigned_less [of r] by simp
  then have "list_all (\<lambda>b. b = 0) (native big (be_put 8 (unat r))) \<longleftrightarrow> r = 0"
    using be_put_zero [of "unat r" 8] by (auto simp: native_def unsigned_eq_0_iff)
  then show ?case using Cons by (simp add: Let_def)
qed simp

section \<open>The last sweep\<close>

text \<open>\<open>sweep\<close> removes the slots from the back as long as they are old.\<close>

lemma sweep_loop_queue:
  "fst (sweep_loop cfg now q s) = dropWhile (\<lambda>e. tg_wait cfg \<le> now - sl_age (tg_slots s e)) q"
proof (induction q arbitrary: s)
  case (Cons e q)
  have "tg_slots (sweep_count cfg x u) = tg_slots u" for x u by (simp add: sweep_count_def)
  then show ?case using Cons by (simp add: not_less)
qed simp

lemma dropWhile_sorted:
  "sorted_wrt (\<lambda>a b. P b \<longrightarrow> P a) xs \<Longrightarrow> dropWhile P xs = filter (\<lambda>x. \<not> P x) xs"
  by (induction xs) (auto simp: filter_id_conv)

definition age_of :: "tgState \<Rightarrow> nat \<Rightarrow> int" where
  "age_of s e = sl_age (tg_slots s e)"

text \<open>The queue is ordered by age, its slots exist, and the clock is past their ages.\<close>

definition queue_ok :: "int \<Rightarrow> tgState \<Rightarrow> bool" where
  "queue_ok now s \<longleftrightarrow> sorted_wrt (\<lambda>a b. age_of s b \<le> age_of s a) (tg_tracesQ s) \<and>
     list_all (\<lambda>e. e < tg_next s \<and> age_of s e \<le> now) (tg_tracesQ s)"

definition younger :: "int \<Rightarrow> tgState \<Rightarrow> nat" where
  "younger t s = length (filter (\<lambda>e. t < age_of s e) (tg_tracesQ s))"

lemma sweep_queue:
  assumes "queue_ok now s"
  shows "tg_tracesQ (sweep cfg t s) = filter (\<lambda>e. t - age_of s e < tg_wait cfg) (tg_tracesQ s)"
    and "age_of (sweep cfg t s) = age_of s" and "tg_next (sweep cfg t s) = tg_next s"
proof -
  obtain q u where u: "sweep_loop cfg t (rev (tg_tracesQ s)) s = (q, u)" by (metis prod.exhaust)
  have s': "sweep cfg t s = u\<lparr>tg_tracesQ := rev q\<rparr>" by (simp add: sweep_def u)
  have "sorted_wrt (\<lambda>a b. age_of s a \<le> age_of s b) (rev (tg_tracesQ s))"
    using assms by (simp add: queue_ok_def sorted_wrt_rev)
  then have "sorted_wrt (\<lambda>a b. tg_wait cfg \<le> t - age_of s b \<longrightarrow> tg_wait cfg \<le> t - age_of s a) (rev (tg_tracesQ s))"
    by (rule sorted_wrt_mono_rel [rotated]) auto
  from dropWhile_sorted [OF this] have "q = filter (\<lambda>e. \<not> tg_wait cfg \<le> t - age_of s e) (rev (tg_tracesQ s))"
    using sweep_loop_queue [of cfg t "rev (tg_tracesQ s)" s] u by (simp add: age_of_def)
  then show "tg_tracesQ (sweep cfg t s) = filter (\<lambda>e. t - age_of s e < tg_wait cfg) (tg_tracesQ s)"
    by (simp add: s' rev_filter not_le)
  show "age_of (sweep cfg t s) = age_of s" "tg_next (sweep cfg t s) = tg_next s"
    using sweep_loop_ok [OF u] by (auto simp: s' age_of_def)
qed

lemma queue_sweep:
  assumes "queue_ok now s"
  shows "queue_ok now (sweep cfg t s)" and "younger y (sweep cfg t s) \<le> younger y s"
    and "length (tg_tracesQ (sweep cfg t s)) \<le> length (tg_tracesQ s)"
proof -
  note q = sweep_queue [OF assms, of cfg t]
  show "queue_ok now (sweep cfg t s)"
    using assms unfolding queue_ok_def q by (auto simp: list_all_iff intro: sorted_wrt_filter)
  have "length (filter P (filter Q xs)) \<le> length (filter P xs)" for P Q and xs :: "nat list"
    by (induction xs) auto
  then show "younger y (sweep cfg t s) \<le> younger y s" unfolding younger_def q by blast
  show "length (tg_tracesQ (sweep cfg t s)) \<le> length (tg_tracesQ s)" by (simp add: q)
qed

lemma queue_emit:
  assumes "queue_ok now s" and s': "s' = snd (emit cfg pad isErr errSvc now s)"
  shows "queue_ok now s'" and "younger y s' \<le> Suc (younger y s)"
    and "length (tg_tracesQ s') \<le> Suc (length (tg_tracesQ s))"
proof -
  have q: "tg_tracesQ s' = (if isErr then [tg_next s] else []) @ tg_tracesQ s"
    and a: "age_of s' = (age_of s)(tg_next s := (if isErr then now else age_of s (tg_next s)))"
    and n: "tg_next s' = (if isErr then Suc (tg_next s) else tg_next s)"
    by (auto simp: s' emit_snd Let_def age_of_def)
  have old: "age_of s' e = age_of s e" "age_of s e \<le> now" "e < tg_next s" if "e \<in> set (tg_tracesQ s)" for e
    using assms(1) that by (auto simp: a queue_ok_def list_all_iff)
  have "sorted_wrt (\<lambda>a b. age_of s' b \<le> age_of s' a) (tg_tracesQ s)"
    by (rule sorted_wrt_mono_rel [of _ "\<lambda>a b. age_of s b \<le> age_of s a"]) (use assms(1) old in \<open>auto simp: queue_ok_def\<close>)
  moreover have "isErr \<Longrightarrow> age_of s' (tg_next s) = now" using a by simp
  ultimately show "queue_ok now s'" using old by (cases isErr) (simp_all add: queue_ok_def q n list_all_iff less_SucI)
  have "filter (\<lambda>e. y < age_of s' e) (tg_tracesQ s) = filter (\<lambda>e. y < age_of s e) (tg_tracesQ s)"
    by (rule filter_cong) (use old in auto)
  then show "younger y s' \<le> Suc (younger y s)" by (simp add: younger_def q)
  show "length (tg_tracesQ s') \<le> Suc (length (tg_tracesQ s))" by (simp add: q)
qed

lemma queue_export:
  assumes "Export cfg beyond xs s = Some s'" and "tg_cfg_ok cfg" and "slots_ok cfg s"
  shows "queue_ok now s' \<longleftrightarrow> queue_ok now s" and "younger y s' = younger y s" and "tg_tracesQ s' = tg_tracesQ s"
proof -
  have age: "sl_age (tg_slots u e) = sl_age (tg_slots t e)" if "export_span cfg beyond x t = Some (r, u)" for x t r u e
    by (rule export_span_cases [OF that assms(2)]) auto
  have ages: "export_spans cfg beyond xs t = Some (rs, u) \<Longrightarrow> age_of u e = age_of t e" for xs t rs u e
    by (induction xs arbitrary: t rs) (auto simp: age_of_def age split: option.splits)
  obtain rs t where t: "export_spans cfg beyond xs s = Some (rs, t)"
    and s': "s' = t\<lparr>tg_SpansGot := (\<lambda>r. tg_SpansGot t r + count_list rs r)\<rparr>"
    using assms(1) by (auto simp: Export_def)
  have "t = s\<lparr>tg_slots := tg_slots t\<rparr>" using export_spans_ok [OF t assms(2,3)] by blast
  then have same: "tg_tracesQ s' = tg_tracesQ s" "tg_next s' = tg_next s" by (simp add: s', metis tgState.select_convs tgState.surjective tgState.update_convs(4))+
  moreover have "age_of s' e = age_of s e" for e using ages [OF t] by (simp add: s' age_of_def)
  ultimately show "queue_ok now s' \<longleftrightarrow> queue_ok now s" "younger y s' = younger y s" "tg_tracesQ s' = tg_tracesQ s"
    by (simp_all add: queue_ok_def younger_def)
qed

section \<open>The invariant of main\<close>

text \<open>The part of the generator moves by \<open>tg_step\<close>, and after the stop only goroutines in flight start traces.\<close>

definition stop_second :: "tgFlags \<Rightarrow> tgMain \<Rightarrow> int" where
  "stop_second fl m = Unix (gm_until m - tg_wait (fl_tg fl) * Second)"

definition gen_inv :: "tgFlags \<Rightarrow> tgMain \<Rightarrow> bool" where
  "gen_inv fl m \<longleftrightarrow> tg_inv (fl_tg fl) (gm_tg m) \<and> queue_ok (Unix (gm_now m)) (gm_tg m) \<and>
     (gm_phase m = GWaiting \<longrightarrow> younger (stop_second fl m) (gm_tg m) + gm_pending m \<le> gm_left m) \<and>
     (gm_phase m = GReported \<longrightarrow> length (tg_tracesQ (gm_tg m)) + gm_pending m \<le> gm_left m)"

lemma Unix_mono: "a \<le> b \<Longrightarrow> Unix a \<le> Unix b"
  by (simp add: Unix_def Second_def zdiv_mono1)

lemma Unix_add: "Unix (t + n * Second) = Unix t + n"
  by (simp add: Unix_def Second_def)

lemma queue_later: "queue_ok a s \<Longrightarrow> a \<le> b \<Longrightarrow> queue_ok b s"
  by (fastforce simp: queue_ok_def list_all_iff)

lemma queue_not_younger: "queue_ok now s \<Longrightarrow> younger now s = 0"
  by (auto simp: queue_ok_def younger_def list_all_iff filter_empty_conv not_less)

lemma length_filter_mono: "(\<And>x. P x \<Longrightarrow> Q x) \<Longrightarrow> length (filter P xs) \<le> length (filter Q xs)"
  by (induction xs) (auto simp: le_SucI)

lemma sweep_tg_inv: "tg_inv cfg s \<Longrightarrow> tg_cfg_ok cfg \<Longrightarrow> tg_inv cfg (sweep cfg now s)"
  using tg_step_inv [OF g_sweep] by blast

lemma report_left:
  assumes "queue_ok (Unix now) s" and "stop + tg_wait cfg * Second \<le> now"
  shows "length (tg_tracesQ (sweep cfg (Unix now) s)) \<le> younger (Unix stop) s"
proof -
  have "Unix stop + tg_wait cfg \<le> Unix now" using Unix_mono [OF assms(2)] by (simp add: Unix_add)
  then have "Unix now - age_of s e < tg_wait cfg \<Longrightarrow> Unix stop < age_of s e" for e by simp
  then show ?thesis unfolding sweep_queue(1) [OF assms(1)] younger_def by (rule length_filter_mono)
qed

lemma gen_step_inv:
  assumes "gen_step rnd sdk fl m l m'" and I: "gen_inv fl m" and ok: "tg_cfg_ok (fl_tg fl)"
  shows "gen_inv fl m'"
  using assms(1)
proof cases
  case (mg_time t)
  then show ?thesis using I queue_later Unix_mono by (auto simp: gen_inv_def stop_second_def)
next
  case mg_warm
  then show ?thesis using I by (auto simp: gen_inv_def gen_start_def split: sum.split)
next
  case (mg_emit errSvc pad isErr)
  define s' where "s' = snd (emit (fl_tg fl) pad isErr errSvc (Unix (gm_now m)) (gm_tg m))"
  have "queue_ok (Unix (gm_now m)) (gm_tg m)" using I by (simp add: gen_inv_def)
  note q = queue_emit [OF this s'_def]
  have "tg_inv (fl_tg fl) s'" using emit_inv I by (auto simp: gen_inv_def s'_def)
  moreover have "m' = m\<lparr>gm_pending := gm_pending m - 1, gm_tg := s'\<rparr>" by (simp add: mg_emit(2) gen_emit_def s'_def)
  ultimately show ?thesis
    using I mg_emit(4) q(1,3) q(2) [of "stop_second fl m"] by (auto simp: gen_inv_def stop_second_def)
next
  case (mg_export beyond xs s)
  have "tg_inv (fl_tg fl) s" using tg_step_inv [OF g_export [OF mg_export(5)] _ ok] I by (auto simp: gen_inv_def)
  moreover have "slots_ok (fl_tg fl) (gm_tg m)" using I by (simp add: gen_inv_def tg_inv_def)
  note q = queue_export [OF mg_export(5) ok this]
  ultimately show ?thesis using I q unfolding mg_export(2) by (auto simp: gen_inv_def stop_second_def)
next
  case mg_sweep
  have "queue_ok (Unix (gm_now m)) (gm_tg m)" using I by (simp add: gen_inv_def)
  note q = queue_sweep [OF this, where cfg = "fl_tg fl" and t = "Unix (gm_now m)"]
  from I q(1,3) q(2) [of "stop_second fl m"] sweep_tg_inv [OF _ ok] show ?thesis unfolding mg_sweep(2)
    by (auto simp: gen_inv_def stop_second_def)
next
  case mg_stop
  then show ?thesis
    using I queue_not_younger by (auto simp: gen_inv_def gen_stop_def stop_second_def)
next
  case mg_report
  have "length (tg_tracesQ (sweep (fl_tg fl) (Unix (gm_now m)) (gm_tg m))) \<le> younger (stop_second fl m) (gm_tg m)"
    unfolding stop_second_def by (rule report_left) (use I mg_report in \<open>auto simp: gen_inv_def\<close>)
  then show ?thesis
    using I mg_report sweep_tg_inv ok queue_sweep(1) by (auto simp: gen_inv_def gen_report_def shutdown_providers_def)
qed (use I in \<open>auto simp: gen_inv_def stop_second_def shutdown_providers_def\<close>)

lemma gen_init_inv: "gen_init fl metrics_ok listen_ok t0 = Inr m \<Longrightarrow> gen_inv fl m \<and> tg_svcCount (fl_tg fl) \<le> 64"
  by (auto simp: gen_init_def startMetrics_def startListener_def gen_inv_def tg_New_def tg_inv_def slots_ok_def bits_total_def swept_def queue_ok_def
      split: if_splits)

lemma gen_reach_inv:
  assumes "gen_init fl metrics_ok listen_ok t0 = Inr m0" and "run (gen_step rnd sdk fl) m0 ls m" and "0 < tg_svcCount (fl_tg fl)"
  shows "gen_inv fl m"
proof -
  have m0: "gen_inv fl m0" "tg_cfg_ok (fl_tg fl)" using gen_init_inv [OF assms(1)] assms(3) by (auto simp: tg_cfg_ok_def)
  show ?thesis by (rule run_invariant [OF assms(2), of "gen_inv fl"]) (use m0 gen_step_inv in blast)+
qed

section \<open>Set-up and shutdown\<close>

lemma setup_loop_services:
  "setup_loop sdk dst ks = Inr xs \<Longrightarrow> xs = map (\<lambda>i. (''service-'' @ decimal i, dst ! (i mod length dst))) ks"
proof (induction ks arbitrary: xs)
  case (Cons i ks)
  then show ?case by (cases "setup_loop sdk dst ks") (auto simp: Let_def split: if_splits)
qed simp

definition services :: "tgFlags \<Rightarrow> (string \<times> string) list" where
  "services fl = (let dst = split_commas (fl_dst fl) in
     map (\<lambda>i. (''service-'' @ decimal i, dst ! (i mod length dst))) [0..<nat (tg_svcCount (fl_tg fl))])"

definition ending_ok :: "tgFlags \<Rightarrow> tgMain \<Rightarrow> bool" where
  "ending_ok fl m \<longleftrightarrow> (gm_phase m \<in> {GWarmup, GRunning, GWaiting} \<longrightarrow> gm_shutdown m = []) \<and>
     (gm_phase m \<in> {GRunning, GWaiting, GReported} \<longrightarrow> gm_providers m = services fl) \<and>
     (gm_phase m = GReported \<longrightarrow> gm_shutdown m = map fst (services fl)) \<and> list_all (prefix ''tracegen_'') (gm_printed m)"

lemma ending_step: "gen_step rnd sdk fl m l m' \<Longrightarrow> ending_ok fl m \<Longrightarrow> ending_ok fl m'"
proof (induction rule: gen_step.induct)
  case (mg_warm m)
  then show ?case
    using setup_loop_services by (auto simp: ending_ok_def gen_start_def tg_setup_def services_def Let_def split: sum.split)
next
  case (mg_report m mfs)
  then show ?case
    by (auto simp: ending_ok_def gen_report_def shutdown_providers_def printed_families_def list_all_iff)
qed (auto simp: ending_ok_def gen_emit_def gen_stop_def shutdown_providers_def)

text \<open>When \<open>main\<close> returns after its report, it has printed only metrics of its own and has shut down the provider of
  every service, each of which exported to one of the destinations in turn.\<close>

lemma report_ending:
  assumes "gen_init fl metrics_ok listen_ok t0 = Inr m0" and "run (gen_step rnd sdk fl) m0 ls m" and "gm_phase m = GReported"
  shows "gm_shutdown m = map fst (gm_providers m) \<and> gm_providers m = services fl \<and>
    list_all (prefix ''tracegen_'') (gm_printed m)"
proof -
  have "ending_ok fl m0"
    using assms(1) by (auto simp: gen_init_def startListener_def startMetrics_def ending_ok_def split: if_splits)
  then have "ending_ok fl m" using run_invariant [OF assms(2), of "ending_ok fl"] ending_step by blast
  then show ?thesis using assms(3) by (simp add: ending_ok_def)
qed

section \<open>Properties\<close>

text \<open>C30: The final report of the generator is complete. When \<open>main\<close> has waited for \<open>-wait\<close> seconds after the
  generation stopped and swept for the last time, every error trace is counted as full, partial or none,
  except for at most as many as there were \<open>emit\<close> goroutines in flight when the generation stopped: if there
  were none, every error trace ever sent has been counted.\<close>

theorem tracegen_final_count:
  assumes "gen_init fl metrics_ok listen_ok t0 = Inr m0" and "run (gen_step rnd sdk fl) m0 ls m"
    and "0 < tg_svcCount (fl_tg fl)" and "gm_phase m = GReported"
  shows "tg_full (gm_tg m) + tg_partial (gm_tg m) + tg_none (gm_tg m) \<le> tg_TracesSent (gm_tg m) True \<and>
    tg_TracesSent (gm_tg m) True \<le> tg_full (gm_tg m) + tg_partial (gm_tg m) + tg_none (gm_tg m) + gm_left m"
  using gen_reach_inv [OF assms(1-3)] assms(4) by (auto simp: gen_inv_def tg_inv_def swept_def)

definition exFlags :: tgFlags where
  "exFlags = \<lparr>fl_tg = exTgCfg, fl_dst = ''a,b'', fl_rate = 10, fl_warmup = 0, fl_run = 1\<rparr>"

definition exMain :: tgMain where
  "exMain = \<lparr>gm_phase = GWarmup, gm_now = 0, gm_start = 0, gm_until = 0, gm_signal = False, gm_done = False,
     gm_listening = True, gm_metrics = True, gm_sweeper = False, gm_providers = [], gm_shutdown = [], gm_printed = [], gm_pending = 0, gm_left = 0, gm_tg = tg_New\<rparr>"

definition exSdk :: sdkEnv where
  "exSdk = \<lparr>sdk_exporter = (\<lambda>_. True), sdk_resource = (\<lambda>_. True)\<rparr>"

lemma exMain: "gen_init exFlags True True 0 = Inr exMain"
  by (simp add: gen_init_def startMetrics_def startListener_def exFlags_def exMain_def exTgCfg_def)

lemma exBatch: "batchSize id 10 = 1"
proof -
  have "\<lceil>1 / 100 :: rat\<rceil> = 1" by (simp add: ceiling_eq_iff)
  then show ?thesis by (simp add: batchSize_def timerHz_def)
qed

definition exProviders :: "(string \<times> string) list" where
  "exProviders = map (\<lambda>i. (''service-'' @ decimal i, [''a'', ''b''] ! (i mod 2))) [0..<nat (tg_svcCount exTgCfg)]"

lemma exRunning:
  "gen_start id exSdk exFlags exMain = exMain\<lparr>gm_phase := GRunning, gm_sweeper := True, gm_providers := exProviders\<rparr>"
proof -
  have "setup_loop exSdk dst is = Inr (map (\<lambda>i. (''service-'' @ decimal i, dst ! (i mod length dst))) is)" for dst "is"
    by (induction "is") (simp_all add: Let_def exSdk_def)
  moreover have "tickInterval id 10 = 100000000"
    by (simp add: tickInterval_def exBatch Second_def)
  ultimately show ?thesis by (simp add: gen_start_def tg_setup_def exProviders_def exFlags_def exTgCfg_def)
qed

theorem tracegen_final_count_witness:
  "\<exists>ls m. run (gen_step id exSdk exFlags) exMain ls m \<and> gm_phase m = GReported \<and> tg_TracesSent (gm_tg m) True = 1 \<and>
     tg_full (gm_tg m) + tg_partial (gm_tg m) + tg_none (gm_tg m) = 1"
proof -
  let ?R = "run (gen_step id exSdk exFlags) exMain"
  define m1 where "m1 = exMain\<lparr>gm_phase := GRunning, gm_sweeper := True, gm_providers := exProviders\<rparr>"
  define m2 where "m2 = m1\<lparr>gm_pending := 1\<rparr>"
  define m3 where "m3 = gen_emit exFlags [0, 0] True 1 m2"
  define m4 where "m4 = m3\<lparr>gm_signal := True, gm_done := True\<rparr>"
  define m5 where "m5 = gen_stop exFlags m4"
  define m6 where "m6 = m5\<lparr>gm_now := 20 * Second\<rparr>"
  define m7 where "m7 = gen_report exFlags [''tracegen_bytes_total''] m6"
  have b: "batchSize id (fl_rate exFlags) = 1" by (simp add: exFlags_def exBatch)
  have m3: "gm_phase m3 = GRunning" "gm_now m3 = 0" "gm_pending m3 = 0" "gm_until m3 = 0" "tg_TracesSent (gm_tg m3) True = 1"
    by (simp_all add: m3_def m2_def m1_def exMain_def gen_emit_def emit_snd Let_def tg_New_def)
  have "?R ([] @ [MWarm]) m1"
    by (rule run_snoc [OF run_nil]) (use mg_warm [of exMain id exSdk exFlags] exRunning in \<open>simp add: m1_def exMain_def\<close>)
  then have "?R (([] @ [MWarm]) @ [MTick]) m2"
    by (rule run_snoc) (use mg_tick [of m1 id exSdk exFlags] b in \<open>simp add: m2_def m1_def exMain_def\<close>)
  then have "?R ((([] @ [MWarm]) @ [MTick]) @ [MEmit]) m3"
    by (rule run_snoc) (unfold m3_def, rule mg_emit, simp_all add: m2_def m1_def exMain_def exFlags_def exTgCfg_def)
  then have "?R (((([] @ [MWarm]) @ [MTick]) @ [MEmit]) @ [MSignal]) m4"
    by (rule run_snoc) (unfold m4_def, rule mg_signal, simp add: m3)
  then have "?R ((((([] @ [MWarm]) @ [MTick]) @ [MEmit]) @ [MSignal]) @ [MStop]) m5"
    by (rule run_snoc) (unfold m5_def, rule mg_stop, simp_all add: m4_def m3)
  then have "?R (((((([] @ [MWarm]) @ [MTick]) @ [MEmit]) @ [MSignal]) @ [MStop]) @ [MTime]) m6"
    by (rule run_snoc) (unfold m6_def, rule mg_time, simp add: m5_def gen_stop_def m4_def m3 Second_def)
  then have R: "?R ((((((([] @ [MWarm]) @ [MTick]) @ [MEmit]) @ [MSignal]) @ [MStop]) @ [MTime]) @ [MReport]) m7"
    by (rule run_snoc) (unfold m7_def, rule mg_report,
        simp_all add: m6_def m5_def gen_stop_def m4_def m3 exFlags_def exTgCfg_def)
  obtain q u where u: "sweep_loop exTgCfg (Unix (gm_now m6)) (rev (tg_tracesQ (gm_tg m6))) (gm_tg m6) = (q, u)"
    by (metis prod.exhaust)
  have "tg_TracesSent (gm_tg m7) True = tg_TracesSent (gm_tg m6) True"
    using sweep_loop_ok [OF u] u by (simp add: m7_def gen_report_def shutdown_providers_def sweep_def exFlags_def)
  then have "gm_phase m7 = GReported" "gm_left m7 = 0" "tg_TracesSent (gm_tg m7) True = 1"
    by (simp_all add: m7_def gen_report_def shutdown_providers_def m6_def m5_def gen_stop_def m4_def m3)
  with tracegen_final_count [OF exMain R] R show ?thesis
    by (intro exI [of _ m7] exI conjI [OF R]) (simp_all add: exFlags_def exTgCfg_def)
qed

text \<open>After an interrupt the generator waits in vain. The listener is stopped by the same signal that ends
  the generation; once it has stopped, no further span is ever counted, although \<open>main\<close> goes on to wait
  for spans in flight before it reports.\<close>

theorem interrupted_listener_deaf:
  assumes "run (gen_step rnd sdk fl) m ls m'" and "\<not> gm_listening m"
  shows "tg_SpansGot (gm_tg m') = tg_SpansGot (gm_tg m)"
proof -
  have sw: "tg_SpansGot (sweep cfg now s) = tg_SpansGot s" for cfg now s
  proof -
    obtain q u where u: "sweep_loop cfg now (rev (tg_tracesQ s)) s = (q, u)" by (metis prod.exhaust)
    then show ?thesis using sweep_loop_ok [OF u] by (simp add: sweep_def)
  qed
  have "\<not> gm_listening m' \<and> tg_SpansGot (gm_tg m') = tg_SpansGot (gm_tg m)"
  proof (rule run_invariant [OF assms(1)])
    fix s l t assume "gen_step rnd sdk fl s l t" and "\<not> gm_listening s \<and> tg_SpansGot (gm_tg s) = tg_SpansGot (gm_tg m)"
    then show "\<not> gm_listening t \<and> tg_SpansGot (gm_tg t) = tg_SpansGot (gm_tg m)"
      by cases (auto simp: gen_start_def gen_emit_def gen_stop_def gen_report_def shutdown_providers_def sw emit_snd Let_def split: sum.split)
  qed (use assms(2) in simp)
  then show ?thesis by simp
qed

theorem interrupted_listener_deaf_witness:
  "\<exists>m m'. run (gen_step id exSdk exFlags) exMain [MSignal, MListener] m \<and>
     run (gen_step id exSdk exFlags) m [MTime] m' \<and> tg_SpansGot (gm_tg m') = tg_SpansGot (gm_tg m)"
proof -
  let ?st = "gen_step id exSdk exFlags"
  define m1 where "m1 = exMain\<lparr>gm_signal := True, gm_done := True\<rparr>"
  define m2 where "m2 = m1\<lparr>gm_listening := False\<rparr>"
  have "?st exMain MSignal m1" unfolding m1_def by (rule mg_signal) (simp add: exMain_def)
  from run_snoc [OF run_nil [of ?st exMain] this] have "run ?st exMain [MSignal] m1" unfolding append_Nil .
  moreover have "?st m1 MListener m2" unfolding m2_def by (rule mg_listener) (simp add: m1_def)
  ultimately have a: "run ?st exMain ([MSignal] @ [MListener]) m2" by (rule run_snoc)
  have "?st m2 MTime (m2\<lparr>gm_now := 5\<rparr>)" by (rule mg_time) (simp add: m2_def m1_def exMain_def)
  from run_snoc [OF run_nil [of ?st m2] this] have b: "run ?st m2 [MTime] (m2\<lparr>gm_now := 5\<rparr>)" unfolding append_Nil .
  from a b interrupted_listener_deaf [OF b] show ?thesis
    unfolding append_Cons append_Nil by (intro exI [of _ m2] exI [of _ "m2\<lparr>gm_now := 5\<rparr>"] conjI) (simp_all add: m2_def)
qed

end
