(* ===== verification/Spec2Isabelle.thy ===== *)
theory Spec2Isabelle
  imports Buffer_Limits Processor_Shutdown Policy_Types Sampling_System Coord_Start Tracegen_Main
begin

text \<open>
  Verification of retroactive sampling: an OpenTelemetry collector processor that keeps the spans of
  undecided traces in a file until some collector finds the trace interesting, and the coordinator that
  spreads such decisions among the collectors.

  \<^bold>\<open>The program.\<close> A collector's \<open>processTraces\<close> (\<open>processor/retroactivesampling/processor.go\<close>) splits a batch by
  trace (\<open>split.go\<close>) and asks the policy chain (\<open>internal/evaluator\<close>) about each trace. A sampled trace is passed on,
  its ID is recorded in the interest set of the span buffer and, unless the decision is local, the
  coordinator is notified through the client (\<open>internal/coordinator/client.go\<close>). Every other trace is
  marshalled and written to the buffer (\<open>internal/buffer/buffer.go\<close>), a ring of pages in a file with a
  writing and a sweeping goroutine. The coordinator (\<open>coordinator/\<close>) removes duplicates with one of
  three \<open>PubSub\<close> implementations and broadcasts a decision to the streams of all collectors, whose clients
  record it in their interest sets; the sweeper then hands the buffered spans to \<open>onMatch\<close>, which passes them
  on. \<open>cmd/tracegen\<close> generates traces and checks what comes back.

  \<^bold>\<open>Theories, in the order of imports.\<close>

  \<^item> \<open>Prelude\<close>: Go's integers, times, byte slices, hexadecimal and big-endian codecs; buffered channels as the
    locale \<open>bounded_queue\<close>, interpreted on the model of a Go channel; runs of labelled step relations with
    invariants and simulations.
  \<^item> \<open>Interest\<close>: the interest set of the buffer (\<open>interestEntries\<close>, \<open>interestList\<close> and their shared list
    elements) with \<open>AddInterest\<close>, \<open>HasInterest\<close>, \<open>hasInterestForSpanRLocked\<close> and \<open>pruneInterestLocked\<close>; a
    locale states what the buffer relies on.
  \<^item> \<open>Span_Record\<close>, \<open>Span_Buffer\<close>, \<open>Buffer_Machine\<close>: the record format, \<open>New\<close>, \<open>Write\<close>, \<open>handle\<close>, \<open>flush\<close>,
    \<open>processPage\<close> and both goroutines as the step relation \<open>buf_step\<close>, one step per access to shared state,
    with failing file operations; and \<open>spec_step\<close>, the abstract buffer: a set of requests, each resolved once.
  \<^item> \<open>Ring_Layout\<close>, \<open>Buffer_Scan\<close>, \<open>Buffer_Ring\<close>, \<open>Buffer_Refinement\<close>, \<open>Buffer_Sweep\<close>, \<open>Buffer_Simulation\<close>:
    the invariant that relates the bytes of the ring to the records in it, and the simulation of \<open>spec_step\<close> by
    \<open>buf_step\<close>.
  \<^item> \<open>Buffer_Example\<close>, \<open>Buffer_Properties\<close>, \<open>Buffer_Limits\<close>: refinement, delivery at most once, nothing
    lost, ring safety, justified evictions, no lost wake-up, no deadlock; limits and error behaviour.
  \<^item> \<open>Potential\<close>, \<open>Buffer_Shutdown\<close>: step relations whose own steps are paid for by a potential (locale
    \<open>potential\<close>) and that can always go on until a goal is reached (locale \<open>drains\<close>); interpreted on the two
    goroutines of the buffer: the work they do is bounded and \<open>Close\<close> returns.
  \<^item> \<open>Trace_Model\<close>: pdata traces and \<open>groupByTrace\<close> with its maps, equal to the restriction to a trace.
  \<^item> \<open>Evaluator\<close>, \<open>Evaluator_Properties\<close>, \<open>Registry\<close>: every policy, the chain (a locale for its evaluators),
    the configuration, the constructors and \<open>Build\<close> with all errors.
  \<^item> \<open>Policy_Types\<close>: what \<open>Build\<close> makes has the configured types and stays well formed under evaluation.
  \<^item> \<open>Coord_Client\<close>: \<open>Notify\<close>, the reconnect loop and the receiving goroutine as \<open>client_step\<close>.
  \<^item> \<open>Telemetry\<close>: the telemetry builder (\<open>internal/metadata/generated_telemetry.go\<close>) with its instruments, callbacks
    and \<open>Shutdown\<close>, over a metrics SDK that is a parameter.
  \<^item> \<open>Processor\<close>, \<open>Processor_Properties\<close>, \<open>Processor_Guarantees\<close>: the composition of buffer, client and
    any number of concurrent calls of \<open>processTraces\<close> as \<open>proc_step\<close>; conservation of spans, delivery at most
    once, termination, agreement with the sequential reading of the loop.
  \<^item> \<open>Processor_Shutdown\<close>: the eviction histogram accounts for what the buffer did not hand on; \<open>Shutdown\<close> returns,
    by another interpretation of \<open>drains\<close>, on the client, the buffer and \<open>Shutdown\<close> together.
  \<^item> \<open>Coord_Server\<close>: \<open>Connect\<close> (receiving loop, deferred function, sending goroutine) and \<open>Broadcast\<close> as
    \<open>server_step\<close>; order, batches, reach and counting of broadcasts.
  \<^item> \<open>Pub_Sub\<close>: the implementations \<open>memory\<close>, \<open>redis\<close> and \<open>proxy\<close> and \<open>onNotify\<close> over them; the locales \<open>pub_sub\<close>
    and \<open>counting_pub_sub\<close> are the contract, interpreted on the implementations.
  \<^item> \<open>Coordinator\<close>: single-node mode: server, in-memory \<open>PubSub\<close> and \<open>onNotify\<close> together as \<open>coord_step\<close>.
  \<^item> \<open>Coord_Cluster\<close>: distributed mode: any number of processes over one Redis, whose replies and messages
    may be lost, as \<open>cluster_step\<close>.
  \<^item> \<open>Coord_Relay\<close>: the locale \<open>decision_relay\<close> is what collectors rely on of a coordinator: it sends only trace IDs it
    was notified of. Interpreted on the single node, on the cluster, and on processes in proxy mode
    (\<open>proxied_step\<close>) in front of either.
  \<^item> \<open>Sampling_System\<close>: any number of collectors and any \<open>decision_relay\<close> over a network that may lose, reorder and
    repeat, as \<open>sys_step\<close>; a trace ID is followed from the policies through the client, the coordinator and
    the interest set to \<open>onMatch\<close>.
  \<^item> \<open>Coord_Config\<close>, \<open>Coord_Start\<close>: the coordinator's configuration, validation, credentials, options and
    start-up; \<open>Server.Start\<close>, the shutdown within its time limit and the exit of \<open>main\<close> as \<open>run_step\<close>.
  \<^item> \<open>Tracegen\<close>, \<open>Tracegen_Main\<close>: trace IDs, \<open>emit\<close>, \<open>Export\<close> and \<open>sweep\<close> of the load generator as \<open>tg_step\<close>; its
    \<open>main\<close> with set-up, warm-up, ticker, listener, metrics endpoint, last sweep, report and shutdown as \<open>gen_step\<close>.

  \<^bold>\<open>Conventions.\<close> A struct is a record, a nil pointer \<open>None\<close>, an error a value of a sum or option type, a
  panic a state or \<open>None\<close>. A goroutine is a program counter in the record, and a step of the relation is one
  access to state that other goroutines see; a critical section of a mutex is one step. What a peer, a
  service, the operating system or a random generator does is a choice of the step or an argument.
  Third-party code (regular expressions, the LRU cache, OTTL, the tracestate parser, pdata marshalling, the
  expiring cache, certificates, YAML, the OpenTelemetry and Prometheus SDKs) is a parameter, with its documented behaviour as a named
  hypothesis where a theorem needs it. Fields that record history (such as \<open>cs_taken\<close>, \<open>se_offered\<close>,
  \<open>p_stored\<close>, \<open>cd_adds\<close>) have no influence on the steps.

  \<^bold>\<open>Loops.\<close> No definition uses fuel: \<open>page_loop\<close>, \<open>read_chunks\<close> and the other loops over data are functions with
  a termination proof, and the endless loops of the goroutines are step relations. That a call of
  \<open>processTraces\<close> returns, that \<open>Close\<close> of the buffer and \<open>Shutdown\<close> of the processor return and that the coordinator
  exits are proved with bounds on the steps. \<open>NewSpanID\<close> is a function of the random numbers it draws.

  \<^bold>\<open>Not modelled.\<close> The generated protocol code, metadata constants and test assertions; \<open>NewFactory\<close>, which only hands the functions of
  \<open>factory.go\<close> to the collector; the gRPC server and client libraries beyond the documented behaviour written
  down with the steps that use it; what the metrics endpoints serve, and logging; the test helper
  \<open>testtls\<close>. An \<open>emit\<close> of the load generator is one step: before it inserts its slot it only
  adds to the counters of traces and IDs, which commutes with what the other goroutines do, and its spans
  end after that. The random bytes of a connection's ID are arbitrary, so the theorem on reach assumes that no two
  IDs are equal. The memory model is sequential consistency; the data races on the LRU cache of the string
  policy (concurrent \<open>processTraces\<close> calls share it without a lock) and on the context of the generator's
  sweeping goroutine are outside the model, in which an evaluation and a look at a context are one step.
\<close>

end
